(* ===== verification/UC_Prelude.thy ===== *)
theory UC_Prelude
  imports Main "HOL-Library.Word"
begin

text \<open>
  Shared vocabulary of the development: the machine integers of the C program (an x86-64 Linux
  build, so \<open>int\<close> has 32 bits, \<open>size_t\<close> and pointers 64, and the byte order is little-endian),
  conversions between them with the wrap-around written out, byte images of unsigned integers,
  and the hint collections the component theories fill.
\<close>

type_synonym u8 = "8 word"
type_synonym u16 = "16 word"
type_synonym u32 = "32 word"
type_synonym u64 = "64 word"

named_theorems frame_simps \<open>writes that leave an untouched part of the store alone\<close>
named_theorems link_simps \<open>what the list operations do to the chains of a store\<close>
named_theorems hash_simps \<open>bucket and key facts of the hash table\<close>
named_theorems timer_simps \<open>clock and slot facts of the timing wheels\<close>

section \<open>C integer conversions on mathematical integers\<close>

text \<open>The value an \<open>int\<close> expression has on the target when its exact value is \<open>x\<close>.\<close>

definition wrap_s32 :: "int \<Rightarrow> int" where
  "wrap_s32 x = (x + 2 ^ 31) mod 2 ^ 32 - 2 ^ 31"

text \<open>Conversion of a signed value to \<open>uint64_t\<close>, and the \<open>uint16_t\<close> cast.\<close>

definition to_u64 :: "int \<Rightarrow> nat" where
  "to_u64 x = nat (x mod 2 ^ 64)"

definition to_u16 :: "nat \<Rightarrow> nat" where
  "to_u16 x = x mod 2 ^ 16"

lemma wrap_s32_id [simp]: "- (2 ^ 31) \<le> x \<Longrightarrow> x < 2 ^ 31 \<Longrightarrow> wrap_s32 x = x"
  by (simp add: wrap_s32_def)

lemma wrap_s32_range: "- (2 ^ 31) \<le> wrap_s32 x \<and> wrap_s32 x < 2 ^ 31"
proof -
  have "0 \<le> (x + 2 ^ 31) mod 2 ^ 32" "(x + 2 ^ 31) mod 2 ^ 32 < 2 ^ 32"
    by simp_all
  then show ?thesis
    by (simp add: wrap_s32_def)
qed

lemma to_u64_id [simp]: "x < 2 ^ 64 \<Longrightarrow> to_u64 (int x) = x"
  by (simp add: to_u64_def)

lemma to_u64_less: "to_u64 x < 2 ^ 64"
  by (simp add: to_u64_def nat_less_iff)

lemma to_u16_id [simp]: "x < 2 ^ 16 \<Longrightarrow> to_u16 x = x"
  by (simp add: to_u16_def)

lemma to_u16_less [simp]: "to_u16 x < 2 ^ 16"
  by (simp add: to_u16_def)

section \<open>Little-endian byte images\<close>

text \<open>The value stored in a run of bytes, and the \<open>n\<close> bytes that store a value.\<close>

fun le_nat :: "u8 list \<Rightarrow> nat" where
  "le_nat [] = 0"
| "le_nat (b # bs) = unat b + 256 * le_nat bs"

fun le_bytes :: "nat \<Rightarrow> nat \<Rightarrow> u8 list" where
  "le_bytes 0 v = []"
| "le_bytes (Suc n) v = word_of_nat v # le_bytes n (v div 256)"

lemma length_le_bytes [simp]: "length (le_bytes n v) = n"
  by (induction n arbitrary: v) simp_all

lemma unat_u8_less [simp]: "unat (b :: u8) < 256"
  by (rule order_less_le_trans [OF unsigned_less]) simp

lemma le_nat_less: "le_nat bs < 256 ^ length bs"
proof (induction bs)
  case Nil
  then show ?case by simp
next
  case (Cons b bs)
  have "unat b + 256 * le_nat bs < 256 + 256 * le_nat bs"
    by simp
  also have "\<dots> = 256 * Suc (le_nat bs)"
    by simp
  also have "\<dots> \<le> 256 * 256 ^ length bs"
    using Cons.IH by (intro mult_le_mono2) simp
  finally show ?case by simp
qed

lemma le_nat_inject:
  "length xs = length ys \<Longrightarrow> le_nat xs = le_nat ys \<longleftrightarrow> xs = ys"
proof (induction xs ys rule: list_induct2)
  case Nil
  then show ?case by simp
next
  case (Cons x xs y ys)
  show ?case
  proof
    assume eq: "le_nat (x # xs) = le_nat (y # ys)"
    have "unat x = unat y"
      using arg_cong [OF eq, of "\<lambda>n. n mod 256"] by simp
    moreover have "le_nat xs = le_nat ys"
      using arg_cong [OF eq, of "\<lambda>n. n div 256"] by simp
    ultimately show "x # xs = y # ys"
      using Cons.IH by (simp add: word_unat_eq_iff)
  qed simp
qed

lemma le_nat_le_bytes: "v < 256 ^ n \<Longrightarrow> le_nat (le_bytes n v) = v"
proof (induction n arbitrary: v)
  case 0
  then show ?case by simp
next
  case (Suc n)
  then have "v div 256 < 256 ^ n"
    by (simp add: less_mult_imp_div_less mult.commute)
  moreover have "unat (word_of_nat v :: u8) = v mod 256"
    by (simp add: unat_of_nat)
  ultimately show ?case
    using Suc.IH by simp
qed

lemma le_bytes_le_nat: "le_bytes (length bs) (le_nat bs) = bs"
proof -
  have "le_nat (le_bytes (length bs) (le_nat bs)) = le_nat bs"
    by (rule le_nat_le_bytes [OF le_nat_less])
  then show ?thesis
    by (simp add: le_nat_inject)
qed

section \<open>Sequencing of fallible steps\<close>

text \<open>The second step runs on the result of the first unless that one failed.\<close>

definition run_bind :: "'e + 'a \<Rightarrow> ('a \<Rightarrow> 'e + 'b) \<Rightarrow> 'e + 'b" where
  "run_bind m f = (case m of Inl e \<Rightarrow> Inl e | Inr x \<Rightarrow> f x)"

lemma run_bind_simps [simp]:
  "run_bind (Inl e) f = Inl e"
  "run_bind (Inr x) f = f x"
  by (simp_all add: run_bind_def)

lemma run_bind_eq_Inr_iff:
  "run_bind m f = Inr y \<longleftrightarrow> (\<exists>x. m = Inr x \<and> f x = Inr y)"
  by (cases m) auto

section \<open>Lists\<close>

lemma nth_eq_take_iff:
  "n \<le> length xs \<Longrightarrow> n \<le> length ys \<Longrightarrow>
   (\<forall>i<n. xs ! i = ys ! i) \<longleftrightarrow> take n xs = take n ys"
  by (auto simp: list_eq_iff_nth_eq)

lemma distinct_remove_nth: "distinct xs \<Longrightarrow> distinct (take i xs @ drop (Suc i) xs)"
proof (cases "i < length xs")
  case True
  assume "distinct xs"
  then have "distinct (take i xs @ xs ! i # drop (Suc i) xs)"
    using True by (simp add: id_take_nth_drop [symmetric])
  then show ?thesis
    by simp
qed simp

lemma remove1_mid [simp]: "x \<notin> set xs \<Longrightarrow> remove1 x (xs @ x # ys) = xs @ ys"
  by (simp add: remove1_append)

lemma distinct_remove1_mid:
  "distinct zs \<Longrightarrow> x \<in> set zs \<Longrightarrow> \<exists>xs ys. zs = xs @ x # ys \<and> remove1 x zs = xs @ ys"
  by (metis remove1_mid split_list_first)

end
