(* ===== verification/List_Head.thy ===== *)
theory List_Head
  imports UC_Prelude
begin

text \<open>
  \<^verbatim>\<open>include/list.h\<close>: circular doubly linked lists through \<open>struct list_head\<close>, at the level of
  the pointers. A store maps the address of each \<open>list_head\<close> to its \<open>next\<close> and \<open>prev\<close> field;
  every operation is the sequence of field writes of the C code. \<open>dlist h head xs\<close> says that the
  nodes \<open>xs\<close>, in this order, form the list with head \<open>head\<close>; the lemmas show what each operation
  does to that list, that it leaves every other list alone, and that the iteration macros visit
  exactly the nodes of the list. The locale \<open>intrusive_lists\<close> is the interface the timer and
  the thread pool use; it is interpreted here on the pointer operations.
\<close>

section \<open>The store\<close>

record 'a links =
  lnext :: "'a \<Rightarrow> 'a"
  lprev :: "'a \<Rightarrow> 'a"

definition set_next :: "'a \<Rightarrow> 'a \<Rightarrow> 'a links \<Rightarrow> 'a links" where
  "set_next a v h = h\<lparr>lnext := (lnext h)(a := v)\<rparr>"

definition set_prev :: "'a \<Rightarrow> 'a \<Rightarrow> 'a links \<Rightarrow> 'a links" where
  "set_prev a v h = h\<lparr>lprev := (lprev h)(a := v)\<rparr>"

lemma set_next_simps [simp]:
  "lnext (set_next a v h) = (lnext h)(a := v)"
  "lprev (set_next a v h) = lprev h"
  by (simp_all add: set_next_def)

lemma set_prev_simps [simp]:
  "lprev (set_prev a v h) = (lprev h)(a := v)"
  "lnext (set_prev a v h) = lnext h"
  by (simp_all add: set_prev_def)

section \<open>The operations\<close>

definition list_init :: "'a \<Rightarrow> 'a links \<Rightarrow> 'a links" where
  "list_init l h = set_prev l l (set_next l l h)"

text \<open>\<^verbatim>\<open>__list_add(n, prev, next)\<close>: four writes, in this order.\<close>

definition list_add_raw :: "'a \<Rightarrow> 'a \<Rightarrow> 'a \<Rightarrow> 'a links \<Rightarrow> 'a links" where
  "list_add_raw n prev nxt h =
     set_next prev n (set_prev n prev (set_next n nxt (set_prev nxt n h)))"

definition list_add :: "'a \<Rightarrow> 'a \<Rightarrow> 'a links \<Rightarrow> 'a links" where
  "list_add n head h = list_add_raw n head (lnext h head) h"

definition list_add_tail :: "'a \<Rightarrow> 'a \<Rightarrow> 'a links \<Rightarrow> 'a links" where
  "list_add_tail n head h = list_add_raw n (lprev h head) head h"

text \<open>\<^verbatim>\<open>__list_del(prev, next)\<close>; the entry's own fields stay as they are.\<close>

definition list_del_raw :: "'a \<Rightarrow> 'a \<Rightarrow> 'a links \<Rightarrow> 'a links" where
  "list_del_raw prev nxt h = set_next prev nxt (set_prev nxt prev h)"

definition list_del_entry :: "'a \<Rightarrow> 'a links \<Rightarrow> 'a links" where
  "list_del_entry e h = list_del_raw (lprev h e) (lnext h e) h"

definition list_del :: "'a \<Rightarrow> 'a links \<Rightarrow> 'a links" where
  "list_del e h = list_del_raw (lprev h e) (lnext h e) h"

definition list_replace :: "'a \<Rightarrow> 'a \<Rightarrow> 'a links \<Rightarrow> 'a links" where
  "list_replace old n h =
     (let h1 = set_next n (lnext h old) h;
          h2 = set_prev (lnext h1 n) n h1;
          h3 = set_prev n (lprev h2 old) h2
      in set_next (lprev h3 n) n h3)"

definition list_replace_init :: "'a \<Rightarrow> 'a \<Rightarrow> 'a links \<Rightarrow> 'a links" where
  "list_replace_init old n h = list_init old (list_replace old n h)"

definition list_del_init :: "'a \<Rightarrow> 'a links \<Rightarrow> 'a links" where
  "list_del_init e h = list_init e (list_del_entry e h)"

definition list_move :: "'a \<Rightarrow> 'a \<Rightarrow> 'a links \<Rightarrow> 'a links" where
  "list_move e head h = list_add e head (list_del_entry e h)"

definition list_move_tail :: "'a \<Rightarrow> 'a \<Rightarrow> 'a links \<Rightarrow> 'a links" where
  "list_move_tail e head h = list_add_tail e head (list_del_entry e h)"

definition list_is_last :: "'a \<Rightarrow> 'a \<Rightarrow> 'a links \<Rightarrow> bool" where
  "list_is_last e head h \<longleftrightarrow> lnext h e = head"

definition list_empty :: "'a \<Rightarrow> 'a links \<Rightarrow> bool" where
  "list_empty head h \<longleftrightarrow> lnext h head = head"

definition list_empty_careful :: "'a \<Rightarrow> 'a links \<Rightarrow> bool" where
  "list_empty_careful head h \<longleftrightarrow> lnext h head = head \<and> lnext h head = lprev h head"

definition list_rotate_left :: "'a \<Rightarrow> 'a links \<Rightarrow> 'a links" where
  "list_rotate_left head h =
     (if \<not> list_empty head h then list_move_tail (lnext h head) head h else h)"

definition list_is_singular :: "'a \<Rightarrow> 'a links \<Rightarrow> bool" where
  "list_is_singular head h \<longleftrightarrow> \<not> list_empty head h \<and> lnext h head = lprev h head"

text \<open>\<^verbatim>\<open>__list_cut_position(list, head, entry)\<close>.\<close>

definition list_cut_position_raw :: "'a \<Rightarrow> 'a \<Rightarrow> 'a \<Rightarrow> 'a links \<Rightarrow> 'a links" where
  "list_cut_position_raw l head entry h =
     (let new_first = lnext h entry;
          h1 = set_next l (lnext h head) h;
          h2 = set_prev (lnext h1 l) l h1;
          h3 = set_prev l entry h2;
          h4 = set_next entry l h3;
          h5 = set_next head new_first h4
      in set_prev new_first head h5)"

definition list_cut_position :: "'a \<Rightarrow> 'a \<Rightarrow> 'a \<Rightarrow> 'a links \<Rightarrow> 'a links" where
  "list_cut_position l head entry h =
     (if list_empty head h then h
      else if list_is_singular head h \<and> (lnext h head \<noteq> entry \<and> head \<noteq> entry) then h
      else if entry = head then list_init l h
      else list_cut_position_raw l head entry h)"

text \<open>\<^verbatim>\<open>__list_splice(list, prev, next)\<close>.\<close>

definition list_splice_raw :: "'a \<Rightarrow> 'a \<Rightarrow> 'a \<Rightarrow> 'a links \<Rightarrow> 'a links" where
  "list_splice_raw l prev nxt h =
     (let first = lnext h l; lst = lprev h l
      in set_prev nxt lst (set_next lst nxt (set_next prev first (set_prev first prev h))))"

definition list_splice :: "'a \<Rightarrow> 'a \<Rightarrow> 'a links \<Rightarrow> 'a links" where
  "list_splice l head h =
     (if \<not> list_empty l h then list_splice_raw l head (lnext h head) h else h)"

definition list_splice_tail :: "'a \<Rightarrow> 'a \<Rightarrow> 'a links \<Rightarrow> 'a links" where
  "list_splice_tail l head h =
     (if \<not> list_empty l h then list_splice_raw l (lprev h head) head h else h)"

definition list_splice_init :: "'a \<Rightarrow> 'a \<Rightarrow> 'a links \<Rightarrow> 'a links" where
  "list_splice_init l head h =
     (if \<not> list_empty l h then list_init l (list_splice_raw l head (lnext h head) h) else h)"

definition list_splice_tail_init :: "'a \<Rightarrow> 'a \<Rightarrow> 'a links \<Rightarrow> 'a links" where
  "list_splice_tail_init l head h =
     (if \<not> list_empty l h then list_init l (list_splice_raw l (lprev h head) head h) else h)"

text \<open>
  The iteration macros. \<open>list_for_each\<close> and \<open>list_for_each_prev\<close> return the nodes the loop body
  sees when it does not touch the list, starting at cursor \<open>pos\<close>. \<open>list_for_each_safe\<close> runs a
  body on a state \<open>'s\<close> from which \<open>nx\<close> reads the \<open>next\<close> fields; the next cursor \<open>n\<close> is read
  before the body runs and its successor after, as in the macro. Fuel bounds the number of
  rounds; \<open>None\<close> stands for a loop still running, or a body that touched invalid memory.
\<close>

fun list_for_each :: "nat \<Rightarrow> 'a \<Rightarrow> 'a \<Rightarrow> 'a links \<Rightarrow> 'a list option" where
  "list_for_each 0 pos head h = None"
| "list_for_each (Suc fuel) pos head h =
     (if pos = head then Some []
      else map_option (Cons pos) (list_for_each fuel (lnext h pos) head h))"

fun list_for_each_prev :: "nat \<Rightarrow> 'a \<Rightarrow> 'a \<Rightarrow> 'a links \<Rightarrow> 'a list option" where
  "list_for_each_prev 0 pos head h = None"
| "list_for_each_prev (Suc fuel) pos head h =
     (if pos = head then Some []
      else map_option (Cons pos) (list_for_each_prev fuel (lprev h pos) head h))"

fun list_for_each_safe ::
  "('s \<Rightarrow> 'a \<Rightarrow> 'a) \<Rightarrow> ('a \<Rightarrow> 's \<Rightarrow> 's option) \<Rightarrow> nat \<Rightarrow> 'a \<Rightarrow> 'a \<Rightarrow> 'a \<Rightarrow> 's \<Rightarrow> 's option" where
  "list_for_each_safe nx body 0 pos n head s = None"
| "list_for_each_safe nx body (Suc fuel) pos n head s =
     (if pos = head then Some s
      else case body pos s of
        None \<Rightarrow> None
      | Some s' \<Rightarrow> list_for_each_safe nx body fuel n (nx s' n) head s')"

text \<open>The loop as the macro starts it.\<close>

definition run_for_each_safe ::
  "('s \<Rightarrow> 'a \<Rightarrow> 'a) \<Rightarrow> ('a \<Rightarrow> 's \<Rightarrow> 's option) \<Rightarrow> nat \<Rightarrow> 'a \<Rightarrow> 's \<Rightarrow> 's option" where
  "run_for_each_safe nx body fuel head s =
     list_for_each_safe nx body fuel (nx s head) (nx s (nx s head)) head s"

section \<open>Chains and lists\<close>

text \<open>
  \<open>chain h a xs b\<close>: from \<open>a\<close> along \<open>next\<close> through the nodes \<open>xs\<close> to \<open>b\<close>, with the \<open>prev\<close>
  fields pointing back. A list is a chain from its head to its head.
\<close>

fun chain :: "'a links \<Rightarrow> 'a \<Rightarrow> 'a list \<Rightarrow> 'a \<Rightarrow> bool" where
  "chain h a [] b \<longleftrightarrow> lnext h a = b \<and> lprev h b = a"
| "chain h a (x # xs) b \<longleftrightarrow> lnext h a = x \<and> lprev h x = a \<and> chain h x xs b"

definition dlist :: "'a links \<Rightarrow> 'a \<Rightarrow> 'a list \<Rightarrow> bool" where
  "dlist h head xs \<longleftrightarrow> distinct (head # xs) \<and> chain h head xs head"

lemma chain_append [simp]:
  "chain h a (xs @ x # ys) b \<longleftrightarrow> chain h a xs x \<and> chain h x ys b"
  by (induction xs arbitrary: a) simp_all

lemma chain_set_next [frame_simps]:
  "c \<notin> set (a # xs) \<Longrightarrow> chain (set_next c v h) a xs b = chain h a xs b"
  by (induction xs arbitrary: a) auto

lemma chain_set_prev [frame_simps]:
  "c \<notin> set (xs @ [b]) \<Longrightarrow> chain (set_prev c v h) a xs b = chain h a xs b"
  by (induction xs arbitrary: a) auto

lemma chain_first: "chain h a xs b \<Longrightarrow> lnext h a = (case xs of [] \<Rightarrow> b | x # _ \<Rightarrow> x)"
  by (cases xs) simp_all

lemma chain_last: "chain h a xs b \<Longrightarrow> lprev h b = last (a # xs)"
  by (induction xs arbitrary: a) auto

lemma chain_cong:
  "(\<And>c. c \<in> set (a # xs) \<Longrightarrow> lnext h c = lnext h' c) \<Longrightarrow>
   (\<And>c. c \<in> set (xs @ [b]) \<Longrightarrow> lprev h c = lprev h' c) \<Longrightarrow>
   chain h a xs b = chain h' a xs b"
  by (induction xs arbitrary: a) auto

lemma dlist_first: "dlist h head xs \<Longrightarrow> lnext h head = (case xs of [] \<Rightarrow> head | x # _ \<Rightarrow> x)"
  by (auto simp: dlist_def dest: chain_first)

lemma dlist_last: "dlist h head xs \<Longrightarrow> lprev h head = last (head # xs)"
  by (auto simp: dlist_def dest: chain_last)

lemma dlist_nextD:
  "dlist h head (xs @ x # ys) \<Longrightarrow> lnext h x = (case ys of [] \<Rightarrow> head | y # _ \<Rightarrow> y)"
  by (auto simp: dlist_def dest: chain_first)

lemma dlist_prevD:
  "dlist h head (xs @ x # ys) \<Longrightarrow> lprev h x = last (head # xs)"
  by (auto simp: dlist_def dest: chain_last)

lemma dlist_unique: "dlist h head xs \<Longrightarrow> dlist h head ys \<Longrightarrow> xs = ys"
proof -
  have "chain h a xs b \<Longrightarrow> chain h a ys b \<Longrightarrow> b \<notin> set xs \<Longrightarrow> b \<notin> set ys \<Longrightarrow> xs = ys" for a b
  proof (induction xs arbitrary: a ys)
    case Nil
    then show ?case by (cases ys) auto
  next
    case (Cons x xs)
    then show ?case by (cases ys) auto
  qed
  then show "dlist h head xs \<Longrightarrow> dlist h head ys \<Longrightarrow> xs = ys"
    by (auto simp: dlist_def)
qed

lemma list_empty_iff [link_simps]: "dlist h head xs \<Longrightarrow> list_empty head h \<longleftrightarrow> xs = []"
  by (auto simp: list_empty_def dlist_first dlist_def split: list.splits)

lemma list_empty_careful_iff [link_simps]:
  "dlist h head xs \<Longrightarrow> list_empty_careful head h \<longleftrightarrow> xs = []"
  by (cases xs) (auto simp: list_empty_careful_def dlist_def)

lemma list_is_last_iff [link_simps]:
  "dlist h head (xs @ x # ys) \<Longrightarrow> list_is_last x head h \<longleftrightarrow> ys = []"
  by (auto simp: list_is_last_def dlist_nextD dlist_def split: list.splits)

lemma list_is_singular_iff [link_simps]:
  "dlist h head xs \<Longrightarrow> list_is_singular head h \<longleftrightarrow> length xs = 1"
proof -
  assume d: "dlist h head xs"
  show ?thesis
  proof (cases xs)
    case Nil
    with d show ?thesis by (simp add: list_is_singular_def list_empty_iff)
  next
    case (Cons x ys)
    with d have "lnext h head = x" "lprev h head = last (x # ys)" "distinct (x # ys)" "x \<noteq> head"
      by (auto simp: dlist_def dest: chain_last)
    moreover have "x = last (x # ys) \<longleftrightarrow> ys = []" if "distinct (x # ys)"
      using that by (cases ys rule: rev_cases) auto
    ultimately show ?thesis
      using Cons by (auto simp: list_is_singular_def list_empty_def)
  qed
qed

section \<open>What each operation does to its list\<close>

lemma dlist_list_init [link_simps]: "dlist (list_init l h) l []"
  by (simp add: dlist_def list_init_def)

lemma dlist_list_add [link_simps]:
  assumes "dlist h head xs" "n \<notin> set (head # xs)"
  shows "dlist (list_add n head h) head (n # xs)"
  using assms
  by (cases xs) (auto simp: dlist_def list_add_def list_add_raw_def frame_simps)

lemma dlist_list_add_tail [link_simps]:
  assumes "dlist h head xs" "n \<notin> set (head # xs)"
  shows "dlist (list_add_tail n head h) head (xs @ [n])"
  using assms
  by (cases xs rule: rev_cases)
    (auto simp: dlist_def list_add_tail_def list_add_raw_def frame_simps)

lemma dlist_list_del:
  assumes "dlist h head (xs @ x # ys)"
  shows "dlist (list_del x h) head (xs @ ys)"
  using assms
  by (cases xs rule: rev_cases; cases ys)
    (auto simp: dlist_def list_del_def list_del_raw_def frame_simps)

lemma list_del_entry_eq [simp]: "list_del_entry = list_del"
  by (simp add: fun_eq_iff list_del_entry_def list_del_def)

text \<open>The node removed keeps its stale fields.\<close>

lemma list_del_stale:
  assumes "dlist h head (xs @ x # ys)"
  shows "lnext (list_del x h) x = (case ys of [] \<Rightarrow> head | y # _ \<Rightarrow> y)"
    and "lprev (list_del x h) x = last (head # xs)"
proof -
  have "last (head # xs) \<noteq> x" "(case ys of [] \<Rightarrow> head | y # _ \<Rightarrow> y) \<noteq> x"
    using assms by (auto simp: dlist_def split: list.splits)
  then show "lnext (list_del x h) x = (case ys of [] \<Rightarrow> head | y # _ \<Rightarrow> y)"
    "lprev (list_del x h) x = last (head # xs)"
    using dlist_nextD [OF assms] dlist_prevD [OF assms]
    by (simp_all add: list_del_def list_del_raw_def del: last.simps)
qed

lemma list_replace_eq:
  "lnext h old \<noteq> old \<Longrightarrow>
   list_replace old n h =
     set_next (lprev h old) n (set_prev n (lprev h old)
       (set_prev (lnext h old) n (set_next n (lnext h old) h)))"
  by (simp add: list_replace_def Let_def)

lemma dlist_list_replace:
  assumes "dlist h head (xs @ x # ys)" "n \<notin> set (head # xs @ x # ys)"
  shows "dlist (list_replace x n h) head (xs @ n # ys)"
proof -
  have "lnext h x \<noteq> x"
    using dlist_nextD [OF assms(1)] assms(1) by (auto simp: dlist_def split: list.splits)
  note eq = list_replace_eq [OF this, of n]
  show ?thesis
    unfolding eq using assms
    by (cases xs rule: rev_cases; cases ys) (auto simp: dlist_def frame_simps)
qed

section \<open>Frame: what an operation does to the other lists\<close>

lemma dlist_set_next [frame_simps]:
  "c \<notin> set (k # zs) \<Longrightarrow> dlist (set_next c v h) k zs = dlist h k zs"
  by (simp add: dlist_def chain_set_next)

lemma dlist_set_prev [frame_simps]:
  "c \<notin> set (k # zs) \<Longrightarrow> dlist (set_prev c v h) k zs = dlist h k zs"
  by (simp add: dlist_def chain_set_prev)

lemma dlist_add_raw_frame [frame_simps]:
  "{n, p, q} \<inter> set (k # zs) = {} \<Longrightarrow> dlist (list_add_raw n p q h) k zs = dlist h k zs"
  by (auto simp: list_add_raw_def dlist_set_next dlist_set_prev)

lemma dlist_del_raw_frame [frame_simps]:
  "{p, q} \<inter> set (k # zs) = {} \<Longrightarrow> dlist (list_del_raw p q h) k zs = dlist h k zs"
  by (auto simp: list_del_raw_def dlist_set_next dlist_set_prev)

lemma dlist_init_frame [frame_simps]:
  "l \<notin> set (k # zs) \<Longrightarrow> dlist (list_init l h) k zs = dlist h k zs"
  by (simp add: list_init_def frame_simps)

lemma dlist_neighbours:
  assumes "dlist h head (xs @ x # ys)"
  shows "lnext h x \<in> set (head # ys)" "lprev h x \<in> set (head # xs)"
  using dlist_nextD [OF assms] dlist_prevD [OF assms]
  by (auto split: list.splits if_splits)

lemma dlist_head_neighbours:
  assumes "dlist h head xs"
  shows "lnext h head \<in> set (head # xs)" "lprev h head \<in> set (head # xs)"
  using dlist_first [OF assms] dlist_last [OF assms]
  by (auto split: list.splits if_splits)

lemma list_add_frame:
  assumes "dlist h head xs" "set (head # xs) \<inter> set (k # zs) = {}" "n \<notin> set (k # zs)"
  shows "dlist (list_add n head h) k zs = dlist h k zs"
  unfolding list_add_def
  using dlist_head_neighbours [OF assms(1)] assms(2,3)
  by (intro dlist_add_raw_frame) auto

lemma list_add_tail_frame:
  assumes "dlist h head xs" "set (head # xs) \<inter> set (k # zs) = {}" "n \<notin> set (k # zs)"
  shows "dlist (list_add_tail n head h) k zs = dlist h k zs"
  unfolding list_add_tail_def
  using dlist_head_neighbours [OF assms(1)] assms(2,3)
  by (intro dlist_add_raw_frame) auto

lemma list_del_frame:
  assumes "dlist h head (xs @ x # ys)" "set (head # xs @ x # ys) \<inter> set (k # zs) = {}"
  shows "dlist (list_del x h) k zs = dlist h k zs"
  unfolding list_del_def
  using dlist_neighbours [OF assms(1)] assms(2)
  by (intro dlist_del_raw_frame) auto

section \<open>The compound operations\<close>

lemma dlist_list_del_init:
  assumes "dlist h head (xs @ x # ys)"
  shows "dlist (list_del_init x h) head (xs @ ys)" "dlist (list_del_init x h) x []"
proof -
  have "x \<notin> set (head # xs @ ys)"
    using assms by (auto simp: dlist_def)
  then show "dlist (list_del_init x h) head (xs @ ys)"
    using dlist_list_del [OF assms] by (simp add: list_del_init_def dlist_init_frame)
qed (simp add: list_del_init_def dlist_list_init)

lemma dlist_list_move:
  assumes "dlist h head (xs @ x # ys)"
  shows "dlist (list_move x head h) head (x # xs @ ys)"
proof -
  have "x \<notin> set (head # xs @ ys)"
    using assms by (auto simp: dlist_def)
  then show ?thesis
    using dlist_list_del [OF assms] by (simp add: list_move_def dlist_list_add)
qed

lemma dlist_list_move_tail:
  assumes "dlist h head (xs @ x # ys)"
  shows "dlist (list_move_tail x head h) head (xs @ ys @ [x])"
proof -
  have "x \<notin> set (head # xs @ ys)"
    using assms by (auto simp: dlist_def)
  then show ?thesis
    using dlist_list_add_tail [OF dlist_list_del [OF assms]] by (simp add: list_move_tail_def)
qed

text \<open>Rotating a list to the left is \<open>rotate1\<close>, the empty list included.\<close>

lemma dlist_list_rotate_left:
  assumes "dlist h head xs"
  shows "dlist (list_rotate_left head h) head (rotate1 xs)"
proof (cases xs)
  case Nil
  with assms show ?thesis
    by (simp add: list_rotate_left_def list_empty_iff)
next
  case (Cons x ys)
  with assms have "dlist h head ([] @ x # ys)" "lnext h head = x" "\<not> list_empty head h"
    by (simp_all add: dlist_first list_empty_iff)
  then show ?thesis
    using dlist_list_move_tail [of h head "[]" x ys] Cons
    by (simp add: list_rotate_left_def)
qed

lemma dlist_list_replace_init:
  assumes "dlist h head (xs @ x # ys)" "n \<notin> set (head # xs @ x # ys)"
  shows "dlist (list_replace_init x n h) head (xs @ n # ys)"
    and "dlist (list_replace_init x n h) x []"
proof -
  have "x \<notin> set (head # xs @ n # ys)"
    using assms by (auto simp: dlist_def)
  then show "dlist (list_replace_init x n h) head (xs @ n # ys)"
    using dlist_list_replace [OF assms] by (simp add: list_replace_init_def dlist_init_frame)
qed (simp add: list_replace_init_def dlist_list_init)

lemma list_splice_raw_eq:
  "dlist h l (x # xs) \<Longrightarrow>
   list_splice_raw l p q h =
     set_prev q (last (x # xs)) (set_next (last (x # xs)) q
       (set_next p x (set_prev x p h)))"
  by (auto simp: list_splice_raw_def Let_def dlist_def dest: chain_last)

lemma dlist_list_splice:
  assumes "dlist h l xs" "dlist h head ys" "set (l # xs) \<inter> set (head # ys) = {}"
  shows "dlist (list_splice l head h) head (xs @ ys)"
proof (cases xs)
  case Nil
  with assms show ?thesis
    by (simp add: list_splice_def list_empty_iff)
next
  case (Cons x zs)
  have neq: "\<not> list_empty l h"
    using assms(1) Cons by (simp add: list_empty_iff)
  note eq = list_splice_raw_eq [OF assms(1) [unfolded Cons]]
  show ?thesis
    unfolding list_splice_def if_P [OF neq] eq using assms Cons
    by (cases ys; cases zs rule: rev_cases) (auto simp: dlist_def frame_simps)
qed

lemma dlist_list_splice_tail:
  assumes "dlist h l xs" "dlist h head ys" "set (l # xs) \<inter> set (head # ys) = {}"
  shows "dlist (list_splice_tail l head h) head (ys @ xs)"
proof (cases xs)
  case Nil
  with assms show ?thesis
    by (simp add: list_splice_tail_def list_empty_iff)
next
  case (Cons x zs)
  have neq: "\<not> list_empty l h"
    using assms(1) Cons by (simp add: list_empty_iff)
  note eq = list_splice_raw_eq [OF assms(1) [unfolded Cons]]
  show ?thesis
    unfolding list_splice_tail_def if_P [OF neq] eq using assms Cons
    by (cases ys rule: rev_cases; cases zs rule: rev_cases) (auto simp: dlist_def frame_simps)
qed

lemma dlist_list_splice_init:
  assumes "dlist h l xs" "dlist h head ys" "set (l # xs) \<inter> set (head # ys) = {}"
  shows "dlist (list_splice_init l head h) head (xs @ ys)"
    and "dlist (list_splice_init l head h) l []"
proof -
  have fresh: "l \<notin> set (head # xs @ ys)"
    using assms by (auto simp: dlist_def)
  show "dlist (list_splice_init l head h) head (xs @ ys)"
    using dlist_list_splice [OF assms] fresh
    by (simp add: list_splice_init_def list_splice_def dlist_init_frame split: if_splits)
  show "dlist (list_splice_init l head h) l []"
    using assms(1) by (auto simp: list_splice_init_def link_simps)
qed

lemma dlist_list_splice_tail_init:
  assumes "dlist h l xs" "dlist h head ys" "set (l # xs) \<inter> set (head # ys) = {}"
  shows "dlist (list_splice_tail_init l head h) head (ys @ xs)"
    and "dlist (list_splice_tail_init l head h) l []"
proof -
  have fresh: "l \<notin> set (head # ys @ xs)"
    using assms by (auto simp: dlist_def)
  show "dlist (list_splice_tail_init l head h) head (ys @ xs)"
    using dlist_list_splice_tail [OF assms] fresh
    by (simp add: list_splice_tail_init_def list_splice_tail_def dlist_init_frame
        split: if_splits)
  show "dlist (list_splice_tail_init l head h) l []"
    using assms(1) by (auto simp: list_splice_tail_init_def link_simps)
qed

text \<open>
  \<open>list_cut_position\<close> moves the nodes up to and including \<open>entry\<close> to the list \<open>l\<close>; with the
  head itself as \<open>entry\<close> nothing moves and \<open>l\<close> becomes empty.
\<close>

lemma dlist_cut_position_raw:
  assumes "dlist h head (xs @ e # ys)" "l \<notin> set (head # xs @ e # ys)"
  shows "dlist (list_cut_position_raw l head e h) l (xs @ [e])"
    and "dlist (list_cut_position_raw l head e h) head ys"
proof -
  show "dlist (list_cut_position_raw l head e h) l (xs @ [e])"
    using assms by (cases xs; cases ys)
      (auto simp: dlist_def list_cut_position_raw_def Let_def frame_simps)
  show "dlist (list_cut_position_raw l head e h) head ys"
    using assms by (cases xs; cases ys)
      (auto simp: dlist_def list_cut_position_raw_def Let_def frame_simps)
qed

lemma dlist_list_cut_position:
  assumes "dlist h head (xs @ e # ys)" "l \<notin> set (head # xs @ e # ys)"
  shows "dlist (list_cut_position l head e h) l (xs @ [e])"
    and "dlist (list_cut_position l head e h) head ys"
proof -
  have "\<not> list_empty head h" "e \<noteq> head"
    using assms(1) list_empty_iff [OF assms(1)] by (auto simp: dlist_def)
  moreover have "lnext h head = e" if "list_is_singular head h"
    using assms(1) that dlist_first [OF assms(1)]
    by (cases xs) (auto simp: list_is_singular_iff)
  ultimately have "list_cut_position l head e h = list_cut_position_raw l head e h"
    by (auto simp: list_cut_position_def)
  then show "dlist (list_cut_position l head e h) l (xs @ [e])"
    "dlist (list_cut_position l head e h) head ys"
    using dlist_cut_position_raw [OF assms] by simp_all
qed

lemma dlist_list_cut_position_head:
  assumes "dlist h head xs" "l \<notin> set (head # xs)" "xs \<noteq> []"
  shows "dlist (list_cut_position l head head h) l []"
    and "dlist (list_cut_position l head head h) head xs"
  using assms by (simp_all add: list_cut_position_def list_empty_iff dlist_init_frame dlist_list_init)

section \<open>Iteration\<close>

lemma list_for_each_chain:
  "chain h a xs head \<Longrightarrow> head \<notin> set xs \<Longrightarrow> length xs < fuel \<Longrightarrow>
   list_for_each fuel (lnext h a) head h = Some xs"
proof (induction xs arbitrary: a fuel)
  case Nil
  then show ?case by (cases fuel) auto
next
  case (Cons x xs)
  then show ?case by (cases fuel) auto
qed

text \<open>
  With more fuel than nodes, the forward loop visits the nodes in order and the backward
  loop in reverse order.
\<close>

lemma list_for_each_dlist:
  "dlist h head xs \<Longrightarrow> length xs < fuel \<Longrightarrow> list_for_each fuel (lnext h head) head h = Some xs"
  by (auto simp: dlist_def intro: list_for_each_chain)

lemma list_for_each_prev_chain:
  "chain h head xs b \<Longrightarrow> head \<notin> set xs \<Longrightarrow> length xs < fuel \<Longrightarrow>
   list_for_each_prev fuel (lprev h b) head h = Some (rev xs)"
proof (induction xs arbitrary: b fuel rule: rev_induct)
  case Nil
  then show ?case by (cases fuel) auto
next
  case (snoc x xs)
  then show ?case by (cases fuel) auto
qed

lemma list_for_each_prev_dlist:
  "dlist h head xs \<Longrightarrow> length xs < fuel \<Longrightarrow>
   list_for_each_prev fuel (lprev h head) head h = Some (rev xs)"
  by (auto simp: dlist_def intro: list_for_each_prev_chain)

section \<open>Many lists in one store: the interface of the clients\<close>

text \<open>
  \<open>lists_rel h H L\<close>: the heads \<open>H\<close> head disjoint lists, \<open>L\<close> gives the nodes of each.
\<close>

definition lists_rel :: "'a links \<Rightarrow> 'a set \<Rightarrow> ('a \<Rightarrow> 'a list) \<Rightarrow> bool" where
  "lists_rel h H L \<longleftrightarrow>
     (\<forall>a\<in>H. dlist h a (L a)) \<and>
     (\<forall>a\<in>H. \<forall>b\<in>H. a \<noteq> b \<longrightarrow> set (a # L a) \<inter> set (b # L b) = {})"

definition unlinked :: "'a set \<Rightarrow> ('a \<Rightarrow> 'a list) \<Rightarrow> 'a \<Rightarrow> bool" where
  "unlinked H L n \<longleftrightarrow> (\<forall>a\<in>H. n \<notin> set (a # L a))"

lemma lists_rel_dlist: "lists_rel h H L \<Longrightarrow> a \<in> H \<Longrightarrow> dlist h a (L a)"
  by (simp add: lists_rel_def)

lemma lists_rel_disjoint:
  "lists_rel h H L \<Longrightarrow> a \<in> H \<Longrightarrow> b \<in> H \<Longrightarrow> a \<noteq> b \<Longrightarrow> set (a # L a) \<inter> set (b # L b) = {}"
  unfolding lists_rel_def by blast

text \<open>
  One proof for the three operations: a list changes as said, the others are out of reach,
  and the new list shares no node with them.
\<close>

lemma lists_rel_update:
  assumes rel: "lists_rel h H L" and a: "a \<in> H"
    and new: "dlist h' a zs"
    and frame: "\<And>b. b \<in> H \<Longrightarrow> b \<noteq> a \<Longrightarrow> dlist h' b (L b) = dlist h b (L b)"
    and fresh: "\<And>z b. z \<in> set zs \<Longrightarrow> b \<in> H \<Longrightarrow> b \<noteq> a \<Longrightarrow> z \<notin> set (b # L b)"
  shows "lists_rel h' H (L(a := zs))"
proof -
  have "a \<notin> set (b # L b)" if "b \<in> H" "b \<noteq> a" for b
    using lists_rel_disjoint [OF rel a that(1)] that(2) by auto
  then have "set (a # zs) \<inter> set (b # L b) = {}" if "b \<in> H" "b \<noteq> a" for b
    using that fresh [OF _ that] by fastforce
  then have "set (b # (L(a := zs)) b) \<inter> set (c # (L(a := zs)) c) = {}"
    if "b \<in> H" "c \<in> H" "b \<noteq> c" for b c
    using that lists_rel_disjoint [OF rel that] by (cases "b = a"; cases "c = a") auto
  moreover have "dlist h' b ((L(a := zs)) b)" if "b \<in> H" for b
    using that new frame [OF that] lists_rel_dlist [OF rel that] by (cases "b = a") auto
  ultimately show ?thesis
    unfolding lists_rel_def by blast
qed

lemma lists_rel_list_add:
  assumes rel: "lists_rel h H L" and a: "a \<in> H" and n: "unlinked H L n"
  shows "lists_rel (list_add n a h) H (L(a := n # L a))"
proof (rule lists_rel_update [OF rel a])
  show "dlist (list_add n a h) a (n # L a)"
    using n a by (intro dlist_list_add lists_rel_dlist [OF rel a]) (auto simp: unlinked_def)
  show "dlist (list_add n a h) b (L b) = dlist h b (L b)" if "b \<in> H" "b \<noteq> a" for b
    using n that lists_rel_disjoint [OF rel a that(1)]
    by (intro list_add_frame [OF lists_rel_dlist [OF rel a]]) (auto simp: unlinked_def)
  show "z \<notin> set (b # L b)" if "z \<in> set (n # L a)" "b \<in> H" "b \<noteq> a" for z b
    using that n lists_rel_disjoint [OF rel a that(2)] by (auto simp: unlinked_def)
qed

lemma lists_rel_list_add_tail:
  assumes rel: "lists_rel h H L" and a: "a \<in> H" and n: "unlinked H L n"
  shows "lists_rel (list_add_tail n a h) H (L(a := L a @ [n]))"
proof (rule lists_rel_update [OF rel a])
  show "dlist (list_add_tail n a h) a (L a @ [n])"
    using n a by (intro dlist_list_add_tail lists_rel_dlist [OF rel a]) (auto simp: unlinked_def)
  show "dlist (list_add_tail n a h) b (L b) = dlist h b (L b)" if "b \<in> H" "b \<noteq> a" for b
    using n that lists_rel_disjoint [OF rel a that(1)]
    by (intro list_add_tail_frame [OF lists_rel_dlist [OF rel a]]) (auto simp: unlinked_def)
  show "z \<notin> set (b # L b)" if "z \<in> set (L a @ [n])" "b \<in> H" "b \<noteq> a" for z b
    using that n lists_rel_disjoint [OF rel a that(2)] by (auto simp: unlinked_def)
qed

lemma lists_rel_list_del:
  assumes rel: "lists_rel h H L" and a: "a \<in> H" and L: "L a = xs @ x # ys"
  shows "lists_rel (list_del x h) H (L(a := xs @ ys))"
proof (rule lists_rel_update [OF rel a])
  have d: "dlist h a (xs @ x # ys)"
    using lists_rel_dlist [OF rel a] L by simp
  then show "dlist (list_del x h) a (xs @ ys)"
    by (rule dlist_list_del)
  show "dlist (list_del x h) b (L b) = dlist h b (L b)" if "b \<in> H" "b \<noteq> a" for b
    using that lists_rel_disjoint [OF rel a that(1)] L by (intro list_del_frame [OF d]) auto
  show "z \<notin> set (b # L b)" if "z \<in> set (xs @ ys)" "b \<in> H" "b \<noteq> a" for z b
    using that lists_rel_disjoint [OF rel a that(2)] L by auto
qed

text \<open>
  The interface: a store \<open>'h\<close> of disjoint lists, with the \<open>next\<close> pointer of a node, insertion
  at either end and removal of a linked node. The clients' loops are proved from the laws.
\<close>

locale intrusive_lists =
  fixes rel :: "'h \<Rightarrow> 'a set \<Rightarrow> ('a \<Rightarrow> 'a list) \<Rightarrow> bool"
    and nx :: "'h \<Rightarrow> 'a \<Rightarrow> 'a"
    and push :: "'a \<Rightarrow> 'a \<Rightarrow> 'h \<Rightarrow> 'h"
    and push_tail :: "'a \<Rightarrow> 'a \<Rightarrow> 'h \<Rightarrow> 'h"
    and unlink :: "'a \<Rightarrow> 'h \<Rightarrow> 'h"
  assumes rel_distinct: "rel h H L \<Longrightarrow> a \<in> H \<Longrightarrow> distinct (a # L a)"
    and rel_disjoint: "rel h H L \<Longrightarrow> a \<in> H \<Longrightarrow> b \<in> H \<Longrightarrow> a \<noteq> b \<Longrightarrow>
      set (a # L a) \<inter> set (b # L b) = {}"
    and rel_first: "rel h H L \<Longrightarrow> a \<in> H \<Longrightarrow> nx h a = hd (L a @ [a])"
    and rel_next: "rel h H L \<Longrightarrow> a \<in> H \<Longrightarrow> L a = xs @ x # ys \<Longrightarrow> nx h x = hd (ys @ [a])"
    and rel_push: "rel h H L \<Longrightarrow> a \<in> H \<Longrightarrow> unlinked H L n \<Longrightarrow>
      rel (push n a h) H (L(a := n # L a))"
    and rel_push_tail: "rel h H L \<Longrightarrow> a \<in> H \<Longrightarrow> unlinked H L n \<Longrightarrow>
      rel (push_tail n a h) H (L(a := L a @ [n]))"
    and rel_unlink: "rel h H L \<Longrightarrow> a \<in> H \<Longrightarrow> L a = xs @ x # ys \<Longrightarrow>
      rel (unlink x h) H (L(a := xs @ ys))"
begin

lemma first_empty_iff: "rel h H L \<Longrightarrow> a \<in> H \<Longrightarrow> nx h a = a \<longleftrightarrow> L a = []"
  using rel_first [of h H L a] rel_distinct [of h H L a] by (cases "L a") auto

text \<open>An unlinked node is linked nowhere, so it can be inserted again.\<close>

lemma unlinked_after_unlink:
  assumes "rel h H L" "a \<in> H" "L a = xs @ x # ys"
  shows "unlinked H (L(a := xs @ ys)) x"
proof -
  have "x \<notin> set (b # (L(a := xs @ ys)) b)" if "b \<in> H" for b
    using rel_distinct [OF assms(1,2)] rel_disjoint [OF assms(1,2) that] assms(3)
    by (cases "b = a") auto
  then show ?thesis
    by (simp add: unlinked_def)
qed

lemma rel_move_tail:
  assumes "rel h H L" "a \<in> H" "L a = xs @ x # ys" "b \<in> H"
  shows "rel (push_tail x b (unlink x h)) H ((L(a := xs @ ys))(b := (L(a := xs @ ys)) b @ [x]))"
  using rel_push_tail [OF rel_unlink [OF assms(1-3)] assms(4) unlinked_after_unlink [OF assms(1-3)]] .

text \<open>
  The safe loop, by an invariant \<open>Q k s L rest\<close> over a bound \<open>k\<close> on the rounds left, the state, the
  lists and the nodes \<open>rest\<close> still ahead of the cursor. The body may add nodes behind them: the
  loop visits these too, unless the cursor was on the last node when they were added, since the
  macro has read the next node before the body runs.
\<close>

lemma for_each_safe_gen_aux:
  assumes a: "a \<in> H"
    and step: "\<And>k s L x rest ys. rel (get s) H L \<Longrightarrow> Q k s L (x # rest) \<Longrightarrow> L a = ys @ x # rest \<Longrightarrow>
      \<exists>k' s' L' ys' add. k' < k \<and> body x s = Some s' \<and> rel (get s') H L' \<and>
        L' a = ys' @ rest @ add \<and> Q k' s' L' (if rest = [] then [] else rest @ add)"
  shows "rel (get s) H L \<Longrightarrow> Q k s L xs \<Longrightarrow> L a = ys @ xs @ zs \<Longrightarrow> xs = [] \<or> zs = [] \<Longrightarrow> k < fuel \<Longrightarrow>
    n = (case xs of [] \<Rightarrow> n | x # rest \<Rightarrow> hd (rest @ [a])) \<Longrightarrow>
    \<exists>k' s' L'. list_for_each_safe (\<lambda>s. nx (get s)) body fuel (hd (xs @ [a])) n a s = Some s' \<and>
      rel (get s') H L' \<and> Q k' s' L' []"
proof (induction fuel arbitrary: k xs s L ys zs n)
  case 0
  then show ?case by simp
next
  case (Suc fuel)
  show ?case
  proof (cases xs)
    case Nil
    then show ?thesis using Suc.prems(1,2) by auto
  next
    case (Cons x rest)
    with Suc.prems have L: "L a = ys @ x # rest" and Q: "Q k s L (x # rest)"
      and n: "n = hd (rest @ [a])"
      by auto
    have "x \<noteq> a"
      using rel_distinct [OF Suc.prems(1) a] L by auto
    obtain k' s' L' ys' add where s': "k' < k" "body x s = Some s'" "rel (get s') H L'"
      "L' a = ys' @ rest @ add" "Q k' s' L' (if rest = [] then [] else rest @ add)"
      using step [OF Suc.prems(1) Q L] by blast
    let ?xs = "if rest = [] then [] else rest @ add"
    obtain zs' where zs': "L' a = ys' @ ?xs @ zs'" "?xs = [] \<or> zs' = []"
      using s'(4) by (cases "rest = []") auto
    have "nx (get s') n = (case ?xs of [] \<Rightarrow> nx (get s') n | y # zs \<Rightarrow> hd (zs @ [a]))"
      using rel_next [OF s'(3) a] zs' n by (cases rest) auto
    moreover have "hd (?xs @ [a]) = n"
      using n by (cases rest) auto
    ultimately show ?thesis
      using Suc.IH [OF s'(3,5) zs', of "nx (get s') n"] s'(1,2) Suc.prems(5) \<open>x \<noteq> a\<close> Cons
      by simp
  qed
qed

lemma for_each_safe_gen:
  assumes a: "a \<in> H" and r: "rel (get s) H L" and Q: "Q k s L (L a)" and fuel: "k < fuel"
    and step: "\<And>k s L x rest ys. rel (get s) H L \<Longrightarrow> Q k s L (x # rest) \<Longrightarrow> L a = ys @ x # rest \<Longrightarrow>
      \<exists>k' s' L' ys' add. k' < k \<and> body x s = Some s' \<and> rel (get s') H L' \<and>
        L' a = ys' @ rest @ add \<and> Q k' s' L' (if rest = [] then [] else rest @ add)"
  shows "\<exists>k' s' L'. run_for_each_safe (\<lambda>s. nx (get s)) body fuel a s = Some s' \<and>
    rel (get s') H L' \<and> Q k' s' L' []"
proof -
  have pos: "nx (get s) a = hd (L a @ [a])"
    by (rule rel_first [OF r a])
  have "nx (get s) (nx (get s) a) = (case L a of [] \<Rightarrow> nx (get s) (nx (get s) a)
      | x # rest \<Rightarrow> hd (rest @ [a]))"
    using rel_next [OF r a, of "[]"] pos by (cases "L a") auto
  moreover have "L a = [] @ L a @ []"
    by simp
  ultimately show ?thesis
    unfolding pos run_for_each_safe_def
    using for_each_safe_gen_aux [of a H get Q body s L k "L a" "[]" "[]" fuel] a step r Q fuel
    by blast
qed

text \<open>
  The common case: the body adds nothing to the list it runs over, and runs once for each node
  that was in the list when the loop began.
\<close>

lemma for_each_safe_inv:
  assumes a: "a \<in> H" and r: "rel (get s) H L" and P: "P [] s L" and fuel: "length (L a) < fuel"
    and step: "\<And>s L' dn x rest ys. rel (get s) H L' \<Longrightarrow> P dn s L' \<Longrightarrow> L a = dn @ x # rest \<Longrightarrow>
      L' a = ys @ x # rest \<Longrightarrow>
      \<exists>s' L'' ys'. body x s = Some s' \<and> rel (get s') H L'' \<and> P (dn @ [x]) s' L'' \<and> L'' a = ys' @ rest"
  shows "\<exists>s' L'. run_for_each_safe (\<lambda>s. nx (get s)) body fuel a s = Some s' \<and>
    rel (get s') H L' \<and> P (L a) s' L'"
proof -
  let ?Q = "\<lambda>k s L' rest. \<exists>dn. L a = dn @ rest \<and> P dn s L' \<and> k = length rest"
  have Q0: "?Q (length (L a)) s L (L a)"
    using P by simp
  have step': "\<exists>k' s' L' ys' add. k' < k \<and> body x s = Some s' \<and> rel (get s') H L' \<and>
      L' a = ys' @ rest @ add \<and> ?Q k' s' L' (if rest = [] then [] else rest @ add)"
    if sx: "rel (get s) H L'" "?Q k s L' (x # rest)" "L' a = ys @ x # rest" for k s L' x rest ys
  proof -
    from sx(2) obtain dn where dn: "L a = dn @ x # rest" "P dn s L'" "k = Suc (length rest)"
      by auto
    obtain s' L'' ys' where s': "body x s = Some s'" "rel (get s') H L''" "P (dn @ [x]) s' L''"
      "L'' a = ys' @ rest"
      using step [OF sx(1) dn(2,1) sx(3)] by blast
    then show ?thesis
      using dn by (intro exI [of _ "length rest"] exI [of _ s'] exI [of _ L''] exI [of _ ys']
          exI [of _ "[]"]) auto
  qed
  have "\<exists>k' s' L'. run_for_each_safe (\<lambda>s. nx (get s)) body fuel a s = Some s' \<and>
    rel (get s') H L' \<and> ?Q k' s' L' []"
    by (rule for_each_safe_gen [where Q = ?Q and get = get and L = L and s = s and k = "length (L a)", OF a r Q0 fuel])
      (rule step')
  then show ?thesis
    by auto
qed

lemma for_each_safe_empty:
  "rel (get s) H L \<Longrightarrow> a \<in> H \<Longrightarrow> L a = [] \<Longrightarrow> 0 < fuel \<Longrightarrow>
   run_for_each_safe (\<lambda>s. nx (get s)) body fuel a s = Some s"
  using first_empty_iff [of "get s" H L a]
  by (cases fuel) (simp_all add: run_for_each_safe_def)

end

interpretation list_h: intrusive_lists lists_rel lnext list_add list_add_tail list_del
proof
  fix h :: "'a links" and H L a b n and xs ys :: "'a list" and x
  assume rel: "lists_rel h H L" and a: "a \<in> H"
  note d = lists_rel_dlist [OF rel a]
  show "distinct (a # L a)"
    using d by (simp add: dlist_def)
  show "set (a # L a) \<inter> set (b # L b) = {}" if "b \<in> H" "a \<noteq> b"
    by (rule lists_rel_disjoint [OF rel a that])
  show "lnext h a = hd (L a @ [a])"
    using dlist_first [OF d] by (simp split: list.splits)
  show "lnext h x = hd (ys @ [a])" if "L a = xs @ x # ys"
    using dlist_nextD [of h a xs x ys] d that by (simp split: list.splits)
  show "lists_rel (list_add n a h) H (L(a := n # L a))" if "unlinked H L n"
    by (rule lists_rel_list_add [OF rel a that])
  show "lists_rel (list_add_tail n a h) H (L(a := L a @ [n]))" if "unlinked H L n"
    by (rule lists_rel_list_add_tail [OF rel a that])
  show "lists_rel (list_del x h) H (L(a := xs @ ys))" if "L a = xs @ x # ys"
    by (rule lists_rel_list_del [OF rel a that])
qed

text \<open>
  Removing a node a second time is not harmless: its fields still point to its old neighbours.
  If another node was appended in between, the second removal drops that node from the list.
\<close>

lemma list_del_twice_drops:
  assumes "dlist h head [x]" "y \<notin> {head, x}"
  shows "dlist (list_del x (list_add_tail y head (list_del x h))) head []"
  using assms
  by (auto simp: dlist_def list_del_def list_del_raw_def list_add_tail_def list_add_raw_def)

end
