(* ===== verification/Simulation.thy ===== *)
theory Simulation
  imports Main "HOL-Library.Monad_Syntax"
begin

text \<open>
  Sequences of operations of a component against its specification. A component shows for one operation
  that the code follows the specification; the locales carry that over to every sequence, for operations
  with results and a specification that cannot fail, and for operations without results that the
  specification may refuse.
\<close>

section \<open>Operations with results\<close>

text \<open>Calls one after the other, in the code's model and in a specification that cannot fail.\<close>

primrec run_steps :: "('c \<Rightarrow> 'z \<Rightarrow> ('r \<times> 'z) option) \<Rightarrow> 'c list \<Rightarrow> 'z \<Rightarrow> ('r list \<times> 'z) option" where
  "run_steps step [] z = Some ([], z)"
| "run_steps step (c # cs) z =
     do { (r, z') \<leftarrow> step c z;
          (rs, z'') \<leftarrow> run_steps step cs z';
          Some (r # rs, z'') }"

primrec spec_steps :: "('c \<Rightarrow> 'a \<Rightarrow> 'r \<times> 'a) \<Rightarrow> 'c list \<Rightarrow> 'a \<Rightarrow> 'r list \<times> 'a" where
  "spec_steps spec [] a = ([], a)"
| "spec_steps spec (c # cs) a =
     (let (r, a') = spec c a; (rs, a'') = spec_steps spec cs a' in (r # rs, a''))"

primrec ready_steps :: "('c \<Rightarrow> 'a \<Rightarrow> bool) \<Rightarrow> ('c \<Rightarrow> 'a \<Rightarrow> 'r \<times> 'a) \<Rightarrow> 'c list \<Rightarrow> 'a \<Rightarrow> bool" where
  "ready_steps ready spec [] a = True"
| "ready_steps ready spec (c # cs) a = (ready c a \<and> ready_steps ready spec cs (snd (spec c a)))"

locale simulated =
  fixes step :: "'c \<Rightarrow> 'z \<Rightarrow> ('r \<times> 'z) option"
    and spec :: "'c \<Rightarrow> 'a \<Rightarrow> 'r \<times> 'a"
    and ready :: "'c \<Rightarrow> 'a \<Rightarrow> bool"
    and rel :: "'z \<Rightarrow> 'a \<Rightarrow> bool"
  assumes step_simulates: "rel z a \<Longrightarrow> ready c a \<Longrightarrow> \<exists>z'. step c z = Some (fst (spec c a), z') \<and> rel z' (snd (spec c a))"
begin

lemma steps_simulate:
  "rel z a \<Longrightarrow> ready_steps ready spec cs a \<Longrightarrow>
   \<exists>z'. run_steps step cs z = Some (fst (spec_steps spec cs a), z') \<and> rel z' (snd (spec_steps spec cs a))"
proof (induction cs arbitrary: z a)
  case (Cons c cs)
  obtain z1 where z1: "step c z = Some (fst (spec c a), z1)" "rel z1 (snd (spec c a))"
    using step_simulates [OF Cons.prems(1), of c] Cons.prems(2) by auto
  obtain z2 where "run_steps step cs z1 = Some (fst (spec_steps spec cs (snd (spec c a))), z2)"
    "rel z2 (snd (spec_steps spec cs (snd (spec c a))))"
    using Cons.IH [OF z1(2)] Cons.prems(2) by auto
  then show ?case
    using z1 by (simp add: case_prod_unfold Let_def)
qed simp

end

section \<open>Operations that only change the state\<close>

primrec run_all :: "('c \<Rightarrow> 'z \<Rightarrow> 'z option) \<Rightarrow> 'c list \<Rightarrow> 'z \<Rightarrow> 'z option" where
  "run_all step [] z = Some z"
| "run_all step (c # cs) z = do { z' \<leftarrow> step c z; run_all step cs z' }"

lemma run_all_total: "run_all (\<lambda>c z. Some (f c z)) cs z = Some (fold f cs z)"
  by (induction cs arbitrary: z) simp_all

locale follows =
  fixes step :: "'c \<Rightarrow> 'z \<Rightarrow> 'z option"
    and spec :: "'c \<Rightarrow> 'a \<Rightarrow> 'a option"
    and rel :: "'z \<Rightarrow> 'a \<Rightarrow> bool"
  assumes step_follows: "rel z a \<Longrightarrow> spec c a = Some a' \<Longrightarrow> \<exists>z'. step c z = Some z' \<and> rel z' a'"
begin

lemma all_follow:
  "rel z a \<Longrightarrow> run_all spec cs a = Some a' \<Longrightarrow> \<exists>z'. run_all step cs z = Some z' \<and> rel z' a'"
proof (induction cs arbitrary: z a)
  case (Cons c cs)
  then obtain a1 where a1: "spec c a = Some a1" "run_all spec cs a1 = Some a'"
    by (auto simp: bind_eq_Some_conv)
  from step_follows [OF Cons.prems(1) a1(1)] obtain z1 where "step c z = Some z1" "rel z1 a1"
    by blast
  then show ?case
    using Cons.IH [OF _ a1(2)] by simp
qed simp

end

end
