(* ===== verification/List_Ops.thy ===== *)
theory List_Ops
  imports List_Head Simulation
begin

text \<open>
  Sequences of list operations on a store of disjoint lists, against plain lists; and the
  properties of \<open>list.h\<close>.
\<close>

datatype 'a list_op =
    Push 'a 'a          \<comment> \<open>\<open>list_add(n, head)\<close>\<close>
  | Push_tail 'a 'a
  | Unlink 'a
  | Move 'a 'a
  | Move_tail 'a 'a

fun run_list_op :: "'a list_op \<Rightarrow> 'a links \<Rightarrow> 'a links" where
  "run_list_op (Push n a) h = list_add n a h"
| "run_list_op (Push_tail n a) h = list_add_tail n a h"
| "run_list_op (Unlink x) h = list_del x h"
| "run_list_op (Move x a) h = list_move x a h"
| "run_list_op (Move_tail x a) h = list_move_tail x a h"

definition without :: "'a \<Rightarrow> ('a \<Rightarrow> 'a list) \<Rightarrow> 'a \<Rightarrow> 'a list" where
  "without x L = (\<lambda>a. remove1 x (L a))"

definition linked :: "'a set \<Rightarrow> ('a \<Rightarrow> 'a list) \<Rightarrow> 'a \<Rightarrow> bool" where
  "linked H L x \<longleftrightarrow> (\<exists>a\<in>H. x \<in> set (L a))"

text \<open>The operation on plain lists, undefined when the header's conditions on its use fail.\<close>

fun spec_list_op :: "'a set \<Rightarrow> 'a list_op \<Rightarrow> ('a \<Rightarrow> 'a list) \<Rightarrow> ('a \<Rightarrow> 'a list) option" where
  "spec_list_op H (Push n a) L =
     (if a \<in> H \<and> unlinked H L n then Some (L(a := n # L a)) else None)"
| "spec_list_op H (Push_tail n a) L =
     (if a \<in> H \<and> unlinked H L n then Some (L(a := L a @ [n])) else None)"
| "spec_list_op H (Unlink x) L = (if linked H L x then Some (without x L) else None)"
| "spec_list_op H (Move x a) L =
     (if a \<in> H \<and> linked H L x then Some ((without x L)(a := x # without x L a)) else None)"
| "spec_list_op H (Move_tail x a) L =
     (if a \<in> H \<and> linked H L x then Some ((without x L)(a := without x L a @ [x])) else None)"

lemma lists_rel_cong: "lists_rel h H L \<Longrightarrow> (\<And>a. a \<in> H \<Longrightarrow> L' a = L a) \<Longrightarrow> lists_rel h H L'"
  by (simp add: lists_rel_def)

lemma unlinked_cong: "(\<And>a. a \<in> H \<Longrightarrow> L' a = L a) \<Longrightarrow> unlinked H L' n = unlinked H L n"
  by (simp add: unlinked_def)

text \<open>Unlinking a node, wherever it is linked.\<close>

lemma unlink_anywhere:
  assumes rel: "lists_rel h H L" and x: "linked H L x"
  shows "lists_rel (list_del x h) H (without x L)" "unlinked H (without x L) x"
proof -
  obtain a where a: "a \<in> H" "x \<in> set (L a)"
    using x by (auto simp: linked_def)
  have "distinct (L a)"
    using list_h.rel_distinct [OF rel a(1)] by simp
  then obtain xs ys where L: "L a = xs @ x # ys" "remove1 x (L a) = xs @ ys"
    using distinct_remove1_mid [OF _ a(2)] by blast
  have eq: "without x L b = (L(a := xs @ ys)) b" if b: "b \<in> H" for b
  proof (cases "b = a")
    case False
    then have "x \<notin> set (L b)"
      using lists_rel_disjoint [OF rel a(1) b] a(2) by auto
    then show ?thesis
      using False by (simp add: without_def remove1_idem)
  qed (simp add: without_def L(2))
  show "lists_rel (list_del x h) H (without x L)"
    using list_h.rel_unlink [OF rel a(1) L(1)] eq by (rule lists_rel_cong)
  show "unlinked H (without x L) x"
    using list_h.unlinked_after_unlink [OF rel a(1) L(1)] unlinked_cong [of H "without x L" "L(a := xs @ ys)" x, OF eq] by blast
qed

lemma run_list_op_refines:
  assumes rel: "lists_rel h H L" and spec: "spec_list_op H c L = Some L'"
  shows "lists_rel (run_list_op c h) H L'"
proof (cases c)
  case (Push n a)
  then show ?thesis
    using rel spec by (auto split: if_splits intro: list_h.rel_push)
next
  case (Push_tail n a)
  then show ?thesis
    using rel spec by (auto split: if_splits intro: list_h.rel_push_tail)
next
  case (Unlink x)
  then show ?thesis
    using unlink_anywhere [OF rel] spec by (auto split: if_splits)
next
  case (Move x a)
  then have "a \<in> H" "linked H L x" and L': "L' = (without x L)(a := x # without x L a)"
    using spec by (auto split: if_splits)
  from list_h.rel_push [OF unlink_anywhere(1) [OF rel this(2)] this(1) unlink_anywhere(2) [OF rel this(2)]]
  show ?thesis
    using Move L' by (simp add: list_move_def)
next
  case (Move_tail x a)
  then have "a \<in> H" "linked H L x" and L': "L' = (without x L)(a := without x L a @ [x])"
    using spec by (auto split: if_splits)
  from list_h.rel_push_tail [OF unlink_anywhere(1) [OF rel this(2)] this(1) unlink_anywhere(2) [OF rel this(2)]]
  show ?thesis
    using Move_tail L' by (simp add: list_move_tail_def)
qed

interpretation list_run: follows "\<lambda>c h. Some (run_list_op c h)" "spec_list_op H" "\<lambda>h. lists_rel h H" for H
  by unfold_locales (simp add: run_list_op_refines)

section \<open>Properties\<close>

text \<open>C9: any sequence of insertions at either end, removals and moves, on any number of lists that
  share a store of nodes, has exactly the effect it has on plain lists, as long as only unlinked
  nodes are inserted and only linked ones removed or moved.\<close>

theorem list_ops_refine:
  assumes "lists_rel h H L" "run_all (spec_list_op H) cs L = Some L'"
  shows "lists_rel (fold run_list_op cs h) H L'"
  using list_run.all_follow [OF assms] by (simp add: run_all_total)

lemma list_ops_refine_witness:
  "lists_rel (fold run_list_op [Push_tail 3 0, Push 4 0, Move_tail 4 1]
      \<lparr>lnext = \<lambda>a::nat. a, lprev = \<lambda>a. a\<rparr>) {0, 1} ((\<lambda>_. [])(0 := [3], 1 := [4]))"
proof -
  have "lists_rel \<lparr>lnext = \<lambda>a::nat. a, lprev = \<lambda>a. a\<rparr> {0, 1} (\<lambda>_. [])"
    by (auto simp: lists_rel_def dlist_def)
  note rel = list_ops_refine [OF this, of "[Push_tail 3 0, Push 4 0, Move_tail 4 1]"]
  have "\<exists>L'. run_all (spec_list_op {0, 1}) [Push_tail 3 0, Push 4 0, Move_tail 4 1] (\<lambda>_::nat. []) = Some L' \<and>
      L' 0 = [3] \<and> L' 1 = [4]"
    by (simp add: unlinked_def linked_def without_def)
  then obtain L' where L': "run_all (spec_list_op {0, 1}) [Push_tail 3 0, Push 4 0, Move_tail 4 1] (\<lambda>_::nat. []) = Some L'"
    "L' 0 = [3]" "L' 1 = [4]"
    by blast
  show ?thesis
    by (rule lists_rel_cong [OF rel [OF L'(1)]]) (use L'(2,3) in auto)
qed

text \<open>Cutting a list at one of its entries moves exactly the part up to it to the new list, and
  splicing that back at the front restores the original.\<close>

theorem list_cut_splice:
  assumes "dlist h head (xs @ e # ys)" "l \<notin> set (head # xs @ e # ys)"
  shows "dlist (list_cut_position l head e h) l (xs @ [e]) \<and>
    dlist (list_cut_position l head e h) head ys \<and>
    dlist (list_splice l head (list_cut_position l head e h)) head (xs @ e # ys)"
proof -
  note cut = dlist_list_cut_position [OF assms]
  have "set (l # xs @ [e]) \<inter> set (head # ys) = {}"
    using assms by (auto simp: dlist_def)
  from dlist_list_splice [OF cut this] cut show ?thesis
    by simp
qed

lemma list_cut_splice_witness:
  "dlist (list_splice 9 0 (list_cut_position 9 0 1 (list_add_tail 2 0 (list_add 1 0
      (list_init 0 \<lparr>lnext = \<lambda>a::nat. a, lprev = \<lambda>a. a\<rparr>))))) 0 [1, 2]"
proof -
  have "dlist (list_add_tail 2 0 (list_add 1 0
      (list_init 0 \<lparr>lnext = \<lambda>a::nat. a, lprev = \<lambda>a. a\<rparr>))) 0 ([] @ 1 # [2])"
    by (simp add: dlist_def list_add_def list_add_raw_def list_add_tail_def list_init_def)
  from list_cut_splice [OF this, of 9] show ?thesis
    by simp
qed

text \<open>The two iteration macros visit the entries of a list once each, in order and in reverse
  order, and end after one round per entry.\<close>

theorem list_for_each_visits:
  assumes "dlist h head xs" "length xs < fuel"
  shows "list_for_each fuel (lnext h head) head h = Some xs \<and>
    list_for_each_prev fuel (lprev h head) head h = Some (rev xs)"
  using list_for_each_dlist [OF assms] list_for_each_prev_dlist [OF assms] by simp

lemma list_for_each_visits_witness:
  "list_for_each 2 1 0 (list_add 1 0 (list_init 0 \<lparr>lnext = \<lambda>a::nat. a, lprev = \<lambda>a. a\<rparr>)) = Some [1]"
proof -
  have "dlist (list_add 1 0 (list_init 0 \<lparr>lnext = \<lambda>a::nat. a, lprev = \<lambda>a. a\<rparr>)) 0 [1]"
    by (simp add: dlist_def list_add_def list_add_raw_def list_init_def)
  from list_for_each_visits [OF this, of 2] show ?thesis
    by (simp add: list_add_def list_add_raw_def list_init_def)
qed

text \<open>Removing an entry a second time, when another was appended in between, drops that other
  entry from the list: \<open>list_del\<close> leaves the removed entry pointing at its old neighbours.\<close>

theorem list_del_twice:
  assumes "dlist h head [x]" "y \<notin> {head, x}"
  shows "dlist (list_add_tail y head (list_del x h)) head [y] \<and>
    dlist (list_del x (list_add_tail y head (list_del x h))) head []"
proof
  have "dlist (list_del x h) head ([] @ [])"
    by (rule dlist_list_del) (simp add: assms(1))
  then show "dlist (list_add_tail y head (list_del x h)) head [y]"
    using dlist_list_add_tail [of "list_del x h" head "[]" y] assms(2) by simp
  show "dlist (list_del x (list_add_tail y head (list_del x h))) head []"
    by (rule list_del_twice_drops [OF assms])
qed

lemma list_del_twice_witness:
  "dlist (list_del 1 (list_add_tail 2 0 (list_del 1 (list_add 1 0
      (list_init 0 \<lparr>lnext = \<lambda>a::nat. a, lprev = \<lambda>a. a\<rparr>))))) 0 []"
proof -
  have "dlist (list_add 1 0 (list_init 0 \<lparr>lnext = \<lambda>a::nat. a, lprev = \<lambda>a. a\<rparr>)) 0 [1]"
    by (simp add: dlist_def list_add_def list_add_raw_def list_init_def)
  from list_del_twice [OF this, of 2] show ?thesis
    by simp
qed

end
