(* ===== verification/H_List.thy ===== *)
theory H_List
  imports UC_Prelude Simulation "HOL-Library.Monad_Syntax"
begin

text \<open>
  \<^verbatim>\<open>include/list.h\<close>, second part: the lists with a single-pointer head (\<^verbatim>\<open>struct hlist_head\<close>). The back
  pointer \<^verbatim>\<open>pprev\<close> of a node is the address of the field that points to it, the head's \<^verbatim>\<open>first\<close> or another
  node's \<^verbatim>\<open>next\<close>; the store maps these fields, the cells, to what they hold. \<open>None\<close> as a result is a null
  pointer followed.
\<close>

section \<open>The store\<close>

datatype 'a hcell = HFirst 'a | HNext 'a

record 'a hlinks =
  cell :: "'a hcell \<Rightarrow> 'a option"
  pprev :: "'a \<Rightarrow> 'a hcell option"

definition set_cell :: "'a hcell \<Rightarrow> 'a option \<Rightarrow> 'a hlinks \<Rightarrow> 'a hlinks" where
  "set_cell c v s = s\<lparr>cell := (cell s)(c := v)\<rparr>"

definition set_pprev :: "'a \<Rightarrow> 'a hcell option \<Rightarrow> 'a hlinks \<Rightarrow> 'a hlinks" where
  "set_pprev n p s = s\<lparr>pprev := (pprev s)(n := p)\<rparr>"

lemma set_cell_simps [simp]:
  "cell (set_cell c v s) = (cell s)(c := v)" "pprev (set_cell c v s) = pprev s"
  by (simp_all add: set_cell_def)

lemma set_pprev_simps [simp]:
  "pprev (set_pprev n p s) = (pprev s)(n := p)" "cell (set_pprev n p s) = cell s"
  by (simp_all add: set_pprev_def)

section \<open>The operations\<close>

definition INIT_HLIST_HEAD :: "'a \<Rightarrow> 'a hlinks \<Rightarrow> 'a hlinks" where
  "INIT_HLIST_HEAD h s = set_cell (HFirst h) None s"

definition hlist_init :: "'a \<Rightarrow> 'a hlinks \<Rightarrow> 'a hlinks" where
  "hlist_init h s = set_pprev h None (set_cell (HNext h) None s)"

definition hlist_unhashed :: "'a \<Rightarrow> 'a hlinks \<Rightarrow> bool" where
  "hlist_unhashed h s \<longleftrightarrow> pprev s h = None"

definition hlist_empty :: "'a \<Rightarrow> 'a hlinks \<Rightarrow> bool" where
  "hlist_empty h s \<longleftrightarrow> cell s (HFirst h) = None"

text \<open>\<^verbatim>\<open>__hlist_del\<close>; the node's own fields stay as they are.\<close>

definition hlist_del_raw :: "'a \<Rightarrow> 'a hlinks \<Rightarrow> 'a hlinks option" where
  "hlist_del_raw n s =
     (let nxt = cell s (HNext n) in
      case pprev s n of
        None \<Rightarrow> None
      | Some p \<Rightarrow>
          Some (let s1 = set_cell p nxt s in
                case nxt of None \<Rightarrow> s1 | Some x \<Rightarrow> set_pprev x (Some p) s1))"

definition hlist_del :: "'a \<Rightarrow> 'a hlinks \<Rightarrow> 'a hlinks option" where
  "hlist_del n s = hlist_del_raw n s"

definition hlist_del_init :: "'a \<Rightarrow> 'a hlinks \<Rightarrow> 'a hlinks option" where
  "hlist_del_init n s =
     (if \<not> hlist_unhashed n s then map_option (hlist_init n) (hlist_del_raw n s) else Some s)"

definition hlist_add_head :: "'a \<Rightarrow> 'a \<Rightarrow> 'a hlinks \<Rightarrow> 'a hlinks" where
  "hlist_add_head n h s =
     (let fst_node = cell s (HFirst h);
          s1 = set_cell (HNext n) fst_node s;
          s2 = (case fst_node of None \<Rightarrow> s1 | Some f \<Rightarrow> set_pprev f (Some (HNext n)) s1);
          s3 = set_cell (HFirst h) (Some n) s2
      in set_pprev n (Some (HFirst h)) s3)"

text \<open>\<open>n\<close> is put before \<open>nxt\<close>.\<close>

definition hlist_add_before :: "'a \<Rightarrow> 'a \<Rightarrow> 'a hlinks \<Rightarrow> 'a hlinks option" where
  "hlist_add_before n nxt s =
     (let s1 = set_pprev n (pprev s nxt) s;
          s2 = set_cell (HNext n) (Some nxt) s1;
          s3 = set_pprev nxt (Some (HNext n)) s2
      in case pprev s3 n of None \<Rightarrow> None | Some p \<Rightarrow> Some (set_cell p (Some n) s3))"

text \<open>\<open>nxt\<close> is put after \<open>n\<close>.\<close>

definition hlist_add_after :: "'a \<Rightarrow> 'a \<Rightarrow> 'a hlinks \<Rightarrow> 'a hlinks" where
  "hlist_add_after n nxt s =
     (let s1 = set_cell (HNext nxt) (cell s (HNext n)) s;
          s2 = set_cell (HNext n) (Some nxt) s1;
          s3 = set_pprev nxt (Some (HNext n)) s2
      in case cell s3 (HNext nxt) of None \<Rightarrow> s3 | Some y \<Rightarrow> set_pprev y (Some (HNext nxt)) s3)"

definition hlist_add_fake :: "'a \<Rightarrow> 'a hlinks \<Rightarrow> 'a hlinks" where
  "hlist_add_fake n s = set_pprev n (Some (HNext n)) s"

definition hlist_move_list :: "'a \<Rightarrow> 'a \<Rightarrow> 'a hlinks \<Rightarrow> 'a hlinks" where
  "hlist_move_list old n s =
     (let s1 = set_cell (HFirst n) (cell s (HFirst old)) s;
          s2 = (case cell s1 (HFirst n) of None \<Rightarrow> s1 | Some f \<Rightarrow> set_pprev f (Some (HFirst n)) s1)
      in set_cell (HFirst old) None s2)"

text \<open>
  The iteration macros: the nodes visited, and with the successor read first the store after a body
  that changes it.
\<close>

partial_function (option) hlist_visit :: "'a hlinks \<Rightarrow> 'a option \<Rightarrow> 'a list option" where
  "hlist_visit s p =
     (case p of
        None \<Rightarrow> Some []
      | Some x \<Rightarrow> do { xs \<leftarrow> hlist_visit s (cell s (HNext x)); Some (x # xs) })"

definition hlist_for_each :: "'a \<Rightarrow> 'a hlinks \<Rightarrow> 'a list option" where
  "hlist_for_each h s = hlist_visit s (cell s (HFirst h))"

partial_function (option) hlist_visit_safe ::
  "('a \<Rightarrow> 'a hlinks \<Rightarrow> 'a hlinks option) \<Rightarrow> 'a option \<Rightarrow> 'a hlinks \<Rightarrow> 'a hlinks option" where
  "hlist_visit_safe body p s =
     (case p of
        None \<Rightarrow> Some s
      | Some x \<Rightarrow> (let n = cell s (HNext x) in do { s' \<leftarrow> body x s; hlist_visit_safe body n s' }))"

definition hlist_for_each_safe ::
  "('a \<Rightarrow> 'a hlinks \<Rightarrow> 'a hlinks option) \<Rightarrow> 'a \<Rightarrow> 'a hlinks \<Rightarrow> 'a hlinks option" where
  "hlist_for_each_safe body h s = hlist_visit_safe body (cell s (HFirst h)) s"

section \<open>Lists\<close>

text \<open>The nodes that follow from a cell, with their back pointers, and the cell they end at.\<close>

fun hseg :: "'a hlinks \<Rightarrow> 'a hcell \<Rightarrow> 'a list \<Rightarrow> bool" where
  "hseg s c [] = True"
| "hseg s c (x # xs) = (cell s c = Some x \<and> pprev s x = Some c \<and> hseg s (HNext x) xs)"

definition end_cell :: "'a hcell \<Rightarrow> 'a list \<Rightarrow> 'a hcell" where
  "end_cell c xs = (if xs = [] then c else HNext (last xs))"

lemma end_cell_simps [simp]:
  "end_cell c [] = c" "end_cell c (xs @ [x]) = HNext x" "end_cell c (xs @ y # ys) = end_cell (HNext y) ys"
  "end_cell c (y # ys) = end_cell (HNext y) ys"
  by (auto simp: end_cell_def)

definition hlist :: "'a hlinks \<Rightarrow> 'a \<Rightarrow> 'a list \<Rightarrow> bool" where
  "hlist s h xs \<longleftrightarrow> hseg s (HFirst h) xs \<and> cell s (end_cell (HFirst h) xs) = None \<and> distinct xs"

lemma hseg_append: "hseg s c (xs @ ys) \<longleftrightarrow> hseg s c xs \<and> hseg s (end_cell c xs) ys"
  by (induction xs arbitrary: c) auto

lemma hseg_cong:
  assumes "hseg s c xs" "xs \<noteq> [] \<Longrightarrow> cell s' c = cell s c" "\<And>x. x \<in> set (butlast xs) \<Longrightarrow> cell s' (HNext x) = cell s (HNext x)"
    "\<And>x. x \<in> set xs \<Longrightarrow> pprev s' x = pprev s x"
  shows "hseg s' c xs"
  using assms
proof (induction xs arbitrary: c)
  case (Cons x xs)
  have "hseg s' (HNext x) xs"
  proof (rule Cons.IH)
    show "cell s' (HNext x) = cell s (HNext x)" if "xs \<noteq> []"
      using Cons.prems(3) [of x] that by simp
    show "cell s' (HNext y) = cell s (HNext y)" if "y \<in> set (butlast xs)" for y
      using Cons.prems(3) [of y] that by (cases xs) simp_all
  qed (use Cons.prems in simp_all)
  then show ?case
    using Cons.prems by simp
qed simp

lemma hlist_cong:
  assumes "hlist s h xs" "cell s' (HFirst h) = cell s (HFirst h)" "\<And>x. x \<in> set xs \<Longrightarrow> cell s' (HNext x) = cell s (HNext x)"
    "\<And>x. x \<in> set xs \<Longrightarrow> pprev s' x = pprev s x"
  shows "hlist s' h xs"
  using assms hseg_cong [of s "HFirst h" xs s'] by (auto simp: hlist_def end_cell_def dest: in_set_butlastD)

lemma hlist_cell:
  assumes "hlist s h (xs @ ys)"
  shows "cell s (end_cell (HFirst h) xs) = (case ys of [] \<Rightarrow> None | y # _ \<Rightarrow> Some y)"
  using assms by (cases ys) (simp_all add: hlist_def hseg_append)

text \<open>The cell before a position is the head's or that of a node before it.\<close>

lemma end_cell_next: "end_cell (HFirst h) xs = HNext u \<Longrightarrow> u \<in> set xs"
  by (cases xs rule: rev_cases) auto

section \<open>Insertion\<close>

text \<open>All three insertions put the node into the cell before its position.\<close>

definition put_in :: "'a \<Rightarrow> 'a hcell \<Rightarrow> 'a hlinks \<Rightarrow> 'a hlinks" where
  "put_in n c s = s\<lparr>cell := (cell s)(HNext n := cell s c, c := Some n),
     pprev := (case cell s c of None \<Rightarrow> pprev s | Some y \<Rightarrow> (pprev s)(y := Some (HNext n)))(n := Some c)\<rparr>"

lemma add_head_put_in:
  assumes "cell s (HFirst h) \<noteq> Some n"
  shows "hlist_add_head n h s = put_in n (HFirst h) s"
  using assms
  by (cases "cell s (HFirst h)")
    (auto simp: hlist_add_head_def put_in_def set_cell_def set_pprev_def Let_def fun_upd_twist)

lemma add_before_put_in:
  assumes "pprev s x = Some c" "cell s c = Some x" "x \<noteq> n" "c \<noteq> HNext n"
  shows "hlist_add_before n x s = Some (put_in n c s)"
  using assms
  by (auto simp: hlist_add_before_def put_in_def set_cell_def set_pprev_def Let_def fun_upd_twist)

lemma add_after_put_in:
  assumes "x \<noteq> n" "cell s (HNext x) \<noteq> Some n"
  shows "hlist_add_after x n s = put_in n (HNext x) s"
  using assms
  by (cases "cell s (HNext x)")
    (auto simp: hlist_add_after_def put_in_def set_cell_def set_pprev_def Let_def fun_upd_twist)

lemma put_in_hlist:
  assumes list: "hlist s h (xs @ ys)" and new: "n \<notin> set (xs @ ys)" and c: "c = end_cell (HFirst h) xs"
  shows "hlist (put_in n c s) h (xs @ n # ys)"
proof -
  let ?s = "put_in n c s"
  have old: "hseg s (HFirst h) xs" "hseg s c ys" "cell s c = (case ys of [] \<Rightarrow> None | y # _ \<Rightarrow> Some y)" "distinct (xs @ ys)"
    using list hlist_cell [OF list] by (simp_all add: hlist_def hseg_append c)
  have c_next: "c = HNext u \<longleftrightarrow> xs \<noteq> [] \<and> last xs = u" for u
    by (simp add: c end_cell_def)
  have ppr: "pprev ?s x = pprev s x" if "x \<in> set xs" for x
    using that new old(3,4) by (cases ys) (auto simp: put_in_def)
  have "hseg ?s (HFirst h) xs"
  proof (rule hseg_cong [OF old(1) _ _ ppr])
    show "cell ?s (HFirst h) = cell s (HFirst h)" if "xs \<noteq> []"
      using that by (simp add: put_in_def c end_cell_def)
    show "cell ?s (HNext x) = cell s (HNext x)" if "x \<in> set (butlast xs)" for x
    proof -
      have "x \<noteq> last xs" "x \<noteq> n"
        using that old(4) new in_set_butlastD [OF that] by (cases xs rule: rev_cases; auto)+
      then show ?thesis
        using c_next by (auto simp: put_in_def)
    qed
  qed
  moreover have rest: "cell ?s (HNext x) = cell s (HNext x)" if "x \<in> set ys" for x
    using that new old(4) end_cell_next [of h xs x] by (auto simp: put_in_def c)
  moreover have "hseg ?s (HNext n) ys"
  proof (cases ys)
    case (Cons y ys')
    have "hseg ?s (HNext y) ys'"
    proof (rule hseg_cong)
      show "hseg s (HNext y) ys'"
        using old(2) Cons by simp
      show "cell ?s (HNext y) = cell s (HNext y)"
        using rest Cons by simp
      show "cell ?s (HNext x) = cell s (HNext x)" if "x \<in> set (butlast ys')" for x
        using rest in_set_butlastD [OF that] Cons by simp
      show "pprev ?s x = pprev s x" if "x \<in> set ys'" for x
        using that new old(3,4) Cons by (auto simp: put_in_def)
    qed
    then show ?thesis
      using old(3) Cons new c_next [of n] last_in_set [of xs] by (auto simp: put_in_def)
  qed simp
  moreover have "cell ?s c = Some n" "pprev ?s n = Some c"
    by (simp_all add: put_in_def)
  moreover have "cell ?s (end_cell (HNext n) ys) = None"
  proof (cases "ys = []")
    case True
    then show ?thesis
      using old(3) c_next [of n] new last_in_set [of xs] by (auto simp: put_in_def)
  next
    case False
    then have "cell s (HNext (last ys)) = None"
      using list by (simp add: hlist_def end_cell_def)
    then show ?thesis
      using False rest [of "last ys"] by (simp add: end_cell_def)
  qed
  ultimately show ?thesis
    using old(4) new by (simp add: hlist_def hseg_append c)
qed

text \<open>Another list keeps its cells.\<close>

lemma put_in_frame:
  assumes list: "hlist s h (xs @ ys)" and c: "c = end_cell (HFirst h) xs" and other: "hlist s b zs" "b \<noteq> h"
    and apart: "set zs \<inter> set (xs @ ys) = {}" "n \<notin> set zs"
  shows "hlist (put_in n c s) b zs"
proof (rule hlist_cong [OF other(1)])
  have c': "c \<noteq> HFirst b" "c \<noteq> HNext x" if "x \<in> set zs" for x
    using that other(2) apart(1) last_in_set [of xs] by (auto simp: c end_cell_def)
  show "cell (put_in n c s) (HFirst b) = cell s (HFirst b)"
    using other(2) by (auto simp: put_in_def c end_cell_def)
  show "cell (put_in n c s) (HNext x) = cell s (HNext x)" if "x \<in> set zs" for x
    using that c'(2) [OF that] apart(2) by (auto simp: put_in_def)
  show "pprev (put_in n c s) x = pprev s x" if "x \<in> set zs" for x
    using that apart hlist_cell [OF list] by (cases ys) (auto simp: put_in_def c)
qed

section \<open>Removal\<close>

definition cut_out :: "'a \<Rightarrow> 'a hcell \<Rightarrow> 'a hlinks \<Rightarrow> 'a hlinks" where
  "cut_out x c s = s\<lparr>cell := (cell s)(c := cell s (HNext x)),
     pprev := (case cell s (HNext x) of None \<Rightarrow> pprev s | Some y \<Rightarrow> (pprev s)(y := Some c))\<rparr>"

lemma del_raw_cut_out: "pprev s x = Some c \<Longrightarrow> hlist_del_raw x s = Some (cut_out x c s)"
  by (cases "cell s (HNext x)") (simp_all add: hlist_del_raw_def cut_out_def set_cell_def set_pprev_def Let_def)

lemma hlist_pprev: "hlist s h (xs @ x # ys) \<Longrightarrow> pprev s x = Some (end_cell (HFirst h) xs)"
  by (simp add: hlist_def hseg_append)

lemma hlist_next: "hlist s h (xs @ x # ys) \<Longrightarrow> cell s (HNext x) = (case ys of [] \<Rightarrow> None | y # _ \<Rightarrow> Some y)"
  using hlist_cell [of s h "xs @ [x]" ys] by simp

lemma cut_out_hlist:
  assumes list: "hlist s h (xs @ x # ys)" and c: "c = end_cell (HFirst h) xs"
  shows "hlist (cut_out x c s) h (xs @ ys)"
proof -
  let ?s = "cut_out x c s"
  have old: "hseg s (HFirst h) xs" "hseg s (HNext x) ys" "distinct (xs @ x # ys)"
    and nxt: "cell s (HNext x) = (case ys of [] \<Rightarrow> None | y # _ \<Rightarrow> Some y)"
    using list hlist_next [OF list] by (simp_all add: hlist_def hseg_append)
  have c_next: "c = HNext u \<longleftrightarrow> xs \<noteq> [] \<and> last xs = u" for u
    by (simp add: c end_cell_def)
  have "hseg ?s (HFirst h) xs"
  proof (rule hseg_cong [OF old(1)])
    show "cell ?s (HFirst h) = cell s (HFirst h)" if "xs \<noteq> []"
      using that by (simp add: cut_out_def c end_cell_def)
    show "cell ?s (HNext u) = cell s (HNext u)" if "u \<in> set (butlast xs)" for u
    proof -
      have "u \<noteq> last xs"
        using that old(3) by (cases xs rule: rev_cases) auto
      then show ?thesis
        using c_next by (auto simp: cut_out_def)
    qed
    show "pprev ?s u = pprev s u" if "u \<in> set xs" for u
      using that old(3) nxt by (cases ys) (auto simp: cut_out_def)
  qed
  moreover have rest: "cell ?s (HNext u) = cell s (HNext u)" if "u \<in> set ys" for u
    using that old(3) end_cell_next [of h xs u] by (auto simp: cut_out_def c)
  moreover have "hseg ?s c ys"
  proof (cases ys)
    case (Cons y ys')
    have "hseg ?s (HNext y) ys'"
    proof (rule hseg_cong)
      show "hseg s (HNext y) ys'"
        using old(2) Cons by simp
      show "cell ?s (HNext y) = cell s (HNext y)"
        using rest Cons by simp
      show "cell ?s (HNext u) = cell s (HNext u)" if "u \<in> set (butlast ys')" for u
        using rest in_set_butlastD [OF that] Cons by simp
      show "pprev ?s u = pprev s u" if "u \<in> set ys'" for u
        using that old(3) nxt Cons by (auto simp: cut_out_def)
    qed
    then show ?thesis
      using nxt Cons by (simp add: cut_out_def)
  qed simp
  moreover have "cell ?s (end_cell c ys) = None"
  proof (cases "ys = []")
    case True
    then show ?thesis
      using nxt by (simp add: cut_out_def)
  next
    case False
    then have "cell s (HNext (last ys)) = None"
      using list by (simp add: hlist_def end_cell_def)
    then show ?thesis
      using False rest [of "last ys"] by (simp add: end_cell_def)
  qed
  moreover have "end_cell (HFirst h) (xs @ ys) = end_cell c ys"
    by (simp add: c end_cell_def)
  ultimately show ?thesis
    using old(3) by (simp add: hlist_def hseg_append c)
qed

lemma cut_out_frame:
  assumes list: "hlist s h (xs @ x # ys)" and c: "c = end_cell (HFirst h) xs" and other: "hlist s b zs" "b \<noteq> h"
    and apart: "set zs \<inter> set (xs @ x # ys) = {}"
  shows "hlist (cut_out x c s) b zs"
proof (rule hlist_cong [OF other(1)])
  show "cell (cut_out x c s) (HFirst b) = cell s (HFirst b)"
    using other(2) by (auto simp: cut_out_def c end_cell_def)
  show "cell (cut_out x c s) (HNext u) = cell s (HNext u)" if "u \<in> set zs" for u
    using that apart last_in_set [of xs] by (auto simp: cut_out_def c end_cell_def)
  show "pprev (cut_out x c s) u = pprev s u" if "u \<in> set zs" for u
    using that apart hlist_next [OF list] by (cases ys) (auto simp: cut_out_def)
qed

section \<open>Moving, walking\<close>

lemma move_list_hlist:
  assumes list: "hlist s old xs" and n: "n \<noteq> old"
  shows "hlist (hlist_move_list old n s) n xs" "hlist (hlist_move_list old n s) old []"
proof -
  let ?s = "hlist_move_list old n s"
  have first: "cell s (HFirst old) = (case xs of [] \<Rightarrow> None | x # _ \<Rightarrow> Some x)"
    using hlist_cell [of s old "[]" xs] list by simp
  have cells: "cell ?s = (cell s)(HFirst n := cell s (HFirst old), HFirst old := None)"
    by (auto simp: hlist_move_list_def Let_def split: option.split)
  then show "hlist ?s old []"
    by (simp add: hlist_def)
  show "hlist ?s n xs"
  proof (cases xs)
    case Nil
    then show ?thesis
      using first cells n by (simp add: hlist_def)
  next
    case (Cons x xs')
    then have ppr: "pprev ?s = (pprev s)(x := Some (HFirst n))"
      using first by (simp add: hlist_move_list_def Let_def)
    have "hseg ?s (HNext x) xs'"
      by (rule hseg_cong [of s]) (use list Cons cells ppr in \<open>auto simp: hlist_def\<close>)
    then show ?thesis
      using list Cons cells ppr first n by (auto simp: hlist_def end_cell_def)
  qed
qed

lemma move_list_frame:
  assumes list: "hlist s old xs" and other: "hlist s b zs" "b \<noteq> old" "b \<noteq> n" and apart: "set zs \<inter> set xs = {}"
  shows "hlist (hlist_move_list old n s) b zs"
proof -
  have first: "cell s (HFirst old) = (case xs of [] \<Rightarrow> None | x # _ \<Rightarrow> Some x)"
    using hlist_cell [of s old "[]" xs] list by simp
  show ?thesis
    by (rule hlist_cong [OF other(1)])
      (use other(2,3) apart first in \<open>auto simp: hlist_move_list_def Let_def split: option.split list.splits\<close>)
qed

lemma hlist_visit_hseg:
  "hseg s c xs \<Longrightarrow> cell s (end_cell c xs) = None \<Longrightarrow> hlist_visit s (cell s c) = Some xs"
  by (induction xs arbitrary: c) (simp_all add: hlist_visit.simps)

lemma hlist_for_each_visits: "hlist s h xs \<Longrightarrow> hlist_for_each h s = Some xs"
  by (simp add: hlist_def hlist_for_each_def hlist_visit_hseg)

text \<open>Removing every node on the way leaves the list empty.\<close>

lemma hlist_visit_safe_del:
  "hlist s h xs \<Longrightarrow> \<exists>s'. hlist_visit_safe hlist_del (cell s (HFirst h)) s = Some s' \<and> hlist s' h []"
proof (induction xs arbitrary: s)
  case Nil
  then show ?case
    by (simp add: hlist_def hlist_visit_safe.simps)
next
  case (Cons x xs)
  let ?s = "cut_out x (HFirst h) s"
  have list: "hlist s h ([] @ x # xs)"
    using Cons.prems by simp
  have "cell s (HFirst h) = Some x" "pprev s x = Some (HFirst h)"
    using Cons.prems by (simp_all add: hlist_def)
  moreover have "hlist ?s h xs"
    using cut_out_hlist [OF list] by simp
  moreover have "cell ?s (HFirst h) = cell s (HNext x)"
    by (simp add: cut_out_def)
  ultimately show ?case
    using Cons.IH [of ?s] by (simp add: hlist_visit_safe.simps [of _ "Some x"] hlist_del_def del_raw_cut_out)
qed

section \<open>Many lists in one store\<close>

definition apart :: "'a set \<Rightarrow> ('a \<Rightarrow> 'a list) \<Rightarrow> bool" where
  "apart H L \<longleftrightarrow> (\<forall>a\<in>H. \<forall>b\<in>H. a \<noteq> b \<longrightarrow> set (L a) \<inter> set (L b) = {})"

lemma apart_upd:
  assumes "apart H L" "a \<in> H" "\<And>b. b \<in> H \<Longrightarrow> b \<noteq> a \<Longrightarrow> set ys \<inter> set (L b) = {}"
  shows "apart H (L(a := ys))"
  unfolding apart_def
proof (intro ballI impI)
  fix b b'
  assume b: "b \<in> H" "b' \<in> H" "b \<noteq> b'"
  have old: "set (L b) \<inter> set (L b') = {}"
    using assms(1) b unfolding apart_def by blast
  show "set ((L(a := ys)) b) \<inter> set ((L(a := ys)) b') = {}"
  proof (cases "b = a")
    case True
    then show ?thesis
      using assms(3) [of b'] b by simp
  next
    case False
    then show ?thesis
      using assms(3) [of b] b old by (cases "b' = a") (simp_all add: Int_commute)
  qed
qed

definition hlists :: "'a hlinks \<Rightarrow> 'a set \<Rightarrow> ('a \<Rightarrow> 'a list) \<Rightarrow> bool" where
  "hlists s H L \<longleftrightarrow> (\<forall>a\<in>H. hlist s a (L a)) \<and> apart H L"

lemma hlists_put_in:
  assumes rel: "hlists s H L" and a: "a \<in> H" "L a = xs @ ys" and new: "\<And>b. b \<in> H \<Longrightarrow> n \<notin> set (L b)"
    and c: "c = end_cell (HFirst a) xs"
  shows "hlists (put_in n c s) H (L(a := xs @ n # ys))"
proof -
  have list: "hlist s a (xs @ ys)"
    using rel a by (metis hlists_def)
  have "hlist (put_in n c s) b ((L(a := xs @ n # ys)) b)" if "b \<in> H" for b
  proof (cases "b = a")
    case True
    then show ?thesis
      using put_in_hlist [OF list _ c] new [OF a(1)] a(2) by simp
  next
    case False
    have "hlist s b (L b)" "set (L b) \<inter> set (xs @ ys) = {}"
      using rel that a False unfolding hlists_def apart_def by (blast, metis)
    then show ?thesis
      using put_in_frame [OF list c _ False] new [OF that] False by simp
  qed
  moreover have "apart H (L(a := xs @ n # ys))"
  proof (rule apart_upd)
    show "set (xs @ n # ys) \<inter> set (L b) = {}" if "b \<in> H" "b \<noteq> a" for b
    proof -
      have "set (L a) \<inter> set (L b) = {}"
        using rel a(1) that unfolding hlists_def apart_def by metis
      then show ?thesis
        using new [OF that(1)] by (simp add: a(2))
    qed
  qed (use rel a(1) in \<open>simp_all add: hlists_def\<close>)
  ultimately show ?thesis
    unfolding hlists_def by blast
qed

lemma hlists_cut_out:
  assumes rel: "hlists s H L" and a: "a \<in> H" "L a = xs @ x # ys" and c: "c = end_cell (HFirst a) xs"
  shows "hlists (cut_out x c s) H (L(a := xs @ ys))"
proof -
  have list: "hlist s a (xs @ x # ys)"
    using rel a by (metis hlists_def)
  have "hlist (cut_out x c s) b ((L(a := xs @ ys)) b)" if "b \<in> H" for b
  proof (cases "b = a")
    case True
    then show ?thesis
      using cut_out_hlist [OF list c] by simp
  next
    case False
    have "hlist s b (L b)" "set (L b) \<inter> set (xs @ x # ys) = {}"
      using rel that a False unfolding hlists_def apart_def by (blast, metis)
    then show ?thesis
      using cut_out_frame [OF list c _ False] False by simp
  qed
  moreover have "apart H (L(a := xs @ ys))"
  proof (rule apart_upd)
    show "set (xs @ ys) \<inter> set (L b) = {}" if "b \<in> H" "b \<noteq> a" for b
    proof -
      have "set (L a) \<inter> set (L b) = {}"
        using rel a(1) that unfolding hlists_def apart_def by metis
      then show ?thesis
        by (simp add: a(2))
    qed
  qed (use rel a(1) in \<open>simp_all add: hlists_def\<close>)
  ultimately show ?thesis
    unfolding hlists_def by blast
qed

lemma hlists_move:
  assumes rel: "hlists s H L" and a: "a \<in> H" "b \<in> H" "b \<noteq> a" and empty: "L b = []"
  shows "hlists (hlist_move_list a b s) H (L(b := L a, a := []))"
proof -
  have list: "hlist s a (L a)"
    using rel a(1) by (simp add: hlists_def)
  have "hlist (hlist_move_list a b s) d ((L(b := L a, a := [])) d)" if "d \<in> H" for d
  proof (cases "d = a \<or> d = b")
    case True
    then show ?thesis
      using move_list_hlist [OF list a(3)] a(3) by auto
  next
    case False
    then have "hlist s d (L d)" "set (L d) \<inter> set (L a) = {}"
      using rel that a(1) by (auto simp: hlists_def apart_def)
    then show ?thesis
      using move_list_frame [OF list] False by simp
  qed
  moreover have "apart H (L(b := L a, a := []))"
  proof -
    have "apart H (L(a := []))"
      using rel a(1) by (intro apart_upd) (simp_all add: hlists_def)
    then have "apart H (L(a := [], b := L a))"
    proof (rule apart_upd [OF _ a(2)])
      show "set (L a) \<inter> set ((L(a := [])) d) = {}" if "d \<in> H" "d \<noteq> b" for d
        using rel a(1) that unfolding hlists_def apart_def by (cases "d = a") auto
    qed
    then show ?thesis
      using a(3) by (simp add: fun_upd_twist)
  qed
  ultimately show ?thesis
    unfolding hlists_def by blast
qed

lemma hlists_cong:
  assumes "hlists s H L" "\<And>a. a \<in> H \<Longrightarrow> L' a = L a"
  shows "hlists s H L'"
  using assms by (simp add: hlists_def apart_def)

section \<open>Sequences of calls\<close>

datatype 'a hlist_op =
  HPush 'a 'a
| HBefore 'a 'a
| HAfter 'a 'a
| HDel 'a
| HDel_init 'a
| HMove 'a 'a

primrec run_hlist_op :: "'a hlist_op \<Rightarrow> 'a hlinks \<Rightarrow> 'a hlinks option" where
  "run_hlist_op (HPush n h) s = Some (hlist_add_head n h s)"
| "run_hlist_op (HBefore n x) s = hlist_add_before n x s"
| "run_hlist_op (HAfter n x) s = Some (hlist_add_after x n s)"
| "run_hlist_op (HDel x) s = hlist_del x s"
| "run_hlist_op (HDel_init x) s = hlist_del_init x s"
| "run_hlist_op (HMove a b) s = Some (hlist_move_list a b s)"

fun ins_before :: "'a \<Rightarrow> 'a \<Rightarrow> 'a list \<Rightarrow> 'a list" where
  "ins_before n x [] = []"
| "ins_before n x (z # zs) = (if z = x then n # z # zs else z # ins_before n x zs)"

fun ins_after :: "'a \<Rightarrow> 'a \<Rightarrow> 'a list \<Rightarrow> 'a list" where
  "ins_after n x [] = []"
| "ins_after n x (z # zs) = (if z = x then z # n # zs else z # ins_after n x zs)"

definition hlinked :: "'a set \<Rightarrow> ('a \<Rightarrow> 'a list) \<Rightarrow> 'a \<Rightarrow> bool" where
  "hlinked H L x \<longleftrightarrow> (\<exists>a\<in>H. x \<in> set (L a))"

text \<open>The same calls on plain lists; \<open>None\<close> is a call the interface does not allow.\<close>

primrec spec_hlist_op :: "'a set \<Rightarrow> 'a hlist_op \<Rightarrow> ('a \<Rightarrow> 'a list) \<Rightarrow> ('a \<Rightarrow> 'a list) option" where
  "spec_hlist_op H (HPush n h) L = (if h \<in> H \<and> \<not> hlinked H L n then Some (L(h := n # L h)) else None)"
| "spec_hlist_op H (HBefore n x) L =
     (if hlinked H L x \<and> \<not> hlinked H L n then Some (\<lambda>a. ins_before n x (L a)) else None)"
| "spec_hlist_op H (HAfter n x) L =
     (if hlinked H L x \<and> \<not> hlinked H L n then Some (\<lambda>a. ins_after n x (L a)) else None)"
| "spec_hlist_op H (HDel x) L = (if hlinked H L x then Some (\<lambda>a. remove1 x (L a)) else None)"
| "spec_hlist_op H (HDel_init x) L = (if hlinked H L x then Some (\<lambda>a. remove1 x (L a)) else None)"
| "spec_hlist_op H (HMove a b) L =
     (if a \<in> H \<and> b \<in> H \<and> b \<noteq> a \<and> L b = [] then Some (L(b := L a, a := [])) else None)"

lemma ins_not_in: "x \<notin> set zs \<Longrightarrow> ins_before n x zs = zs" "x \<notin> set zs \<Longrightarrow> ins_after n x zs = zs"
  by (induction zs) auto

lemma ins_at: "x \<notin> set xs \<Longrightarrow> ins_before n x (xs @ x # ys) = xs @ n # x # ys"
  "x \<notin> set xs \<Longrightarrow> ins_after n x (xs @ x # ys) = xs @ x # n # ys"
  by (induction xs) auto

text \<open>Where a linked node stands.\<close>

lemma hlinked_at:
  assumes rel: "hlists s H L" and x: "hlinked H L x"
  obtains a xs ys where "a \<in> H" "L a = xs @ x # ys" "hlist s a (xs @ x # ys)" "x \<notin> set xs"
    "\<forall>b\<in>H. b \<noteq> a \<longrightarrow> x \<notin> set (L b)"
proof -
  obtain a where a: "a \<in> H" "x \<in> set (L a)"
    using x by (auto simp: hlinked_def)
  then obtain xs ys where L: "L a = xs @ x # ys"
    by (meson split_list)
  have list: "hlist s a (xs @ x # ys)"
    using rel a(1) L by (metis hlists_def)
  then have "x \<notin> set xs"
    by (simp add: hlist_def)
  moreover have "x \<notin> set (L b)" if "b \<in> H" "b \<noteq> a" for b
    using rel that a unfolding hlists_def apart_def by blast
  ultimately show thesis
    using that a(1) L list by blast
qed

lemma hlinked_not: "\<not> hlinked H L n \<Longrightarrow> b \<in> H \<Longrightarrow> n \<notin> set (L b)"
  by (auto simp: hlinked_def)

lemma del_refines:
  assumes rel: "hlists s H L" and x: "hlinked H L x"
  obtains c where "pprev s x = Some c" "hlists (cut_out x c s) H (\<lambda>a. remove1 x (L a))"
proof -
  obtain a xs ys where at: "a \<in> H" "L a = xs @ x # ys" "hlist s a (xs @ x # ys)" "x \<notin> set xs"
    "\<forall>b\<in>H. b \<noteq> a \<longrightarrow> x \<notin> set (L b)"
    by (rule hlinked_at [OF rel x])
  have "hlists (cut_out x (end_cell (HFirst a) xs) s) H (L(a := xs @ ys))"
    by (rule hlists_cut_out [OF rel at(1,2) refl])
  then have "hlists (cut_out x (end_cell (HFirst a) xs) s) H (\<lambda>a. remove1 x (L a))"
    by (rule hlists_cong) (use at(2,4,5) in \<open>auto simp: remove1_idem remove1_append\<close>)
  then show thesis
    using that hlist_pprev [OF at(3)] by blast
qed

text \<open>A node on no list may be written to.\<close>

lemma hlist_init_frame:
  assumes "hlists s H L" "\<not> hlinked H L x"
  shows "hlists (hlist_init x s) H L"
  unfolding hlists_def
proof (intro conjI ballI)
  show "hlist (hlist_init x s) a (L a)" if "a \<in> H" for a
    by (rule hlist_cong [of s]) (use assms that in \<open>auto simp: hlists_def hlinked_def hlist_init_def\<close>)
  show "apart H L"
    using assms(1) by (simp add: hlists_def)
qed

lemma removed_unlinked:
  assumes "hlists s H L"
  shows "\<not> hlinked H (\<lambda>a. remove1 x (L a)) x"
  using assms by (auto simp: hlinked_def hlists_def hlist_def)

lemma before_refines:
  assumes rel: "hlists s H L" and x: "hlinked H L x" and n: "\<not> hlinked H L n"
  shows "\<exists>s'. hlist_add_before n x s = Some s' \<and> hlists s' H (\<lambda>a. ins_before n x (L a))"
proof -
  obtain a xs ys where at: "a \<in> H" "L a = xs @ x # ys" "hlist s a (xs @ x # ys)" "x \<notin> set xs"
    "\<forall>b\<in>H. b \<noteq> a \<longrightarrow> x \<notin> set (L b)"
    by (rule hlinked_at [OF rel x])
  let ?c = "end_cell (HFirst a) xs"
  have "n \<notin> set (L a)"
    using n at(1) by (rule hlinked_not)
  then have "x \<noteq> n" "?c \<noteq> HNext n"
    using at(2) end_cell_next [of a xs n] by auto
  moreover have "cell s ?c = Some x"
    using hlist_cell [OF at(3)] by simp
  ultimately have "hlist_add_before n x s = Some (put_in n ?c s)"
    using hlist_pprev [OF at(3)] by (intro add_before_put_in)
  moreover have "hlists (put_in n ?c s) H (L(a := xs @ n # x # ys))"
    using hlinked_not [OF n] by (intro hlists_put_in [OF rel at(1,2) _ refl])
  then have "hlists (put_in n ?c s) H (\<lambda>a. ins_before n x (L a))"
    by (rule hlists_cong) (use at(2,4,5) in \<open>auto simp: ins_not_in ins_at\<close>)
  ultimately show ?thesis
    by simp
qed

lemma after_refines:
  assumes rel: "hlists s H L" and x: "hlinked H L x" and n: "\<not> hlinked H L n"
  shows "hlists (hlist_add_after x n s) H (\<lambda>a. ins_after n x (L a))"
proof -
  obtain a xs ys where at: "a \<in> H" "L a = xs @ x # ys" "hlist s a (xs @ x # ys)" "x \<notin> set xs"
    "\<forall>b\<in>H. b \<noteq> a \<longrightarrow> x \<notin> set (L b)"
    by (rule hlinked_at [OF rel x])
  have "n \<notin> set (L a)"
    using n at(1) by (rule hlinked_not)
  then have "x \<noteq> n" "cell s (HNext x) \<noteq> Some n"
    using at(2) hlist_next [OF at(3)] by (cases ys; auto)+
  then have run: "hlist_add_after x n s = put_in n (HNext x) s"
    by (rule add_after_put_in)
  have "L a = (xs @ [x]) @ ys"
    using at(2) by simp
  then have "hlists (put_in n (HNext x) s) H (L(a := (xs @ [x]) @ n # ys))"
    using hlinked_not [OF n] by (intro hlists_put_in [OF rel at(1)]) simp_all
  then show ?thesis
    unfolding run by (rule hlists_cong) (use at(2,4,5) in \<open>auto simp: ins_not_in ins_at\<close>)
qed

lemma run_hlist_op_refines:
  assumes rel: "hlists s H L" and spec: "spec_hlist_op H c L = Some L'"
  shows "\<exists>s'. run_hlist_op c s = Some s' \<and> hlists s' H L'"
proof (cases c)
  case (HPush n h)
  then have h: "h \<in> H" "\<not> hlinked H L n" and L': "L' = L(h := n # L h)"
    using spec by (auto split: if_splits)
  have "cell s (HFirst h) \<noteq> Some n"
    using hlist_cell [of s h "[]" "L h"] rel h hlinked_not [OF h(2,1)] by (cases "L h") (auto simp: hlists_def)
  then show ?thesis
    using HPush L' hlists_put_in [OF rel h(1), of "[]" "L h" n "HFirst h"] hlinked_not [OF h(2)]
    by (simp add: add_head_put_in)
next
  case (HBefore n x)
  then show ?thesis
    using spec before_refines [OF rel] by (auto split: if_splits)
next
  case (HAfter n x)
  then show ?thesis
    using spec after_refines [OF rel] by (auto split: if_splits)
next
  case (HDel x)
  then have x: "hlinked H L x" and L': "L' = (\<lambda>a. remove1 x (L a))"
    using spec by (auto split: if_splits)
  obtain c where "pprev s x = Some c" "hlists (cut_out x c s) H (\<lambda>a. remove1 x (L a))"
    by (rule del_refines [OF rel x])
  then show ?thesis
    using HDel L' by (simp add: hlist_del_def del_raw_cut_out)
next
  case (HDel_init x)
  then have x: "hlinked H L x" and L': "L' = (\<lambda>a. remove1 x (L a))"
    using spec by (auto split: if_splits)
  obtain c where c: "pprev s x = Some c" "hlists (cut_out x c s) H (\<lambda>a. remove1 x (L a))"
    by (rule del_refines [OF rel x])
  have "hlists (hlist_init x (cut_out x c s)) H L'"
    unfolding L' using c(2) removed_unlinked [OF rel] by (rule hlist_init_frame)
  then show ?thesis
    using HDel_init c(1) by (simp add: hlist_del_init_def hlist_unhashed_def del_raw_cut_out)
next
  case (HMove a b)
  then show ?thesis
    using spec hlists_move [OF rel] by (auto split: if_splits)
qed

interpretation hlist_run: follows run_hlist_op "spec_hlist_op H" "\<lambda>s. hlists s H" for H
  by unfold_locales (rule run_hlist_op_refines)

section \<open>Properties\<close>

text \<open>C33: any sequence of insertions at the head, before or after a node, of removals and of moves of
  whole lists to empty heads returns and has the effect it has on plain lists, as long as only
  unlinked nodes are inserted and only linked ones removed; the iteration visits each list's nodes in
  order, and a safe iteration that removes every node leaves its list empty.\<close>

theorem hlist_ops_refine:
  assumes "hlists s H L" "run_all (spec_hlist_op H) cs L = Some L'" "h \<in> H"
  shows "\<exists>s'. run_all run_hlist_op cs s = Some s' \<and> hlists s' H L' \<and> hlist_for_each h s' = Some (L' h) \<and>
    (\<exists>s''. hlist_for_each_safe hlist_del h s' = Some s'' \<and> hlist_empty h s'')"
proof -
  obtain s' where run: "run_all run_hlist_op cs s = Some s'" "hlists s' H L'"
    using hlist_run.all_follow [OF assms(1,2)] by blast
  then have list: "hlist s' h (L' h)"
    using assms(3) by (simp add: hlists_def)
  obtain s'' where "hlist_visit_safe hlist_del (cell s' (HFirst h)) s' = Some s''" "hlist s'' h []"
    using hlist_visit_safe_del [OF list] by blast
  then show ?thesis
    using run hlist_for_each_visits [OF list] by (simp add: hlist_for_each_safe_def hlist_empty_def hlist_def)
qed

lemma hlist_ops_refine_witness:
  "\<exists>s'. run_all run_hlist_op [HPush 3 0, HAfter 4 3, HBefore 5 4, HDel_init 3, HMove 0 1]
      \<lparr>cell = \<lambda>_. None, pprev = \<lambda>_::nat. None\<rparr> = Some s' \<and> hlist_for_each 1 s' = Some [5, 4]"
proof -
  let ?s = "\<lparr>cell = \<lambda>_. None, pprev = \<lambda>_. None\<rparr> :: nat hlinks"
  have rel: "hlists ?s {0, 1} (\<lambda>_. [])"
    by (simp add: hlists_def apart_def hlist_def)
  obtain L' where L': "run_all (spec_hlist_op {0, 1}) [HPush 3 0, HAfter 4 3, HBefore 5 4, HDel_init 3, HMove 0 (1 :: nat)] (\<lambda>_. []) = Some L'" "L' 1 = [5, 4]"
    by (simp add: hlinked_def)
  from hlist_ops_refine [OF rel L'(1), of 1] show ?thesis
    using L'(2) by auto
qed

end
