(* ===== verification/Hash_Key.thy ===== *)
theory Hash_Key
  imports Crc64
begin

text \<open>
  Keys of the hash table (\<^verbatim>\<open>include/uc_hash.h\<close>, \<^verbatim>\<open>hash/uc_hash.c\<close>): the key union as its storage
  bytes, and the four functions that switch on the key type: compare, copy, length and address.
  The lemmas show that for every key type the comparison looks at exactly the bytes the hash
  function is fed, so that equal keys always hash alike.
\<close>

section \<open>Types\<close>

text \<open>An operation either ends the process (an \<open>exit\<close> call), touches memory outside the table
  (undefined behaviour), or returns.\<close>

datatype crash = Exit int | Undefined_behaviour

text \<open>\<^verbatim>\<open>uc_hash_key_type_t\<close>; the last constructor stands for any other value of the C enum.\<close>

datatype uc_hash_key_type =
    uc_hash_key_char | uc_hash_key_uchar
  | uc_hash_key_int16 | uc_hash_key_uint16
  | uc_hash_key_int32 | uc_hash_key_uint32
  | uc_hash_key_int64 | uc_hash_key_uint64
  | uc_hash_key_pointer
  | uc_hash_key_mac | uc_hash_key_mac_str | uc_hash_key_ip_str
  | uc_hash_key_id_char32_str | uc_hash_key_id_char64_str
  | uc_hash_key_mem
  | uc_hash_key_other int

text \<open>
  \<^verbatim>\<open>uc_hash_key_t\<close>: the bytes of the union (72 of them on the target), which every member reads
  from offset 0, and the memory its member \<open>mem\<close> points to.
\<close>

record uc_hash_key =
  kraw :: "u8 list"
  kmem :: "u8 list"

definition UC_HASH_KEY_SIZE :: nat where "UC_HASH_KEY_SIZE = 72"

definition UC_MAC_LEN_BYTES :: nat where "UC_MAC_LEN_BYTES = 6"
definition UC_MAC_LEN_STR_00 :: nat where "UC_MAC_LEN_STR_00 = 18"
definition UC_IPV4_LEN_STR_00 :: nat where "UC_IPV4_LEN_STR_00 = 16"
definition UC_ID_CHAR_32_STR_00 :: nat where "UC_ID_CHAR_32_STR_00 = 33"
definition UC_ID_CHAR_64_STR_00 :: nat where "UC_ID_CHAR_64_STR_00 = 65"

lemmas key_sizes = UC_HASH_KEY_SIZE_def UC_MAC_LEN_BYTES_def UC_MAC_LEN_STR_00_def
  UC_IPV4_LEN_STR_00_def UC_ID_CHAR_32_STR_00_def UC_ID_CHAR_64_STR_00_def

text \<open>Reading an integer member: the little-endian value of its bytes, at its width.\<close>

definition key_word :: "nat \<Rightarrow> uc_hash_key \<Rightarrow> 'a::len word" where
  "key_word n k = word_of_nat (le_nat (take n (kraw k)))"

text \<open>The initializer \<^verbatim>\<open>{.u64 = v}\<close>.\<close>

definition key_u64 :: "u64 \<Rightarrow> uc_hash_key" where
  "key_u64 v = \<lparr>kraw = le_bytes 8 (unat v) @ replicate 64 0, kmem = []\<rparr>"

section \<open>The functions that switch on the key type\<close>

text \<open>The byte loops of the comparison, which stop at the first difference, and \<open>memcmp\<close>.\<close>

fun bytes_differ :: "u8 list \<Rightarrow> u8 list \<Rightarrow> int" where
  "bytes_differ (x # xs) (y # ys) = (if x \<noteq> y then 1 else bytes_differ xs ys)"
| "bytes_differ _ _ = 0"

fun memcmp :: "u8 list \<Rightarrow> u8 list \<Rightarrow> nat \<Rightarrow> int" where
  "memcmp (x # xs) (y # ys) (Suc n) =
     (if x \<noteq> y then uint x - uint y else memcmp xs ys n)"
| "memcmp _ _ _ = 0"

fun uc_hash_key_compare ::
  "uc_hash_key_type \<Rightarrow> nat \<Rightarrow> uc_hash_key \<Rightarrow> uc_hash_key \<Rightarrow> crash + int" where
  "uc_hash_key_compare uc_hash_key_char kl a b =
     Inr (if sint (key_word 1 a :: u8) = sint (key_word 1 b :: u8) then 0 else 1)"
| "uc_hash_key_compare uc_hash_key_uchar kl a b =
     Inr (if (key_word 1 a :: u8) = key_word 1 b then 0 else 1)"
| "uc_hash_key_compare uc_hash_key_int16 kl a b =
     Inr (if sint (key_word 2 a :: u16) = sint (key_word 2 b :: u16) then 0 else 1)"
| "uc_hash_key_compare uc_hash_key_uint16 kl a b =
     Inr (if (key_word 2 a :: u16) = key_word 2 b then 0 else 1)"
| "uc_hash_key_compare uc_hash_key_int32 kl a b =
     Inr (if sint (key_word 4 a :: u32) = sint (key_word 4 b :: u32) then 0 else 1)"
| "uc_hash_key_compare uc_hash_key_uint32 kl a b =
     Inr (if (key_word 4 a :: u32) = key_word 4 b then 0 else 1)"
| "uc_hash_key_compare uc_hash_key_int64 kl a b =
     Inr (if sint (key_word 8 a :: u64) = sint (key_word 8 b :: u64) then 0 else 1)"
| "uc_hash_key_compare uc_hash_key_uint64 kl a b =
     Inr (if (key_word 8 a :: u64) = key_word 8 b then 0 else 1)"
| "uc_hash_key_compare uc_hash_key_pointer kl a b =
     Inr (if (key_word 8 a :: u64) = key_word 8 b then 0 else 1)"
| "uc_hash_key_compare uc_hash_key_mac kl a b =
     Inr (bytes_differ (take UC_MAC_LEN_BYTES (kraw a)) (take UC_MAC_LEN_BYTES (kraw b)))"
| "uc_hash_key_compare uc_hash_key_mac_str kl a b =
     Inr (bytes_differ (take UC_MAC_LEN_STR_00 (kraw a)) (take UC_MAC_LEN_STR_00 (kraw b)))"
| "uc_hash_key_compare uc_hash_key_ip_str kl a b =
     Inr (bytes_differ (take UC_IPV4_LEN_STR_00 (kraw a)) (take UC_IPV4_LEN_STR_00 (kraw b)))"
| "uc_hash_key_compare uc_hash_key_id_char32_str kl a b =
     Inr (memcmp (kraw a) (kraw b) UC_ID_CHAR_32_STR_00)"
| "uc_hash_key_compare uc_hash_key_id_char64_str kl a b =
     Inr (memcmp (kraw a) (kraw b) UC_ID_CHAR_64_STR_00)"
| "uc_hash_key_compare uc_hash_key_mem kl a b = Inr (memcmp (kmem a) (kmem b) kl)"
| "uc_hash_key_compare (uc_hash_key_other t) kl a b = Inl (Exit (-0x70e05102))"

text \<open>\<open>uc_cal_key_len\<close>; its argument is the table, of which it reads the two fields given here.\<close>

fun uc_cal_key_len :: "uc_hash_key_type \<Rightarrow> nat \<Rightarrow> crash + nat" where
  "uc_cal_key_len uc_hash_key_char mkl = Inr 1"
| "uc_cal_key_len uc_hash_key_uchar mkl = Inr 1"
| "uc_cal_key_len uc_hash_key_int16 mkl = Inr 2"
| "uc_cal_key_len uc_hash_key_uint16 mkl = Inr 2"
| "uc_cal_key_len uc_hash_key_int32 mkl = Inr 4"
| "uc_cal_key_len uc_hash_key_uint32 mkl = Inr 4"
| "uc_cal_key_len uc_hash_key_int64 mkl = Inr 8"
| "uc_cal_key_len uc_hash_key_uint64 mkl = Inr 8"
| "uc_cal_key_len uc_hash_key_pointer mkl = Inr 8"
| "uc_cal_key_len uc_hash_key_mac mkl = Inr UC_MAC_LEN_BYTES"
| "uc_cal_key_len uc_hash_key_mac_str mkl = Inr UC_MAC_LEN_STR_00"
| "uc_cal_key_len uc_hash_key_ip_str mkl = Inr UC_IPV4_LEN_STR_00"
| "uc_cal_key_len uc_hash_key_id_char32_str mkl = Inr UC_ID_CHAR_32_STR_00"
| "uc_cal_key_len uc_hash_key_id_char64_str mkl = Inr UC_ID_CHAR_64_STR_00"
| "uc_cal_key_len uc_hash_key_mem mkl = Inr mkl"
| "uc_cal_key_len (uc_hash_key_other t) mkl = Inl (Exit (-0x70e05102))"

text \<open>\<open>uc_cal_key_addr\<close>: the memory the returned address points to. Every member of the union
  starts at offset 0; only \<open>mem\<close> points elsewhere.\<close>

fun uc_cal_key_addr :: "uc_hash_key_type \<Rightarrow> uc_hash_key \<Rightarrow> crash + u8 list" where
  "uc_cal_key_addr uc_hash_key_mem k = Inr (kmem k)"
| "uc_cal_key_addr (uc_hash_key_other t) k = Inl (Exit (-0x11c9cb57))"
| "uc_cal_key_addr _ k = Inr (kraw k)"

text \<open>\<open>uc_hash_key_copy\<close>: the bytes of the member are overwritten in the destination union; for a
  memory key the destination's memory is.\<close>

definition overwrite :: "nat \<Rightarrow> u8 list \<Rightarrow> u8 list \<Rightarrow> u8 list" where
  "overwrite n dst src = take n src @ drop n dst"

fun uc_hash_key_copy ::
  "uc_hash_key_type \<Rightarrow> nat \<Rightarrow> uc_hash_key \<Rightarrow> uc_hash_key \<Rightarrow> crash + uc_hash_key" where
  "uc_hash_key_copy uc_hash_key_char kl a b = Inr (a\<lparr>kraw := overwrite 1 (kraw a) (kraw b)\<rparr>)"
| "uc_hash_key_copy uc_hash_key_uchar kl a b = Inr (a\<lparr>kraw := overwrite 1 (kraw a) (kraw b)\<rparr>)"
| "uc_hash_key_copy uc_hash_key_int16 kl a b = Inr (a\<lparr>kraw := overwrite 2 (kraw a) (kraw b)\<rparr>)"
| "uc_hash_key_copy uc_hash_key_uint16 kl a b = Inr (a\<lparr>kraw := overwrite 2 (kraw a) (kraw b)\<rparr>)"
| "uc_hash_key_copy uc_hash_key_int32 kl a b = Inr (a\<lparr>kraw := overwrite 4 (kraw a) (kraw b)\<rparr>)"
| "uc_hash_key_copy uc_hash_key_uint32 kl a b = Inr (a\<lparr>kraw := overwrite 4 (kraw a) (kraw b)\<rparr>)"
| "uc_hash_key_copy uc_hash_key_int64 kl a b = Inr (a\<lparr>kraw := overwrite 8 (kraw a) (kraw b)\<rparr>)"
| "uc_hash_key_copy uc_hash_key_uint64 kl a b = Inr (a\<lparr>kraw := overwrite 8 (kraw a) (kraw b)\<rparr>)"
| "uc_hash_key_copy uc_hash_key_pointer kl a b = Inr (a\<lparr>kraw := overwrite 8 (kraw a) (kraw b)\<rparr>)"
| "uc_hash_key_copy uc_hash_key_mac kl a b =
     Inr (a\<lparr>kraw := overwrite UC_MAC_LEN_BYTES (kraw a) (kraw b)\<rparr>)"
| "uc_hash_key_copy uc_hash_key_mac_str kl a b =
     Inr (a\<lparr>kraw := overwrite UC_MAC_LEN_STR_00 (kraw a) (kraw b)\<rparr>)"
| "uc_hash_key_copy uc_hash_key_ip_str kl a b =
     Inr (a\<lparr>kraw := overwrite UC_IPV4_LEN_STR_00 (kraw a) (kraw b)\<rparr>)"
| "uc_hash_key_copy uc_hash_key_id_char32_str kl a b =
     Inr (a\<lparr>kraw := overwrite UC_ID_CHAR_32_STR_00 (kraw a) (kraw b)\<rparr>)"
| "uc_hash_key_copy uc_hash_key_id_char64_str kl a b =
     Inr (a\<lparr>kraw := overwrite UC_ID_CHAR_64_STR_00 (kraw a) (kraw b)\<rparr>)"
| "uc_hash_key_copy uc_hash_key_mem kl a b = Inr (a\<lparr>kmem := overwrite kl (kmem a) (kmem b)\<rparr>)"
| "uc_hash_key_copy (uc_hash_key_other t) kl a b = Inl (Exit (-0x70e05102))"

section \<open>Keys as byte strings\<close>

definition valid_key_type :: "uc_hash_key_type \<Rightarrow> bool" where
  "valid_key_type kt \<longleftrightarrow> (\<forall>t. kt \<noteq> uc_hash_key_other t)"

text \<open>A key argument as the interface wants it: a whole union and, for a memory key, readable
  memory of the table's key length.\<close>

definition wf_key :: "uc_hash_key_type \<Rightarrow> nat \<Rightarrow> uc_hash_key \<Rightarrow> bool" where
  "wf_key kt kl k \<longleftrightarrow>
     length (kraw k) = UC_HASH_KEY_SIZE \<and> (kt = uc_hash_key_mem \<longrightarrow> kl \<le> length (kmem k))"

text \<open>The bytes that identify a key: what the hash function reads.\<close>

definition key_bytes :: "uc_hash_key_type \<Rightarrow> nat \<Rightarrow> uc_hash_key \<Rightarrow> u8 list" where
  "key_bytes kt kl k = (if kt = uc_hash_key_mem then take kl (kmem k) else take kl (kraw k))"

lemma uc_cal_key_len_valid:
  "uc_cal_key_len kt mkl = Inr kl \<Longrightarrow> valid_key_type kt \<and> (kt = uc_hash_key_mem \<or> kl \<le> UC_HASH_KEY_SIZE)"
  by (cases kt) (auto simp: valid_key_type_def key_sizes)

lemma uc_cal_key_len_total: "valid_key_type kt \<Longrightarrow> \<exists>kl. uc_cal_key_len kt mkl = Inr kl"
  by (cases kt) (auto simp: valid_key_type_def)

lemma uc_cal_key_addr_bytes:
  "valid_key_type kt \<Longrightarrow> \<exists>mem. uc_cal_key_addr kt k = Inr mem \<and> take kl mem = key_bytes kt kl k"
  by (cases kt) (auto simp: valid_key_type_def key_bytes_def)

lemma length_key_bytes:
  "wf_key kt kl k \<Longrightarrow> uc_cal_key_len kt mkl = Inr kl \<Longrightarrow> length (key_bytes kt kl k) = kl"
  by (cases kt) (auto simp: wf_key_def key_bytes_def key_sizes)

lemma key_word_eq_iff:
  assumes "LENGTH('a::len) = 8 * n" "n \<le> length (kraw a)" "n \<le> length (kraw b)"
  shows "(key_word n a :: 'a word) = key_word n b \<longleftrightarrow> take n (kraw a) = take n (kraw b)"
proof -
  have pow: "(256::nat) ^ n = 2 ^ LENGTH('a)"
    using power_mult [of "2::nat" 8 n] assms(1) by simp
  have "le_nat (take n (kraw a)) < 2 ^ LENGTH('a)" "le_nat (take n (kraw b)) < 2 ^ LENGTH('a)"
    using le_nat_less [of "take n (kraw a)"] le_nat_less [of "take n (kraw b)"] assms(2,3)
    by (simp_all flip: pow)
  then have "(key_word n a :: 'a word) = key_word n b \<longleftrightarrow>
      le_nat (take n (kraw a)) = le_nat (take n (kraw b))"
    by (simp add: key_word_def word_of_nat_eq_iff take_bit_nat_eq_self)
  also have "\<dots> \<longleftrightarrow> take n (kraw a) = take n (kraw b)"
    using assms(2,3) by (intro le_nat_inject) simp
  finally show ?thesis .
qed

lemma bytes_differ_eq_0_iff: "length xs = length ys \<Longrightarrow> bytes_differ xs ys = 0 \<longleftrightarrow> xs = ys"
  by (induction xs ys rule: list_induct2) auto

lemma memcmp_eq_0_iff:
  "n \<le> length xs \<Longrightarrow> n \<le> length ys \<Longrightarrow> memcmp xs ys n = 0 \<longleftrightarrow> take n xs = take n ys"
proof (induction xs ys n rule: memcmp.induct)
  case (1 x xs y ys n)
  then show ?case by (auto simp: word_uint_eq_iff)
qed auto

text \<open>The comparison decides equality of the identifying bytes, for every key type.\<close>

lemma uc_hash_key_compare_iff:
  assumes kl: "uc_cal_key_len kt mkl = Inr kl" and a: "wf_key kt kl a" and b: "wf_key kt kl b"
  shows "\<exists>r. uc_hash_key_compare kt kl a b = Inr r \<and>
    (r = 0 \<longleftrightarrow> key_bytes kt kl a = key_bytes kt kl b)"
proof -
  have len: "length (kraw a) = 72" "length (kraw b) = 72"
    using a b by (simp_all add: wf_key_def UC_HASH_KEY_SIZE_def)
  have eq: "((key_word 1 a :: u8) = key_word 1 b) = (take 1 (kraw a) = take 1 (kraw b))"
    "((key_word 2 a :: u16) = key_word 2 b) = (take 2 (kraw a) = take 2 (kraw b))"
    "((key_word 4 a :: u32) = key_word 4 b) = (take 4 (kraw a) = take 4 (kraw b))"
    "((key_word 8 a :: u64) = key_word 8 b) = (take 8 (kraw a) = take 8 (kraw b))"
    by (simp_all add: key_word_eq_iff len)
  show ?thesis
    using kl a b len
    by (cases kt) (auto simp: key_bytes_def eq [simplified] bytes_differ_eq_0_iff
        memcmp_eq_0_iff key_sizes wf_key_def simp flip: word_eq_iff_signed)
qed

lemma uc_hash_key_copy_bytes:
  assumes kl: "uc_cal_key_len kt mkl = Inr kl" and a: "wf_key kt kl a" and b: "wf_key kt kl b"
  shows "\<exists>c. uc_hash_key_copy kt kl a b = Inr c \<and> wf_key kt kl c \<and>
    key_bytes kt kl c = key_bytes kt kl b"
  using assms
  by (cases kt) (auto simp: wf_key_def key_bytes_def overwrite_def key_sizes)

section \<open>The 64-bit keys of the IPC tables\<close>

lemma wf_key_u64 [simp]: "wf_key uc_hash_key_uint64 kl (key_u64 v)"
  by (simp add: wf_key_def key_u64_def UC_HASH_KEY_SIZE_def)

lemma key_bytes_u64: "key_bytes uc_hash_key_uint64 8 (key_u64 v) = le_bytes 8 (unat v)"
  by (simp add: key_bytes_def key_u64_def)

lemma key_bytes_u64_inject [simp]:
  "key_bytes uc_hash_key_uint64 8 (key_u64 v) = key_bytes uc_hash_key_uint64 8 (key_u64 w)
     \<longleftrightarrow> v = w"
proof -
  have "unat v < 256 ^ 8" "unat w < 256 ^ 8"
    using unsigned_less [of v, where 'a = nat] unsigned_less [of w, where 'a = nat] by simp_all
  then show ?thesis
    by (metis key_bytes_u64 le_nat_le_bytes word_unat_eq_iff)
qed

section \<open>Properties\<close>

text \<open>For every key type the comparison answers 0 exactly when the bytes handed to the hash
  function agree, so equal keys hash alike and a key is found again under an equal one.\<close>

theorem uc_hash_key_compare_bytes:
  assumes "uc_cal_key_len kt mkl = Inr kl" "wf_key kt kl a" "wf_key kt kl b"
  shows "\<exists>r ma mb. uc_hash_key_compare kt kl a b = Inr r \<and> uc_cal_key_addr kt a = Inr ma \<and>
    uc_cal_key_addr kt b = Inr mb \<and> (r = 0 \<longleftrightarrow> take kl ma = take kl mb)"
proof -
  have kt: "valid_key_type kt"
    using uc_cal_key_len_valid [OF assms(1)] by simp
  show ?thesis
    using uc_hash_key_compare_iff [OF assms] uc_cal_key_addr_bytes [OF kt, of a kl]
      uc_cal_key_addr_bytes [OF kt, of b kl] by auto
qed

lemma uc_hash_key_compare_bytes_witness:
  "\<exists>r. uc_hash_key_compare uc_hash_key_uint64 8 (key_u64 5) (key_u64 6) = Inr r \<and> r \<noteq> 0"
proof -
  have "take 8 (kraw (key_u64 5)) \<noteq> take 8 (kraw (key_u64 6))"
    using key_bytes_u64_inject [of 5 6] by (simp add: key_bytes_def)
  then show ?thesis
    using uc_hash_key_compare_bytes [of uc_hash_key_uint64 0 8 "key_u64 5" "key_u64 6"] by force
qed

text \<open>Copying a key into a node gives a key the table cannot tell from the original.\<close>

theorem uc_hash_key_copy_equal:
  assumes "uc_cal_key_len kt mkl = Inr kl" "wf_key kt kl a" "wf_key kt kl b"
  shows "\<exists>c. uc_hash_key_copy kt kl a b = Inr c \<and> wf_key kt kl c \<and>
    uc_hash_key_compare kt kl c b = Inr 0"
proof -
  obtain c where c: "uc_hash_key_copy kt kl a b = Inr c" "wf_key kt kl c"
    "key_bytes kt kl c = key_bytes kt kl b"
    using uc_hash_key_copy_bytes [OF assms] by blast
  then show ?thesis
    using uc_hash_key_compare_iff [OF assms(1) c(2) assms(3)] by auto
qed

lemma uc_hash_key_copy_equal_witness:
  "\<exists>c. uc_hash_key_copy uc_hash_key_uint64 8 (key_u64 1) (key_u64 2) = Inr c \<and>
     uc_hash_key_compare uc_hash_key_uint64 8 c (key_u64 2) = Inr 0"
  using uc_hash_key_copy_equal [of uc_hash_key_uint64 0 8 "key_u64 1" "key_u64 2"] by auto

end
