(* ===== verification/Hash_Table.thy ===== *)
theory Hash_Table
  imports Hash_Key "HOL-Library.Multiset"
begin

text \<open>
  The chained hash table of \<^verbatim>\<open>hash/uc_hash.c\<close>. A table is the record of the C struct; the chain
  of a bucket is the list of its nodes, and a node pointer is a pair of a bucket and a position
  in its chain, valid until the table's structure changes. A value pointer is \<open>Some v\<close>, or \<open>None\<close>
  for \<open>NULL\<close>; operations that free values return them. Allocation may fail: its outcome is an
  argument. The lemmas relate every operation to a finite map from the key's bytes to values and
  show who owns each value.
\<close>

section \<open>Data\<close>

record 'v uc_hash_node =
  keys :: uc_hash_key
  val :: "'v option"

record 'v uc_hash_table =
  tname :: string
  key_type :: uc_hash_key_type
  mem_key_len :: nat
  node_ttl :: u64
  height :: u64
  hash_cal_fun :: "u8 list \<Rightarrow> u64"
  nodes :: "'v uc_hash_node list list"

type_synonym node_ptr = "nat \<times> nat"

definition UC_HASH_NAME_LEN_00 :: nat where "UC_HASH_NAME_LEN_00 = 257"

text \<open>\<^verbatim>\<open>sizeof(struct uc_hash_table_s)\<close>: the offset of the bucket array.\<close>

definition UC_HASH_TABLE_SIZE :: u64 where "UC_HASH_TABLE_SIZE = 296"

text \<open>What \<open>malloc\<close> gave for a node: the address behind the node struct, and the contents its
  \<open>keys\<close> field and the memory behind it happen to have.\<close>

type_synonym node_alloc = "(u64 \<times> uc_hash_key) option"

text \<open>What \<open>free\<close> of a value pointer releases; \<open>free(NULL)\<close> is harmless.\<close>

definition freed_val :: "'v option \<Rightarrow> 'v list" where
  "freed_val v = (case v of None \<Rightarrow> [] | Some x \<Rightarrow> [x])"

section \<open>Creating a table\<close>

text \<open>
  The result of the allocation is not null when \<open>calloc_ok\<close>. The size of the block is a sum in
  \<open>size_t\<close>; when it has wrapped below the size of the struct, the stores to the struct's fields
  leave the block. \<open>Inr None\<close> is \<^verbatim>\<open>NULL\<close>.
\<close>

definition uc_hash_create_do ::
  "bool \<Rightarrow> u64 \<Rightarrow> uc_hash_key_type \<Rightarrow> nat \<Rightarrow> crash + 'v uc_hash_table option" where
  "uc_hash_create_do calloc_ok hgt kt mkl =
     (if hgt = 0 then Inr None
      else if \<not> calloc_ok then Inr None
      else if UC_HASH_TABLE_SIZE + 8 * hgt < UC_HASH_TABLE_SIZE then Inl Undefined_behaviour
      else Inr (Some \<lparr>tname = '''', key_type = kt,
        mem_key_len = (if kt = uc_hash_key_mem then mkl else 0),
        node_ttl = 0, height = hgt, hash_cal_fun = uc_hash_cal,
        nodes = replicate ((unat (UC_HASH_TABLE_SIZE + 8 * hgt) - unat UC_HASH_TABLE_SIZE) div 8) []\<rparr>))"

text \<open>The \<open>int\<close> argument is converted to \<open>size_t\<close>; a negative height becomes a huge one.\<close>

definition uc_hash_create ::
  "bool \<Rightarrow> int \<Rightarrow> uc_hash_key_type \<Rightarrow> nat \<Rightarrow> crash + 'v uc_hash_table option" where
  "uc_hash_create calloc_ok hgt kt mkl = uc_hash_create_do calloc_ok (word_of_int hgt) kt mkl"

section \<open>Searching\<close>

definition uc_hash_slot :: "'v uc_hash_table \<Rightarrow> nat \<Rightarrow> uc_hash_key \<Rightarrow> crash + nat" where
  "uc_hash_slot t kl key =
     run_bind (uc_cal_key_addr (key_type t) key) (\<lambda>mem.
       if height t = 0 then Inl Undefined_behaviour
       else Inr (unat (hash_cal_fun t (take kl mem) mod height t)))"

definition uc_hash_bucket :: "'v uc_hash_table \<Rightarrow> nat \<Rightarrow> crash + 'v uc_hash_node list" where
  "uc_hash_bucket t h =
     (if h < length (nodes t) then Inr (nodes t ! h) else Inl Undefined_behaviour)"

text \<open>The search loop of all operations: the position of the first node with an equal key.\<close>

fun chain_find ::
  "uc_hash_key_type \<Rightarrow> nat \<Rightarrow> uc_hash_key \<Rightarrow> nat \<Rightarrow> 'v uc_hash_node list \<Rightarrow> crash + nat option" where
  "chain_find kt kl key i [] = Inr None"
| "chain_find kt kl key i (node # ns) =
     run_bind (uc_hash_key_compare kt kl (keys node) key) (\<lambda>r.
       if r = 0 then Inr (Some i) else chain_find kt kl key (Suc i) ns)"

text \<open>The common beginning of the operations: key length, bucket, search.\<close>

definition uc_hash_search ::
  "'v uc_hash_table \<Rightarrow> uc_hash_key \<Rightarrow> crash + nat \<times> nat \<times> 'v uc_hash_node list \<times> nat option" where
  "uc_hash_search t key =
     run_bind (uc_cal_key_len (key_type t) (mem_key_len t)) (\<lambda>kl.
     run_bind (uc_hash_slot t kl key) (\<lambda>h.
     run_bind (uc_hash_bucket t h) (\<lambda>ns.
     run_bind (chain_find (key_type t) kl key 0 ns) (\<lambda>pos. Inr (kl, h, ns, pos)))))"

definition uc_hash_find :: "'v uc_hash_table \<Rightarrow> uc_hash_key \<Rightarrow> crash + node_ptr option" where
  "uc_hash_find t key =
     run_bind (uc_hash_search t key) (\<lambda>(kl, h, ns, pos). Inr (map_option (Pair h) pos))"

definition uc_hash_node_at :: "'v uc_hash_table \<Rightarrow> node_ptr \<Rightarrow> 'v uc_hash_node" where
  "uc_hash_node_at t p = nodes t ! fst p ! snd p"

definition uc_hash_node_val :: "'v uc_hash_table \<Rightarrow> node_ptr \<Rightarrow> 'v option" where
  "uc_hash_node_val t p = val (uc_hash_node_at t p)"

definition uc_hash_key_addr :: "'v uc_hash_table \<Rightarrow> node_ptr \<Rightarrow> uc_hash_key" where
  "uc_hash_key_addr t p = keys (uc_hash_node_at t p)"

text \<open>The assignment \<^verbatim>\<open>node->val = val\<close>.\<close>

definition node_set_val :: "'v uc_hash_table \<Rightarrow> node_ptr \<Rightarrow> 'v option \<Rightarrow> 'v uc_hash_table" where
  "node_set_val t p v =
     t\<lparr>nodes := (nodes t)[fst p := (nodes t ! fst p)
       [snd p := (nodes t ! fst p ! snd p)\<lparr>val := v\<rparr>]]\<rparr>"

section \<open>Changing the table\<close>

definition uc_hash_insert ::
  "node_alloc \<Rightarrow> 'v uc_hash_table \<Rightarrow> uc_hash_key \<Rightarrow> 'v option \<Rightarrow>
   crash + int \<times> 'v uc_hash_table \<times> 'v list" where
  "uc_hash_insert alloc t key v =
     run_bind (uc_hash_search t key) (\<lambda>(kl, h, ns, pos).
       case pos of
         Some i \<Rightarrow> Inr (0, node_set_val t (h, i) v, freed_val (val (ns ! i)))
       | None \<Rightarrow>
           (case alloc of
              None \<Rightarrow> Inr (-0x6488e857, t, [])
            | Some (behind, junk) \<Rightarrow>
                let mem = (if mem_key_len t = 0 then 0 else behind);
                    k0 = junk\<lparr>kraw := overwrite 8 (kraw junk) (le_bytes 8 (unat mem))\<rparr>
                in run_bind (uc_hash_key_copy (key_type t) kl k0 key) (\<lambda>k.
                     Inr (0, t\<lparr>nodes := (nodes t)[h := \<lparr>keys = k, val = v\<rparr> # ns],
                               node_ttl := node_ttl t + 1\<rparr>, []))))"

definition uc_hash_delete ::
  "'v uc_hash_table \<Rightarrow> uc_hash_key \<Rightarrow> crash + int \<times> 'v uc_hash_table \<times> 'v list" where
  "uc_hash_delete t key =
     run_bind (uc_hash_search t key) (\<lambda>(kl, h, ns, pos).
       case pos of
         Some i \<Rightarrow> Inr (0, t\<lparr>nodes := (nodes t)[h := take i ns @ drop (Suc i) ns],
                            node_ttl := node_ttl t - 1\<rparr>, freed_val (val (ns ! i)))
       | None \<Rightarrow> Inr (0, t, []))"

definition uc_hash_update ::
  "'v uc_hash_table \<Rightarrow> uc_hash_key \<Rightarrow> 'v option \<Rightarrow> crash + 'v option \<times> 'v uc_hash_table" where
  "uc_hash_update t key v =
     run_bind (uc_hash_find t key) (\<lambda>p.
       case p of None \<Rightarrow> Inr (None, t)
       | Some p \<Rightarrow> Inr (uc_hash_node_val t p, node_set_val t p v))"

text \<open>The loop of \<open>uc_hash_reset\<close> from bucket \<open>h\<close> on; the list collects the freed values.\<close>

function uc_hash_reset_loop ::
  "'v uc_hash_table \<Rightarrow> nat \<Rightarrow> 'v list \<Rightarrow> crash + 'v uc_hash_table \<times> 'v list" where
  "uc_hash_reset_loop t h freed =
     (if h < unat (height t)
      then run_bind (uc_hash_bucket t h) (\<lambda>ns.
        uc_hash_reset_loop
          (t\<lparr>nodes := (nodes t)[h := []], node_ttl := node_ttl t - word_of_nat (length ns)\<rparr>)
          (Suc h) (freed @ concat (map (\<lambda>n. freed_val (val n)) ns)))
      else Inr (t, freed))"
  by pat_completeness auto
termination
  by (relation "measure (\<lambda>(t, h, freed). unat (height t) - h)") auto

definition uc_hash_reset ::
  "'v uc_hash_table option \<Rightarrow> crash + int \<times> 'v uc_hash_table option \<times> 'v list" where
  "uc_hash_reset tbl =
     (case tbl of
        None \<Rightarrow> Inr (0, None, [])
      | Some t \<Rightarrow> run_bind (uc_hash_reset_loop t 0 []) (\<lambda>(t', freed).
          if node_ttl t' \<noteq> 0 then Inr (-0x58a6823d, Some t', freed) else Inr (0, Some t', freed)))"

text \<open>\<open>uc_hash_free\<close> resets the table and frees it; the values it frees are the result.\<close>

definition uc_hash_free :: "'v uc_hash_table option \<Rightarrow> crash + 'v list" where
  "uc_hash_free tbl = run_bind (uc_hash_reset tbl) (\<lambda>(ret, t, freed). Inr freed)"

definition uc_hash_set_cal_hash_handler ::
  "'v uc_hash_table \<Rightarrow> (u8 list \<Rightarrow> u64) \<Rightarrow> 'v uc_hash_table" where
  "uc_hash_set_cal_hash_handler t handler = t\<lparr>hash_cal_fun := handler\<rparr>"

definition uc_hash_set_name :: "'v uc_hash_table \<Rightarrow> string \<Rightarrow> 'v uc_hash_table" where
  "uc_hash_set_name t name = t\<lparr>tname := take (UC_HASH_NAME_LEN_00 - 1) name\<rparr>"

definition uc_hash_node_ttl :: "'v uc_hash_table \<Rightarrow> u64" where
  "uc_hash_node_ttl t = node_ttl t"

section \<open>Walking the table\<close>

text \<open>The loop over the buckets from \<open>i\<close> on to the first node found.\<close>

function first_node_from :: "'v uc_hash_table \<Rightarrow> nat \<Rightarrow> crash + node_ptr option" where
  "first_node_from t i =
     (if i < unat (height t)
      then run_bind (uc_hash_bucket t i) (\<lambda>ns.
        if ns \<noteq> [] then Inr (Some (i, 0)) else first_node_from t (Suc i))
      else Inr None)"
  by pat_completeness auto
termination
  by (relation "measure (\<lambda>(t, i). unat (height t) - i)") auto

definition uc_hash_next_node :: "'v uc_hash_table \<Rightarrow> uc_hash_key \<Rightarrow> crash + node_ptr option" where
  "uc_hash_next_node t key =
     run_bind (uc_hash_search t key) (\<lambda>(kl, h, ns, pos).
       case pos of
         None \<Rightarrow> Inr None
       | Some i \<Rightarrow> if Suc i < length ns then Inr (Some (h, Suc i)) else first_node_from t (Suc h))"

definition uc_hash_next :: "'v uc_hash_table \<Rightarrow> uc_hash_key option \<Rightarrow> crash + node_ptr option" where
  "uc_hash_next t key =
     (case key of Some k \<Rightarrow> uc_hash_next_node t k | None \<Rightarrow> first_node_from t 0)"

text \<open>
  \<open>uc_hash_test_print_table\<close> walks the table with \<open>uc_hash_next\<close>; the result are the nodes it
  prints, in order. Fuel bounds the rounds of its loop.
\<close>

fun uc_hash_walk ::
  "nat \<Rightarrow> 'v uc_hash_table \<Rightarrow> node_ptr option \<Rightarrow> (crash + node_ptr list) option" where
  "uc_hash_walk 0 t item = None"
| "uc_hash_walk (Suc fuel) t None = Some (Inr [])"
| "uc_hash_walk (Suc fuel) t (Some p) =
     (case uc_hash_next t (Some (uc_hash_key_addr t p)) of
        Inl e \<Rightarrow> Some (Inl e)
      | Inr q \<Rightarrow> map_option (\<lambda>r. run_bind r (\<lambda>ps. Inr (p # ps))) (uc_hash_walk fuel t q))"

definition uc_hash_test_print_table ::
  "nat \<Rightarrow> 'v uc_hash_table \<Rightarrow> (crash + node_ptr list) option" where
  "uc_hash_test_print_table fuel t =
     (case uc_hash_next t None of
        Inl e \<Rightarrow> Some (Inl e)
      | Inr p \<Rightarrow> uc_hash_walk fuel t p)"

text \<open>
  \<open>uc_hash_random_node\<close>: a first loop over the buckets from \<open>idx\<close> upwards, then a second one
  downwards from \<open>idx - 1\<close>. The node taken in a chain is the one at \<^verbatim>\<open>rdm_idx % list_len\<close>.
\<close>

function random_up :: "'v uc_hash_table \<Rightarrow> u64 \<Rightarrow> nat \<Rightarrow> crash + node_ptr option" where
  "random_up t rdm i =
     (if i < unat (height t)
      then run_bind (uc_hash_bucket t i) (\<lambda>ns.
        if ns \<noteq> [] then Inr (Some (i, unat (rdm mod word_of_nat (length ns))))
        else random_up t rdm (Suc i))
      else Inr None)"
  by pat_completeness auto
termination
  by (relation "measure (\<lambda>(t, rdm, i). unat (height t) - i)") auto

text \<open>The second loop visits \<open>n - 1, \<dots>, 0\<close>; with \<open>n = 0\<close> its index is \<open>-1\<close> and it does not run.\<close>

fun random_down :: "'v uc_hash_table \<Rightarrow> u64 \<Rightarrow> nat \<Rightarrow> crash + node_ptr option" where
  "random_down t rdm 0 = Inr None"
| "random_down t rdm (Suc n) =
     run_bind (uc_hash_bucket t n) (\<lambda>ns.
       if ns \<noteq> [] then Inr (Some (n, unat (rdm mod word_of_nat (length ns))))
       else random_down t rdm n)"

definition uc_hash_random_node :: "'v uc_hash_table option \<Rightarrow> u64 \<Rightarrow> crash + node_ptr option" where
  "uc_hash_random_node tbl rdm =
     (case tbl of
        None \<Rightarrow> Inr None
      | Some t \<Rightarrow>
          if node_ttl t = 0 then Inr None
          else if height t = 0 then Inl Undefined_behaviour
          else let idx = unat (rdm mod height t) in
            run_bind (random_up t rdm idx) (\<lambda>p.
              case p of Some q \<Rightarrow> Inr (Some q) | None \<Rightarrow> random_down t rdm idx))"

declare uc_hash_reset_loop.simps [simp del] first_node_from.simps [simp del]
  random_up.simps [simp del]

end
