(* ===== verification/Hash_Map.thy ===== *)
theory Hash_Map
  imports Hash_Table
begin

text \<open>
  The hash table as a finite map. \<open>hash_inv\<close> is the invariant of a table: every node lies in the
  bucket its key hashes to, no chain holds two nodes with the same key bytes, and the counter is
  the number of nodes. \<open>hash_map\<close> is the map from key bytes to value pointers a table stands for.
  Every operation keeps the invariant and acts on the map as its name says; the locale
  \<open>keyed_store\<close> states that contract for the clients and is interpreted on the 64-bit keyed
  tables of the IPC component.
\<close>

section \<open>Invariant and abstraction\<close>

definition tbl_key_len :: "'v uc_hash_table \<Rightarrow> nat" where
  "tbl_key_len t =
     (case uc_cal_key_len (key_type t) (mem_key_len t) of Inr kl \<Rightarrow> kl | Inl _ \<Rightarrow> 0)"

definition tbl_wf_key :: "'v uc_hash_table \<Rightarrow> uc_hash_key \<Rightarrow> bool" where
  "tbl_wf_key t k = wf_key (key_type t) (tbl_key_len t) k"

definition kb :: "'v uc_hash_table \<Rightarrow> uc_hash_key \<Rightarrow> u8 list" where
  "kb t k = key_bytes (key_type t) (tbl_key_len t) k"

text \<open>The bucket of a byte string.\<close>

definition slot_of :: "'v uc_hash_table \<Rightarrow> u8 list \<Rightarrow> nat" where
  "slot_of t b = unat (hash_cal_fun t b mod height t)"

definition entry :: "'v uc_hash_table \<Rightarrow> 'v uc_hash_node \<Rightarrow> u8 list \<times> 'v option" where
  "entry t n = (kb t (keys n), val n)"

definition chain_ok :: "'v uc_hash_table \<Rightarrow> nat \<Rightarrow> 'v uc_hash_node list \<Rightarrow> bool" where
  "chain_ok t i ns \<longleftrightarrow>
     (\<forall>n\<in>set ns. tbl_wf_key t (keys n) \<and> slot_of t (kb t (keys n)) = i) \<and>
     distinct (map (\<lambda>n. kb t (keys n)) ns)"

definition hash_inv :: "'v uc_hash_table \<Rightarrow> bool" where
  "hash_inv t \<longleftrightarrow>
     valid_key_type (key_type t) \<and> height t \<noteq> 0 \<and> length (nodes t) = unat (height t) \<and>
     (\<forall>i<length (nodes t). chain_ok t i (nodes t ! i)) \<and>
     node_ttl t = word_of_nat (length (concat (nodes t)))"

definition hash_map :: "'v uc_hash_table \<Rightarrow> u8 list \<Rightarrow> 'v option option" where
  "hash_map t = map_of (map (entry t) (concat (nodes t)))"

lemma fst_entry [simp]: "fst (entry t n) = kb t (keys n)"
  by (simp add: entry_def)

lemma snd_entry [simp]: "snd (entry t n) = val n"
  by (simp add: entry_def)

lemma tbl_key_len_eq: "hash_inv t \<Longrightarrow> uc_cal_key_len (key_type t) (mem_key_len t) = Inr (tbl_key_len t)"
  using uc_cal_key_len_total [of "key_type t" "mem_key_len t"]
  by (auto simp: hash_inv_def tbl_key_len_def)

lemma hash_inv_chain: "hash_inv t \<Longrightarrow> i < length (nodes t) \<Longrightarrow> chain_ok t i (nodes t ! i)"
  by (simp add: hash_inv_def)

lemma slot_of_less: "hash_inv t \<Longrightarrow> slot_of t b < length (nodes t)"
  by (simp add: hash_inv_def slot_of_def word_mod_less_divisor unat_mono word_neq_0_conv)

lemma length_nodes_le: "hash_inv t \<Longrightarrow> length (nodes t) < 2 ^ 64"
  by (simp add: hash_inv_def) (rule order_less_le_trans [OF unsigned_less], simp)

text \<open>A node pointer of the table: a bucket and a position in its chain.\<close>

definition valid_ptr :: "'v uc_hash_table \<Rightarrow> node_ptr \<Rightarrow> bool" where
  "valid_ptr t p \<longleftrightarrow> fst p < length (nodes t) \<and> snd p < length (nodes t ! fst p)"

lemma valid_ptr_in_set: "valid_ptr t p \<Longrightarrow> uc_hash_node_at t p \<in> set (concat (nodes t))"
  by (auto simp: valid_ptr_def uc_hash_node_at_def intro!: bexI [of _ "nodes t ! fst p"])

section \<open>One bucket decides\<close>

lemma map_of_concat_bucket:
  assumes "i < length xss"
    and "\<And>j. j < length xss \<Longrightarrow> j \<noteq> i \<Longrightarrow> b \<notin> fst ` set (xss ! j)"
  shows "map_of (concat xss) b = map_of (xss ! i) b"
  using assms
proof (induction xss arbitrary: i)
  case Nil
  then show ?case by simp
next
  case (Cons xs xss)
  show ?case
  proof (cases i)
    case 0
    have "b \<notin> fst ` set (concat xss)"
      using Cons.prems(2) [of "Suc _"] 0 by (force simp: in_set_conv_nth)
    then have "map_of (concat xss) b = None"
      by (simp add: map_of_eq_None_iff)
    then show ?thesis
      using 0 by (simp add: map_add_def split: option.splits)
  next
    case (Suc k)
    have "b \<notin> fst ` set xs"
      using Cons.prems(2) [of 0] Suc by simp
    then have "map_of xs b = None"
      by (simp add: map_of_eq_None_iff)
    moreover have "map_of (concat xss) b = map_of (xss ! k) b"
      using Cons.prems(2) [of "Suc _"] Cons.prems(1) Suc by (intro Cons.IH) auto
    ultimately show ?thesis
      using Suc by (simp add: map_add_def split: option.splits)
  qed
qed

lemma hash_map_slot:
  assumes "hash_inv t"
  shows "hash_map t b = map_of (map (entry t) (nodes t ! slot_of t b)) b"
proof -
  have "b \<notin> fst ` set (map (map (entry t)) (nodes t) ! j)"
    if "j < length (nodes t)" "j \<noteq> slot_of t b" for j
    using hash_inv_chain [OF assms that(1)] that by (auto simp: chain_ok_def)
  then show ?thesis
    using map_of_concat_bucket [of "slot_of t b" "map (map (entry t)) (nodes t)" b]
      slot_of_less [OF assms, of b]
    by (simp add: hash_map_def map_concat)
qed

section \<open>The search\<close>

lemma chain_find_spec:
  assumes kl: "uc_cal_key_len kt mkl = Inr kl" and key: "wf_key kt kl key"
    and ns: "\<forall>n\<in>set ns. wf_key kt kl (keys n)"
  shows "\<exists>pos. chain_find kt kl key i ns = Inr pos \<and>
    (case pos of
       None \<Rightarrow> key_bytes kt kl key \<notin> (\<lambda>n. key_bytes kt kl (keys n)) ` set ns
     | Some j \<Rightarrow> i \<le> j \<and> j - i < length ns \<and>
         key_bytes kt kl (keys (ns ! (j - i))) = key_bytes kt kl key)"
  using ns
proof (induction ns arbitrary: i)
  case Nil
  then show ?case by simp
next
  case (Cons n ns)
  obtain r where r: "uc_hash_key_compare kt kl (keys n) key = Inr r"
    "r = 0 \<longleftrightarrow> key_bytes kt kl (keys n) = key_bytes kt kl key"
    using uc_hash_key_compare_iff [OF kl _ key, of "keys n"] Cons.prems by auto
  obtain pos where pos: "chain_find kt kl key (Suc i) ns = Inr pos"
    "case pos of
       None \<Rightarrow> key_bytes kt kl key \<notin> (\<lambda>n. key_bytes kt kl (keys n)) ` set ns
     | Some j \<Rightarrow> Suc i \<le> j \<and> j - Suc i < length ns \<and>
         key_bytes kt kl (keys (ns ! (j - Suc i))) = key_bytes kt kl key"
    using Cons.IH [of "Suc i"] Cons.prems by auto
  show ?case
  proof (cases "r = 0")
    case True
    with r show ?thesis by simp
  next
    case False
    with r pos show ?thesis
      by (auto split: option.splits simp: nth_Cons' Suc_diff_le)
  qed
qed

text \<open>What the beginning of an operation finds out: the bucket of the key, and where in its chain
  the key's node is, if there is one.\<close>

lemma uc_hash_search_spec:
  assumes inv: "hash_inv t" and key: "tbl_wf_key t key"
  obtains pos where
    "uc_hash_search t key =
       Inr (tbl_key_len t, slot_of t (kb t key), nodes t ! slot_of t (kb t key), pos)"
    "pos = None \<Longrightarrow> hash_map t (kb t key) = None"
    "\<And>i. pos = Some i \<Longrightarrow> valid_ptr t (slot_of t (kb t key), i) \<and>
       kb t (keys (nodes t ! slot_of t (kb t key) ! i)) = kb t key \<and>
       hash_map t (kb t key) = Some (val (nodes t ! slot_of t (kb t key) ! i))"
proof -
  let ?kt = "key_type t" and ?kl = "tbl_key_len t" and ?h = "slot_of t (kb t key)"
  let ?ns = "nodes t ! ?h"
  note kl = tbl_key_len_eq [OF inv]
  have ok: "chain_ok t ?h ?ns"
    by (rule hash_inv_chain [OF inv slot_of_less [OF inv]])
  have "valid_key_type ?kt" "height t \<noteq> 0"
    using inv by (simp_all add: hash_inv_def)
  then have slot: "uc_hash_slot t ?kl key = Inr ?h"
    using uc_cal_key_addr_bytes [of ?kt key ?kl]
    by (auto simp: uc_hash_slot_def slot_of_def kb_def)
  have bucket: "uc_hash_bucket t ?h = Inr ?ns"
    using slot_of_less [OF inv] by (simp add: uc_hash_bucket_def)
  obtain pos where pos: "chain_find ?kt ?kl key 0 ?ns = Inr pos"
    "case pos of None \<Rightarrow> kb t key \<notin> (\<lambda>n. kb t (keys n)) ` set ?ns
     | Some j \<Rightarrow> j < length ?ns \<and> kb t (keys (?ns ! j)) = kb t key"
    using chain_find_spec [OF kl, of key ?ns 0] key ok
    by (auto simp: tbl_wf_key_def chain_ok_def kb_def split: option.splits)
  show ?thesis
  proof (rule that)
    show "uc_hash_search t key = Inr (?kl, ?h, ?ns, pos)"
      by (simp add: uc_hash_search_def kl slot bucket pos)
    show "hash_map t (kb t key) = None" if "pos = None"
      using pos(2) that by (auto simp: hash_map_slot [OF inv] map_of_eq_None_iff image_iff)
    show "valid_ptr t (?h, i) \<and> kb t (keys (?ns ! i)) = kb t key \<and>
        hash_map t (kb t key) = Some (val (?ns ! i))" if "pos = Some i" for i
    proof -
      have i: "i < length ?ns" "kb t (keys (?ns ! i)) = kb t key"
        using pos(2) that by simp_all
      have "distinct (map fst (map (entry t) ?ns))"
        using ok by (simp add: chain_ok_def comp_def)
      moreover have "(kb t key, val (?ns ! i)) \<in> set (map (entry t) ?ns)"
        using i by (force simp: entry_def in_set_conv_nth)
      ultimately have "hash_map t (kb t key) = Some (val (?ns ! i))"
        by (simp add: hash_map_slot [OF inv])
      with i show ?thesis
        using slot_of_less [OF inv] by (simp add: valid_ptr_def)
    qed
  qed
qed

lemma uc_hash_find_spec:
  assumes inv: "hash_inv t" and key: "tbl_wf_key t key"
  shows "case hash_map t (kb t key) of
      None \<Rightarrow> uc_hash_find t key = Inr None
    | Some v \<Rightarrow> \<exists>p. uc_hash_find t key = Inr (Some p) \<and> valid_ptr t p \<and>
        kb t (uc_hash_key_addr t p) = kb t key \<and> uc_hash_node_val t p = v"
proof -
  obtain pos where pos: "uc_hash_search t key =
       Inr (tbl_key_len t, slot_of t (kb t key), nodes t ! slot_of t (kb t key), pos)"
    "pos = None \<Longrightarrow> hash_map t (kb t key) = None"
    "\<And>i. pos = Some i \<Longrightarrow> valid_ptr t (slot_of t (kb t key), i) \<and>
       kb t (keys (nodes t ! slot_of t (kb t key) ! i)) = kb t key \<and>
       hash_map t (kb t key) = Some (val (nodes t ! slot_of t (kb t key) ! i))"
    using uc_hash_search_spec [OF inv key] by blast
  then show ?thesis
    by (cases pos) (auto simp: uc_hash_find_def uc_hash_key_addr_def uc_hash_node_val_def
        uc_hash_node_at_def)
qed

section \<open>Changing one bucket\<close>

definition set_bucket ::
  "'v uc_hash_table \<Rightarrow> nat \<Rightarrow> 'v uc_hash_node list \<Rightarrow> u64 \<Rightarrow> 'v uc_hash_table" where
  "set_bucket t h ns c = t\<lparr>nodes := (nodes t)[h := ns], node_ttl := c\<rparr>"

lemma set_bucket_simps [hash_simps]:
  "key_type (set_bucket t h ns c) = key_type t"
  "mem_key_len (set_bucket t h ns c) = mem_key_len t"
  "height (set_bucket t h ns c) = height t"
  "hash_cal_fun (set_bucket t h ns c) = hash_cal_fun t"
  "node_ttl (set_bucket t h ns c) = c"
  "nodes (set_bucket t h ns c) = (nodes t)[h := ns]"
  "tbl_key_len (set_bucket t h ns c) = tbl_key_len t"
  "kb (set_bucket t h ns c) = kb t"
  "slot_of (set_bucket t h ns c) = slot_of t"
  "entry (set_bucket t h ns c) = entry t"
  "tbl_wf_key (set_bucket t h ns c) = tbl_wf_key t"
  "chain_ok (set_bucket t h ns c) = chain_ok t"
  by (simp_all add: set_bucket_def tbl_key_len_def kb_def slot_of_def entry_def tbl_wf_key_def
      chain_ok_def fun_eq_iff)

lemma length_concat_update:
  "h < length xss \<Longrightarrow>
   length (concat (xss[h := ys])) + length (xss ! h) = length (concat xss) + length ys"
proof (induction xss arbitrary: h)
  case Nil
  then show ?case by simp
next
  case (Cons xs xss)
  then show ?case by (cases h) auto
qed

lemma set_bucket_inv:
  assumes inv: "hash_inv t" and h: "h < length (nodes t)" and ok: "chain_ok t h ns"
    and c: "c + word_of_nat (length (nodes t ! h)) = node_ttl t + word_of_nat (length ns)"
  shows "hash_inv (set_bucket t h ns c)"
proof -
  have "word_of_nat (length (concat ((nodes t)[h := ns]))) + word_of_nat (length (nodes t ! h)) =
      node_ttl t + (word_of_nat (length ns) :: u64)"
    using arg_cong [OF length_concat_update [OF h, of ns], of "word_of_nat :: nat \<Rightarrow> u64"] inv
    by (simp add: hash_inv_def del: length_concat)
  then have "c = word_of_nat (length (concat ((nodes t)[h := ns])))"
    using c by (metis add_right_cancel)
  moreover have "chain_ok t i ((nodes t)[h := ns] ! i)" if "i < length (nodes t)" for i
    using hash_inv_chain [OF inv that] ok that by (cases "i = h") auto
  ultimately show ?thesis
    using inv by (simp add: hash_inv_def hash_simps)
qed

lemma set_bucket_map:
  assumes inv: "hash_inv t" and inv': "hash_inv (set_bucket t h ns c)" and h: "h < length (nodes t)"
  shows "hash_map (set_bucket t h ns c) b =
    (if slot_of t b = h then map_of (map (entry t) ns) b else hash_map t b)"
  using h by (simp add: hash_map_slot [OF inv'] hash_map_slot [OF inv] hash_simps)

text \<open>In a chain without duplicates, the map changes at the changed key only.\<close>

lemma map_of_list_update:
  assumes "distinct (map fst xs)" "i < length xs"
  shows "map_of (xs[i := (fst (xs ! i), v)]) = (map_of xs)(fst (xs ! i) \<mapsto> v)"
proof -
  have split: "xs = take i xs @ xs ! i # drop (Suc i) xs"
    using assms(2) by (simp add: id_take_nth_drop)
  have "distinct (map fst (take i xs @ xs ! i # drop (Suc i) xs))"
    using assms(1) split by simp
  then have none: "map_of (take i xs) (fst (xs ! i)) = None"
    by (auto simp: map_of_eq_None_iff)
  have "map_of xs = map_of (take i xs @ xs ! i # drop (Suc i) xs)"
    using split by simp
  then show ?thesis
    using none assms(2) by (cases "xs ! i")
      (auto simp: upd_conv_take_nth_drop fun_eq_iff map_add_def split: option.splits)
qed

lemma map_of_remove_nth:
  assumes "distinct (map fst xs)" "i < length xs"
  shows "map_of (take i xs @ drop (Suc i) xs) = (map_of xs)(fst (xs ! i) := None)"
proof -
  have split: "xs = take i xs @ xs ! i # drop (Suc i) xs"
    using assms(2) by (simp add: id_take_nth_drop)
  have "distinct (map fst (take i xs @ xs ! i # drop (Suc i) xs))"
    using assms(1) split by simp
  then have "fst (xs ! i) \<notin> fst ` set (take i xs)" "fst (xs ! i) \<notin> fst ` set (drop (Suc i) xs)"
    by auto
  then have none: "map_of (take i xs) (fst (xs ! i)) = None"
    "map_of (drop (Suc i) xs) (fst (xs ! i)) = None"
    by (simp_all add: map_of_eq_None_iff)
  have "map_of xs = map_of (take i xs @ xs ! i # drop (Suc i) xs)"
    using split by simp
  then show ?thesis
    using none by (cases "xs ! i") (auto simp: fun_eq_iff map_add_def split: option.splits)
qed

text \<open>The fields no operation but the creation and the setters write.\<close>

definition same_shape :: "'v uc_hash_table \<Rightarrow> 'v uc_hash_table \<Rightarrow> bool" where
  "same_shape t t' \<longleftrightarrow>
     tname t' = tname t \<and> key_type t' = key_type t \<and> mem_key_len t' = mem_key_len t \<and>
     height t' = height t \<and> hash_cal_fun t' = hash_cal_fun t"

lemma same_shape_set_bucket [simp]: "same_shape t (set_bucket t h ns c)"
  by (simp add: same_shape_def set_bucket_def)

lemma same_shape_refl [simp]: "same_shape t t"
  by (simp add: same_shape_def)

lemma same_shape_kb: "same_shape t t' \<Longrightarrow> kb t' = kb t \<and> tbl_wf_key t' = tbl_wf_key t"
  by (simp add: same_shape_def kb_def tbl_key_len_def tbl_wf_key_def fun_eq_iff)

lemma node_set_val_bucket:
  "node_set_val t p v =
     set_bucket t (fst p) ((nodes t ! fst p)[snd p := (nodes t ! fst p ! snd p)\<lparr>val := v\<rparr>])
       (node_ttl t)"
  by (simp add: node_set_val_def set_bucket_def)

lemma entry_set_val [simp]: "entry t (n\<lparr>val := v\<rparr>) = (kb t (keys n), v)"
  by (simp add: entry_def)

lemma chain_ok_keys:
  "map keys ns = map keys ns' \<Longrightarrow> chain_ok t i ns = chain_ok t i ns'"
proof -
  have "chain_ok t i ns \<longleftrightarrow>
      (\<forall>k\<in>set (map keys ns). tbl_wf_key t k \<and> slot_of t (kb t k) = i) \<and>
      distinct (map (kb t) (map keys ns))" for ns
    by (simp add: chain_ok_def comp_def)
  then show "map keys ns = map keys ns' \<Longrightarrow> chain_ok t i ns = chain_ok t i ns'"
    by presburger
qed

lemma node_set_val_spec:
  assumes inv: "hash_inv t" and p: "valid_ptr t p"
  shows "hash_inv (node_set_val t p v)"
    and "hash_map (node_set_val t p v) = (hash_map t)(kb t (keys (uc_hash_node_at t p)) \<mapsto> v)"
    and "same_shape t (node_set_val t p v)"
proof -
  let ?h = "fst p" and ?i = "snd p" and ?ns = "nodes t ! fst p"
  let ?ns' = "?ns[?i := (?ns ! ?i)\<lparr>val := v\<rparr>]"
  have h: "?h < length (nodes t)" and i: "?i < length ?ns"
    using p by (simp_all add: valid_ptr_def)
  have ok: "chain_ok t ?h ?ns"
    by (rule hash_inv_chain [OF inv h])
  have "map keys ?ns' = map keys ?ns"
    by (simp add: map_update list_update_same_conv i)
  then have ok': "chain_ok t ?h ?ns'"
    using ok chain_ok_keys by blast
  show inv': "hash_inv (node_set_val t p v)"
    unfolding node_set_val_bucket by (rule set_bucket_inv [OF inv h ok']) simp
  have "map (entry t) ?ns' = (map (entry t) ?ns)[?i := (fst (map (entry t) ?ns ! ?i), v)]"
    by (simp add: map_update i)
  moreover have "distinct (map fst (map (entry t) ?ns))"
    using ok by (simp add: chain_ok_def comp_def)
  ultimately have "map_of (map (entry t) ?ns') =
      (map_of (map (entry t) ?ns))(kb t (keys (?ns ! ?i)) \<mapsto> v)"
    using map_of_list_update [of "map (entry t) ?ns" ?i v] i by simp
  moreover have "slot_of t (kb t (keys (?ns ! ?i))) = ?h"
    using ok i by (simp add: chain_ok_def)
  ultimately show "hash_map (node_set_val t p v) =
      (hash_map t)(kb t (keys (uc_hash_node_at t p)) \<mapsto> v)"
    using set_bucket_map [OF inv inv' [unfolded node_set_val_bucket] h]
    by (auto simp: node_set_val_bucket fun_eq_iff uc_hash_node_at_def hash_map_slot [OF inv])
  show "same_shape t (node_set_val t p v)"
    by (simp add: node_set_val_bucket)
qed

section \<open>Insert, update, delete\<close>

text \<open>What a successful \<open>malloc\<close> of a node must provide: a whole union and the key memory.\<close>

definition node_alloc_ok :: "'v uc_hash_table \<Rightarrow> node_alloc \<Rightarrow> bool" where
  "node_alloc_ok t alloc \<longleftrightarrow>
     (case alloc of None \<Rightarrow> False | Some (behind, junk) \<Rightarrow> tbl_wf_key t junk)"

lemma cons_bucket_spec:
  fixes t :: "'v uc_hash_table" and v :: "'v option"
  assumes inv: "hash_inv t" and k: "tbl_wf_key t k" and none: "hash_map t (kb t k) = None"
    and h: "h = slot_of t (kb t k)"
  defines "t' \<equiv> set_bucket t h (\<lparr>keys = k, val = v\<rparr> # nodes t ! h) (node_ttl t + 1)"
  shows "hash_inv t' \<and> hash_map t' = (hash_map t)(kb t k \<mapsto> v)"
proof -
  have h_less: "h < length (nodes t)"
    unfolding h by (rule slot_of_less [OF inv])
  have "kb t k \<notin> (\<lambda>n. kb t (keys n)) ` set (nodes t ! h)"
    using none by (auto simp: hash_map_slot [OF inv] map_of_eq_None_iff h image_iff)
  then have ok: "chain_ok t h (\<lparr>keys = k, val = v\<rparr> # nodes t ! h)"
    using hash_inv_chain [OF inv h_less] k h by (auto simp: chain_ok_def)
  then have inv': "hash_inv t'"
    unfolding t'_def by (intro set_bucket_inv [OF inv h_less]) simp_all
  have "hash_map t' b = ((hash_map t)(kb t k \<mapsto> v)) b" for b
    using set_bucket_map [OF inv inv' [unfolded t'_def] h_less, of b] h
    by (auto simp: t'_def entry_def hash_map_slot [OF inv])
  with inv' show ?thesis
    by blast
qed

lemma uc_hash_insert_spec:
  assumes inv: "hash_inv t" and key: "tbl_wf_key t key"
    and alloc: "hash_map t (kb t key) = None \<Longrightarrow> node_alloc_ok t alloc"
  shows "\<exists>t'. uc_hash_insert alloc t key v =
      Inr (0, t', case hash_map t (kb t key) of None \<Rightarrow> [] | Some old \<Rightarrow> freed_val old) \<and>
    hash_inv t' \<and> hash_map t' = (hash_map t)(kb t key \<mapsto> v) \<and> same_shape t t'"
proof -
  let ?h = "slot_of t (kb t key)"
  obtain pos where pos: "uc_hash_search t key = Inr (tbl_key_len t, ?h, nodes t ! ?h, pos)"
    "pos = None \<Longrightarrow> hash_map t (kb t key) = None"
    "\<And>i. pos = Some i \<Longrightarrow> valid_ptr t (?h, i) \<and> kb t (keys (nodes t ! ?h ! i)) = kb t key \<and>
       hash_map t (kb t key) = Some (val (nodes t ! ?h ! i))"
    using uc_hash_search_spec [OF inv key] by blast
  show ?thesis
  proof (cases pos)
    case (Some i)
    with pos(3) have "valid_ptr t (?h, i)" "kb t (keys (uc_hash_node_at t (?h, i))) = kb t key"
      "hash_map t (kb t key) = Some (val (nodes t ! ?h ! i))"
      by (simp_all add: uc_hash_node_at_def)
    then show ?thesis
      using node_set_val_spec [OF inv, of "(?h, i)" v] pos(1) Some
      by (simp add: uc_hash_insert_def)
  next
    case None
    then have none: "hash_map t (kb t key) = None"
      by (rule pos(2))
    obtain behind junk where a: "alloc = Some (behind, junk)" "tbl_wf_key t junk"
      using alloc [OF none] by (auto simp: node_alloc_ok_def split: option.splits)
    define k0 where "k0 = junk\<lparr>kraw := overwrite 8 (kraw junk)
        (le_bytes 8 (unat (if mem_key_len t = 0 then 0 else behind)))\<rparr>"
    have "wf_key (key_type t) (tbl_key_len t) k0"
      using a(2) by (simp add: k0_def tbl_wf_key_def wf_key_def overwrite_def UC_HASH_KEY_SIZE_def)
    then obtain k where k: "uc_hash_key_copy (key_type t) (tbl_key_len t) k0 key = Inr k"
      "tbl_wf_key t k" "kb t k = kb t key"
      using uc_hash_key_copy_bytes [OF tbl_key_len_eq [OF inv], of k0 key] key
      by (auto simp: tbl_wf_key_def kb_def)
    let ?t' = "set_bucket t ?h (\<lparr>keys = k, val = v\<rparr> # nodes t ! ?h) (node_ttl t + 1)"
    have "uc_hash_insert alloc t key v = Inr (0, ?t', [])"
      using k(1) None by (simp add: uc_hash_insert_def pos(1) a(1) k0_def Let_def set_bucket_def)
    moreover have "hash_inv ?t' \<and> hash_map ?t' = (hash_map t)(kb t key \<mapsto> v)"
      using cons_bucket_spec [OF inv k(2)] k(3) none by simp
    ultimately show ?thesis
      using none by (intro exI [of _ ?t']) simp
  qed
qed

lemma uc_hash_insert_oom:
  assumes inv: "hash_inv t" and key: "tbl_wf_key t key" and none: "hash_map t (kb t key) = None"
  shows "uc_hash_insert None t key v = Inr (-0x6488e857, t, [])"
proof -
  obtain pos where pos: "uc_hash_search t key =
       Inr (tbl_key_len t, slot_of t (kb t key), nodes t ! slot_of t (kb t key), pos)"
    "\<And>i. pos = Some i \<Longrightarrow> hash_map t (kb t key) \<noteq> None"
    using uc_hash_search_spec [OF inv key] by (metis option.distinct(1))
  then show ?thesis
    using none by (cases pos) (simp_all add: uc_hash_insert_def)
qed

lemma uc_hash_update_spec:
  assumes inv: "hash_inv t" and key: "tbl_wf_key t key"
  shows "case hash_map t (kb t key) of
      None \<Rightarrow> uc_hash_update t key v = Inr (None, t)
    | Some old \<Rightarrow> \<exists>t'. uc_hash_update t key v = Inr (old, t') \<and> hash_inv t' \<and>
        hash_map t' = (hash_map t)(kb t key \<mapsto> v) \<and> same_shape t t'"
  using uc_hash_find_spec [OF inv key] node_set_val_spec [OF inv, where v = v]
  by (auto simp: uc_hash_update_def uc_hash_key_addr_def split: option.splits)

lemma uc_hash_delete_spec:
  assumes inv: "hash_inv t" and key: "tbl_wf_key t key"
  shows "\<exists>t'. uc_hash_delete t key =
      Inr (0, t', case hash_map t (kb t key) of None \<Rightarrow> [] | Some old \<Rightarrow> freed_val old) \<and>
    hash_inv t' \<and> hash_map t' = (hash_map t)(kb t key := None) \<and> same_shape t t'"
proof -
  let ?h = "slot_of t (kb t key)"
  let ?ns = "nodes t ! ?h"
  obtain pos where pos: "uc_hash_search t key = Inr (tbl_key_len t, ?h, ?ns, pos)"
    "pos = None \<Longrightarrow> hash_map t (kb t key) = None"
    "\<And>i. pos = Some i \<Longrightarrow> valid_ptr t (?h, i) \<and> kb t (keys (?ns ! i)) = kb t key \<and>
       hash_map t (kb t key) = Some (val (?ns ! i))"
    using uc_hash_search_spec [OF inv key] by blast
  show ?thesis
  proof (cases pos)
    case None
    with pos show ?thesis
      using inv by (auto simp: uc_hash_delete_def fun_eq_iff)
  next
    case (Some i)
    note found = pos(3) [OF Some]
    have h: "?h < length (nodes t)" and i: "i < length ?ns"
      using found by (simp_all add: valid_ptr_def)
    let ?ns' = "take i ?ns @ drop (Suc i) ?ns"
    let ?t' = "set_bucket t ?h ?ns' (node_ttl t - 1)"
    have ok: "chain_ok t ?h ?ns"
      by (rule hash_inv_chain [OF inv h])
    have dist: "distinct (map (\<lambda>n. kb t (keys n)) ?ns')"
      using ok distinct_remove_nth [of "map (\<lambda>n. kb t (keys n)) ?ns" i]
      by (simp add: chain_ok_def take_map drop_map)
    then have ok': "chain_ok t ?h ?ns'"
      using ok by (auto simp: chain_ok_def dest: in_set_takeD in_set_dropD)
    have "length ?ns = Suc (length ?ns')"
      using i by simp
    then have "(word_of_nat (length ?ns) :: u64) = word_of_nat (length ?ns') + 1"
      by (simp only: of_nat_Suc add.commute)
    moreover have "c - 1 + a = c + b" if "a = b + 1" for a b c :: u64
      using that by simp
    ultimately have "node_ttl t - 1 + word_of_nat (length ?ns) =
        node_ttl t + (word_of_nat (length ?ns') :: u64)"
      by blast
    then have "hash_inv ?t'"
      by (rule set_bucket_inv [OF inv h ok'])
    moreover have "hash_map ?t' = (hash_map t)(kb t key := None)"
    proof -
      have "map (entry t) ?ns' =
          take i (map (entry t) ?ns) @ drop (Suc i) (map (entry t) ?ns)"
        by (simp add: take_map drop_map)
      then have "map_of (map (entry t) ?ns') = (map_of (map (entry t) ?ns))(kb t key := None)"
        using map_of_remove_nth [of "map (entry t) ?ns" i] ok i found
        by (simp add: chain_ok_def comp_def)
      then show ?thesis
        using set_bucket_map [OF inv \<open>hash_inv ?t'\<close> h]
        by (auto simp: fun_eq_iff hash_map_slot [OF inv])
    qed
    moreover have "uc_hash_delete t key = Inr (0, ?t', freed_val (val (?ns ! i)))"
      by (simp add: uc_hash_delete_def pos(1) Some set_bucket_def)
    ultimately show ?thesis
      using found by (intro exI [of _ ?t']) simp
  qed
qed

section \<open>Creation, reset and the counter\<close>

lemma uc_hash_create_spec:
  assumes "0 < hgt" "hgt < 2 ^ 31" "valid_key_type kt"
  shows "\<exists>t. (uc_hash_create True hgt kt mkl :: crash + 'v uc_hash_table option) = Inr (Some t) \<and> hash_inv t \<and>
    hash_map t = Map.empty \<and> key_type t = kt \<and> hash_cal_fun t = uc_hash_cal \<and> height t = word_of_int hgt"
proof -
  define h where "h = (word_of_int hgt :: u64)"
  have uh: "unat h = nat hgt"
    using assms(1,2) by (simp add: h_def unat_eq_nat_uint uint_word_of_int take_bit_int_eq_self)
  have "unat (8 * h) = 8 * nat hgt"
    using assms(2) by (subst unat_mult_lem [THEN iffD1]) (simp_all add: uh)
  then have "unat (UC_HASH_TABLE_SIZE + 8 * h) = 296 + 8 * nat hgt"
    using assms(2) by (subst unat_add_lem [THEN iffD1]) (simp_all add: UC_HASH_TABLE_SIZE_def)
  then have n: "(unat (UC_HASH_TABLE_SIZE + 8 * h) - unat UC_HASH_TABLE_SIZE) div 8 = unat h"
    and room: "\<not> UC_HASH_TABLE_SIZE + 8 * h < UC_HASH_TABLE_SIZE"
    by (simp_all add: uh UC_HASH_TABLE_SIZE_def word_less_nat_alt)
  have "h \<noteq> 0"
    using uh assms(1) by auto
  moreover have "chain_ok t i []" for t :: "'v uc_hash_table" and i
    by (simp add: chain_ok_def)
  ultimately show ?thesis
    using assms(3)
    by (simp add: uc_hash_create_def uc_hash_create_do_def n room hash_inv_def hash_map_def
        concat_eq_Nil_conv flip: h_def)
qed

lemma uc_hash_reset_loop_spec:
  "length (nodes t) = unat (height t) \<Longrightarrow> h \<le> length (nodes t) \<Longrightarrow>
   uc_hash_reset_loop t h freed =
     Inr (t\<lparr>nodes := take h (nodes t) @ replicate (length (nodes t) - h) [],
            node_ttl := node_ttl t - word_of_nat (length (concat (drop h (nodes t))))\<rparr>,
          freed @ concat (map (\<lambda>n. freed_val (val n)) (concat (drop h (nodes t)))))"
proof (induction t h freed rule: uc_hash_reset_loop.induct)
  case (1 t h freed)
  show ?case
  proof (cases "h < unat (height t)")
    case False
    with "1.prems" show ?thesis
      by (subst uc_hash_reset_loop.simps) simp
  next
    case True
    let ?t' = "t\<lparr>nodes := (nodes t)[h := []],
      node_ttl := node_ttl t - word_of_nat (length (nodes t ! h))\<rparr>"
    have b: "uc_hash_bucket t h = Inr (nodes t ! h)"
      using True 1 by (simp add: uc_hash_bucket_def)
    have d: "drop h (nodes t) = nodes t ! h # drop (Suc h) (nodes t)"
      using True 1 by (simp add: Cons_nth_drop_Suc)
    have "uc_hash_reset_loop t h freed =
        uc_hash_reset_loop ?t' (Suc h) (freed @ concat (map (\<lambda>n. freed_val (val n)) (nodes t ! h)))"
      using True b by (simp add: uc_hash_reset_loop.simps [of t h])
    also have "\<dots> = Inr (t\<lparr>nodes := take h (nodes t) @ replicate (length (nodes t) - h) [],
            node_ttl := node_ttl t - word_of_nat (length (concat (drop h (nodes t))))\<rparr>,
          freed @ concat (map (\<lambda>n. freed_val (val n)) (concat (drop h (nodes t)))))"
      using "1.IH" [OF True, of "nodes t ! h"] "1.prems" True
      by (simp add: d take_Suc_conv_app_nth Suc_diff_Suc [symmetric] replicate_append_same
          diff_diff_eq b)
    finally show ?thesis .
  qed
qed

text \<open>The values a table owns: the non-null value pointers of its nodes.\<close>

definition owned :: "('k \<Rightarrow> 'v option option) \<Rightarrow> 'v multiset" where
  "owned m = (\<Sum>b\<in>dom m. mset (freed_val (the (m b))))"

lemma owned_empty [simp]: "owned Map.empty = {#}"
  by (simp add: owned_def)

lemma owned_split:
  assumes "finite (dom m)"
  shows "owned m = mset (case m b of None \<Rightarrow> [] | Some old \<Rightarrow> freed_val old) +
    (\<Sum>c\<in>dom m - {b}. mset (freed_val (the (m c))))"
proof (cases "m b")
  case None
  then show ?thesis
    by (simp add: owned_def Diff_idemp domIff insert_absorb)
next
  case (Some v)
  then show ?thesis
    using sum.remove [OF assms, of b "\<lambda>c. mset (freed_val (the (m c)))"]
    by (simp add: owned_def domIff)
qed

lemma owned_update:
  assumes "finite (dom m)"
  shows "owned (m(b \<mapsto> v)) + mset (case m b of None \<Rightarrow> [] | Some old \<Rightarrow> freed_val old) =
    owned m + mset (freed_val v)"
proof -
  let ?f = "\<lambda>m b. mset (freed_val (the (m b)))"
  have "owned (m(b \<mapsto> v)) = mset (freed_val v) + sum (?f m) (dom m - {b})"
    using assms by (simp add: owned_def sum.insert_remove)
  moreover note owned_split [OF assms, of b]
  ultimately show ?thesis
    by simp
qed

lemma owned_delete:
  assumes "finite (dom m)"
  shows "owned (m(b := None)) + mset (case m b of None \<Rightarrow> [] | Some old \<Rightarrow> freed_val old) = owned m"
proof -
  let ?f = "\<lambda>m b. mset (freed_val (the (m b)))"
  have "owned (m(b := None)) = sum (?f m) (dom m - {b})"
    using assms by (simp add: owned_def)
  moreover note owned_split [OF assms, of b]
  ultimately show ?thesis
    by simp
qed

lemma finite_dom_hash_map [simp]: "finite (dom (hash_map t))"
  by (simp add: hash_map_def finite_dom_map_of)

text \<open>Buckets never share a key, so the map has one entry for each node.\<close>

lemma distinct_concat_slots:
  "\<forall>i<length xss. distinct (xss ! i) \<and> (\<forall>x\<in>set (xss ! i). f x = c + i) \<Longrightarrow> distinct (concat xss)"
proof (induction xss arbitrary: c)
  case Nil
  then show ?case by simp
next
  case (Cons xs xss)
  have tl: "\<forall>i<length xss. distinct (xss ! i) \<and> (\<forall>x\<in>set (xss ! i). f x = Suc c + i)"
    using Cons.prems by (metis Suc_less_eq add_Suc add_Suc_right length_Cons nth_Cons_Suc)
  have "f x = c" if "x \<in> set xs" for x
    using Cons.prems that by (metis add.right_neutral length_greater_0_conv list.distinct(1) nth_Cons_0)
  moreover have "f x > c" if x: "x \<in> set (concat xss)" for x
  proof -
    obtain i where "i < length xss" "x \<in> set (xss ! i)"
      using x by (auto simp: in_set_conv_nth [of _ xss])
    then have "f x = Suc c + i"
      using tl by blast
    then show ?thesis
      by simp
  qed
  moreover have "distinct xs"
    using Cons.prems by (metis length_greater_0_conv list.distinct(1) nth_Cons_0)
  ultimately show ?case
    using Cons.IH [OF tl] by fastforce
qed

lemma hash_inv_distinct:
  assumes "hash_inv t"
  shows "distinct (map (\<lambda>n. kb t (keys n)) (concat (nodes t)))"
proof -
  have "distinct (concat (map (map (\<lambda>n. kb t (keys n))) (nodes t)))"
    using hash_inv_chain [OF assms]
    by (intro distinct_concat_slots [where f = "slot_of t" and c = 0]) (auto simp: chain_ok_def)
  then show ?thesis
    by (simp add: map_concat)
qed

lemma card_dom_hash_map:
  assumes "hash_inv t"
  shows "card (dom (hash_map t)) = length (concat (nodes t))"
proof -
  have "dom (hash_map t) = set (map (\<lambda>n. kb t (keys n)) (concat (nodes t)))"
    by (simp add: hash_map_def dom_map_of_conv_image_fst image_comp comp_def del: set_concat)
  then show ?thesis
    using distinct_card [OF hash_inv_distinct [OF assms]] by simp
qed

lemma owned_hash_map:
  assumes "hash_inv t"
  shows "owned (hash_map t) = mset (concat (map (\<lambda>n. freed_val (val n)) (concat (nodes t))))"
proof -
  have "owned (map_of xs) = mset (concat (map (\<lambda>x. freed_val (snd x)) xs))"
    if "distinct (map fst xs)" for xs :: "(u8 list \<times> 'a option) list"
    using that
  proof (induction xs)
    case Nil
    then show ?case by simp
  next
    case (Cons x xs)
    then have "map_of xs (fst x) = None"
      by (simp add: map_of_eq_None_iff)
    then show ?case
      using Cons owned_update [of "map_of xs" "fst x" "snd x"]
      by (cases x) (simp add: finite_dom_map_of del: fun_upd_apply)
  qed
  from this [of "map (entry t) (concat (nodes t))"] show ?thesis
    using hash_inv_distinct [OF assms] by (simp add: hash_map_def comp_def)
qed

lemma uc_hash_reset_spec:
  assumes inv: "hash_inv t"
  shows "\<exists>t' freed. uc_hash_reset (Some t) = Inr (0, Some t', freed) \<and> hash_inv t' \<and>
    hash_map t' = Map.empty \<and> node_ttl t' = 0 \<and> same_shape t t' \<and>
    mset freed = owned (hash_map t)"
proof -
  let ?t' = "t\<lparr>nodes := replicate (length (nodes t)) [], node_ttl := 0\<rparr>"
  have "uc_hash_reset (Some t) =
      Inr (0, Some ?t', concat (map (\<lambda>n. freed_val (val n)) (concat (nodes t))))"
    using inv uc_hash_reset_loop_spec [of t 0 "[]"]
    by (simp add: uc_hash_reset_def hash_inv_def del: length_concat)
  moreover have "hash_inv ?t'" "hash_map ?t' = Map.empty" "same_shape t ?t'"
    using inv by (auto simp: hash_inv_def hash_map_def chain_ok_def same_shape_def concat_eq_Nil_conv)
  ultimately show ?thesis
    using owned_hash_map [OF inv] by auto
qed

section \<open>The contract of the clients: a store of values by key\<close>

text \<open>
  What the IPC component relies on. \<open>look\<close> is the map a table stands for; \<open>put\<close>, \<open>swap\<close> and
  \<open>drop_key\<close> are insertion, \<open>uc_hash_update\<close> and deletion, with the values each of them frees.
\<close>

locale keyed_store =
  fixes inv :: "'t \<Rightarrow> bool"
    and look :: "'t \<Rightarrow> 'k \<Rightarrow> 'v option option"
    and alloc_ok :: "'a \<Rightarrow> bool"
    and put :: "'a \<Rightarrow> 't \<Rightarrow> 'k \<Rightarrow> 'v option \<Rightarrow> crash + int \<times> 't \<times> 'v list"
    and swap :: "'t \<Rightarrow> 'k \<Rightarrow> 'v option \<Rightarrow> crash + 'v option \<times> 't"
    and drop_key :: "'t \<Rightarrow> 'k \<Rightarrow> crash + int \<times> 't \<times> 'v list"
  assumes put_law: "inv t \<Longrightarrow> alloc_ok a \<Longrightarrow>
      \<exists>t'. put a t k v = Inr (0, t', case look t k of None \<Rightarrow> [] | Some old \<Rightarrow> freed_val old) \<and>
        inv t' \<and> look t' = (look t)(k \<mapsto> v)"
    and swap_law: "inv t \<Longrightarrow> look t k = Some old \<Longrightarrow>
      \<exists>t'. swap t k v = Inr (old, t') \<and> inv t' \<and> look t' = (look t)(k \<mapsto> v)"
    and swap_absent: "inv t \<Longrightarrow> look t k = None \<Longrightarrow> swap t k v = Inr (None, t)"
    and drop_law: "inv t \<Longrightarrow>
      \<exists>t'. drop_key t k = Inr (0, t', case look t k of None \<Rightarrow> [] | Some old \<Rightarrow> freed_val old) \<and>
        inv t' \<and> look t' = (look t)(k := None)"
    and look_finite: "inv t \<Longrightarrow> finite (dom (look t))"
begin

text \<open>
  A value taken out by a swap with \<open>NULL\<close> survives the deletion of its key, and the rest of the
  store is as before: how the client hands a received message to its caller.
\<close>

lemma take_out:
  assumes "inv t" "look t k = Some (Some v)"
  shows "\<exists>t1 t2. swap t k None = Inr (Some v, t1) \<and> drop_key t1 k = Inr (0, t2, []) \<and>
    inv t2 \<and> look t2 = (look t)(k := None)"
proof -
  obtain t1 where t1: "swap t k None = Inr (Some v, t1)" "inv t1" "look t1 = (look t)(k \<mapsto> None)"
    using swap_law [OF assms] by blast
  then show ?thesis
    using drop_law [OF t1(2), of k] by (auto simp: freed_val_def)
qed

text \<open>A fresh key waits with \<open>NULL\<close>; dropping it again frees nothing and restores the store.\<close>

lemma put_null_drop:
  assumes "inv t" "alloc_ok a" "look t k = None"
  shows "\<exists>t1 t2. put a t k None = Inr (0, t1, []) \<and> drop_key t1 k = Inr (0, t2, []) \<and>
    inv t2 \<and> look t2 = look t"
proof -
  obtain t1 where t1: "put a t k None = Inr (0, t1, [])" "inv t1" "look t1 = (look t)(k \<mapsto> None)"
    using put_law [OF assms(1,2), of k None] assms(3) by auto
  then show ?thesis
    using drop_law [OF t1(2), of k] assms(3) by (auto simp: freed_val_def fun_upd_idem)
qed

text \<open>No value is lost or freed twice: what goes in is stored, freed, or handed back.\<close>

lemma put_owned:
  assumes "inv t" "alloc_ok a"
  shows "\<exists>t' freed. put a t k v = Inr (0, t', freed) \<and>
    owned (look t') + mset freed = owned (look t) + mset (freed_val v)"
  using put_law [OF assms, of k v] owned_update [OF look_finite [OF assms(1)], of k v] by auto

lemma drop_owned:
  assumes "inv t"
  shows "\<exists>t' freed. drop_key t k = Inr (0, t', freed) \<and> owned (look t') + mset freed = owned (look t)"
  using drop_law [OF assms, of k] owned_delete [OF look_finite [OF assms], of k] by auto

end

text \<open>Tables keyed by a 64-bit number.\<close>

definition u64_inv :: "'v uc_hash_table \<Rightarrow> bool" where
  "u64_inv t \<longleftrightarrow> hash_inv t \<and> key_type t = uc_hash_key_uint64"

definition u64_look :: "'v uc_hash_table \<Rightarrow> u64 \<Rightarrow> 'v option option" where
  "u64_look t v = hash_map t (key_bytes uc_hash_key_uint64 8 (key_u64 v))"

definition u64_alloc_ok :: "node_alloc \<Rightarrow> bool" where
  "u64_alloc_ok a \<longleftrightarrow> (case a of None \<Rightarrow> False | Some (behind, junk) \<Rightarrow> length (kraw junk) = UC_HASH_KEY_SIZE)"

lemma u64_table:
  "u64_inv t \<Longrightarrow> tbl_wf_key t (key_u64 v)"
  "u64_inv t \<Longrightarrow> kb t (key_u64 v) = key_bytes uc_hash_key_uint64 8 (key_u64 v)"
  "u64_inv t \<Longrightarrow> u64_alloc_ok a \<Longrightarrow> node_alloc_ok t a"
  by (auto simp: u64_inv_def tbl_wf_key_def kb_def tbl_key_len_def u64_alloc_ok_def
      node_alloc_ok_def wf_key_def key_u64_def UC_HASH_KEY_SIZE_def split: option.splits)

lemma u64_same_shape: "u64_inv t \<Longrightarrow> hash_inv t' \<Longrightarrow> same_shape t t' \<Longrightarrow> u64_inv t'"
  by (simp add: u64_inv_def same_shape_def)

lemma u64_look_upd:
  "hash_map t' = (hash_map t)(key_bytes uc_hash_key_uint64 8 (key_u64 v) := x) \<Longrightarrow>
   u64_look t' = (u64_look t)(v := x)"
  by (simp add: u64_look_def fun_eq_iff)

interpretation u64_tbl: keyed_store u64_inv u64_look u64_alloc_ok
  "\<lambda>a t k v. uc_hash_insert a t (key_u64 k) v"
  "\<lambda>t k v. uc_hash_update t (key_u64 k) v"
  "\<lambda>t k. uc_hash_delete t (key_u64 k)"
proof
  fix t :: "'v uc_hash_table" and k v a
  assume inv: "u64_inv t"
  then have h: "hash_inv t"
    by (simp add: u64_inv_def)
  note key = u64_table(1) [OF inv, of k] u64_table(2) [OF inv, of k]
  note shape = u64_same_shape [OF inv]
  show "\<exists>t'. uc_hash_insert a t (key_u64 k) v =
      Inr (0, t', case u64_look t k of None \<Rightarrow> [] | Some old \<Rightarrow> freed_val old) \<and>
      u64_inv t' \<and> u64_look t' = (u64_look t)(k \<mapsto> v)" if "u64_alloc_ok a"
    using uc_hash_insert_spec [OF h key(1), of a v] u64_table(3) [OF inv that] shape u64_look_upd
    unfolding u64_look_def key(2) by blast
  show "\<exists>t'. uc_hash_update t (key_u64 k) v = Inr (old, t') \<and>
      u64_inv t' \<and> u64_look t' = (u64_look t)(k \<mapsto> v)" if "u64_look t k = Some old" for old
    using uc_hash_update_spec [OF h key(1), of v] that shape u64_look_upd
    by (auto simp: u64_look_def key(2))
  show "uc_hash_update t (key_u64 k) v = Inr (None, t)" if "u64_look t k = None"
    using uc_hash_update_spec [OF h key(1), of v] that by (auto simp: u64_look_def key(2))
  show "\<exists>t'. uc_hash_delete t (key_u64 k) =
      Inr (0, t', case u64_look t k of None \<Rightarrow> [] | Some old \<Rightarrow> freed_val old) \<and>
      u64_inv t' \<and> u64_look t' = (u64_look t)(k := None)"
    using uc_hash_delete_spec [OF h key(1)] shape u64_look_upd
    unfolding u64_look_def key(2) by blast
  show "finite (dom (u64_look t))"
  proof -
    have "inj_on (\<lambda>v. key_bytes uc_hash_key_uint64 8 (key_u64 v)) UNIV"
      by (simp add: inj_on_def)
    moreover have "dom (u64_look t) =
        (\<lambda>v. key_bytes uc_hash_key_uint64 8 (key_u64 v)) -` dom (hash_map t)"
      by (auto simp: u64_look_def)
    ultimately show ?thesis
      by (simp add: finite_vimageI)
  qed
qed

section \<open>A negative height\<close>

text \<open>
  With a small negative height the size computation wraps around, the allocation is smaller than
  the struct, and the stores to its fields leave it.
\<close>

lemma uc_hash_create_negative:
  assumes "-37 \<le> hgt" "hgt < 0"
  shows "(uc_hash_create calloc_ok hgt kt mkl :: crash + 'v uc_hash_table option) =
    (if calloc_ok then Inl Undefined_behaviour else Inr None)"
proof -
  have "hgt \<in> set [-37..-1]"
    using assms by simp
  then have "UC_HASH_TABLE_SIZE + 8 * word_of_int hgt < UC_HASH_TABLE_SIZE \<and> (word_of_int hgt :: u64) \<noteq> 0"
    by (auto simp: upto.simps UC_HASH_TABLE_SIZE_def)
  then show ?thesis
    by (simp add: uc_hash_create_def uc_hash_create_do_def)
qed

end
