(* ===== verification/Hash_Walk.thy ===== *)
theory Hash_Walk
  imports Hash_Map
begin

text \<open>
  Iteration over a hash table with \<open>uc_hash_next\<close>, and \<open>uc_hash_random_node\<close>: the walk visits
  every node exactly once, bucket by bucket, and a random pick from a non-empty table always
  returns a node of the table.
\<close>

section \<open>Walking the table\<close>

text \<open>All node pointers in the order of the walk, and those behind a given one.\<close>

definition bucket_ptrs :: "'v uc_hash_table \<Rightarrow> nat \<Rightarrow> node_ptr list" where
  "bucket_ptrs t h = map (Pair h) [0..<length (nodes t ! h)]"

definition ptrs_from :: "'v uc_hash_table \<Rightarrow> nat \<Rightarrow> node_ptr list" where
  "ptrs_from t h = concat (map (bucket_ptrs t) [h..<length (nodes t)])"

definition all_ptrs :: "'v uc_hash_table \<Rightarrow> node_ptr list" where
  "all_ptrs t = ptrs_from t 0"

definition ptrs_after :: "'v uc_hash_table \<Rightarrow> node_ptr \<Rightarrow> node_ptr list" where
  "ptrs_after t p = map (Pair (fst p)) [Suc (snd p)..<length (nodes t ! fst p)] @ ptrs_from t (Suc (fst p))"

definition hd_option :: "'a list \<Rightarrow> 'a option" where
  "hd_option xs = (case xs of [] \<Rightarrow> None | x # _ \<Rightarrow> Some x)"

lemma hd_option_simps [simp]: "hd_option [] = None" "hd_option (x # xs) = Some x"
  by (simp_all add: hd_option_def)

lemma ptrs_from_Cons:
  "h < length (nodes t) \<Longrightarrow> ptrs_from t h = bucket_ptrs t h @ ptrs_from t (Suc h)"
  by (simp add: ptrs_from_def upt_conv_Cons)

lemma ptrs_from_Nil: "length (nodes t) \<le> h \<Longrightarrow> ptrs_from t h = []"
  by (simp add: ptrs_from_def)

lemma bucket_ptrs_Cons:
  "nodes t ! h \<noteq> [] \<Longrightarrow> bucket_ptrs t h = (h, 0) # map (Pair h) [Suc 0..<length (nodes t ! h)]"
  by (simp add: bucket_ptrs_def upt_conv_Cons)

lemma ptrs_from_after:
  "ptrs_from t h = p # ps \<Longrightarrow> valid_ptr t p \<and> ps = ptrs_after t p"
proof (induction "length (nodes t) - h" arbitrary: h)
  case 0
  then show ?case by (simp add: ptrs_from_Nil)
next
  case (Suc n)
  then have h: "h < length (nodes t)"
    by simp
  show ?case
  proof (cases "nodes t ! h = []")
    case True
    then have "ptrs_from t (Suc h) = p # ps"
      using Suc.prems h by (simp add: ptrs_from_Cons bucket_ptrs_def)
    then show ?thesis
      using Suc.hyps(1) [of "Suc h"] Suc.hyps(2) by simp
  next
    case False
    then show ?thesis
      using Suc.prems h by (auto simp: ptrs_from_Cons bucket_ptrs_Cons ptrs_after_def valid_ptr_def)
  qed
qed

lemma ptrs_after_after:
  assumes "ptrs_after t p = q # ps" "valid_ptr t p"
  shows "valid_ptr t q \<and> ps = ptrs_after t q"
proof (cases "Suc (snd p) < length (nodes t ! fst p)")
  case True
  then show ?thesis
    using assms by (auto simp: ptrs_after_def upt_conv_Cons [of "Suc (snd p)"] valid_ptr_def)
next
  case False
  then have "ptrs_from t (Suc (fst p)) = q # ps"
    using assms by (simp add: ptrs_after_def)
  then show ?thesis
    by (rule ptrs_from_after)
qed

lemma first_node_from_spec:
  assumes inv: "hash_inv t"
  shows "first_node_from t h = Inr (hd_option (ptrs_from t h))"
proof (induction "length (nodes t) - h" arbitrary: h)
  case 0
  then show ?case
    using inv by (subst first_node_from.simps) (simp add: ptrs_from_Nil hash_inv_def)
next
  case (Suc n)
  then have h: "h < length (nodes t)" "h < unat (height t)"
    using inv by (simp_all add: hash_inv_def)
  show ?case
  proof (cases "nodes t ! h = []")
    case True
    then show ?thesis
      using Suc.hyps(1) [of "Suc h"] Suc.hyps(2) h by (subst first_node_from.simps)
        (simp add: uc_hash_bucket_def ptrs_from_Cons bucket_ptrs_def)
  next
    case False
    then show ?thesis
      using h by (subst first_node_from.simps)
        (simp add: uc_hash_bucket_def ptrs_from_Cons bucket_ptrs_Cons)
  qed
qed

lemma valid_ptr_wf:
  assumes "hash_inv t" "valid_ptr t p"
  shows "tbl_wf_key t (uc_hash_key_addr t p)"
    and "slot_of t (kb t (uc_hash_key_addr t p)) = fst p"
  using hash_inv_chain [OF assms(1), of "fst p"] assms(2)
  by (auto simp: valid_ptr_def chain_ok_def uc_hash_key_addr_def uc_hash_node_at_def)

text \<open>\<open>uc_hash_next\<close> on the key of a node goes to the node behind it in the walk.\<close>

lemma uc_hash_next_spec:
  assumes inv: "hash_inv t" and p: "valid_ptr t p"
  shows "uc_hash_next t (Some (uc_hash_key_addr t p)) = Inr (hd_option (ptrs_after t p))"
proof -
  let ?key = "uc_hash_key_addr t p" and ?ns = "nodes t ! fst p"
  note wf = valid_ptr_wf [OF inv p]
  obtain pos where pos: "uc_hash_search t ?key = Inr (tbl_key_len t, fst p, ?ns, pos)"
    "pos = None \<Longrightarrow> hash_map t (kb t ?key) = None"
    "\<And>i. pos = Some i \<Longrightarrow> valid_ptr t (fst p, i) \<and> kb t (keys (?ns ! i)) = kb t ?key"
    using uc_hash_search_spec [OF inv wf(1)] unfolding wf(2) by metis
  have "entry t (uc_hash_node_at t p) \<in> set (map (entry t) (concat (nodes t)))"
    using valid_ptr_in_set [OF p] by simp
  then have "hash_map t (kb t ?key) \<noteq> None"
    unfolding hash_map_def map_of_eq_None_iff
    by (metis fst_entry image_eqI uc_hash_key_addr_def)
  then obtain i where i: "pos = Some i" "i < length ?ns" "kb t (keys (?ns ! i)) = kb t ?key"
    using pos by (cases pos) (auto simp: valid_ptr_def)
  have "distinct (map (\<lambda>n. kb t (keys n)) ?ns)"
    using hash_inv_chain [OF inv, of "fst p"] p by (simp add: valid_ptr_def chain_ok_def)
  then have "i = snd p"
    using i p by (auto simp: distinct_conv_nth valid_ptr_def uc_hash_key_addr_def uc_hash_node_at_def)
  then show ?thesis
    using i pos(1) first_node_from_spec [OF inv, of "Suc (fst p)"]
    by (simp add: uc_hash_next_def uc_hash_next_node_def ptrs_after_def upt_conv_Cons)
qed

lemma uc_hash_walk_spec:
  assumes inv: "hash_inv t"
  shows "valid_ptr t p \<Longrightarrow> length (ptrs_after t p) + 1 < fuel \<Longrightarrow>
    uc_hash_walk fuel t (Some p) = Some (Inr (p # ptrs_after t p))"
proof (induction "length (ptrs_after t p)" arbitrary: p fuel)
  case 0
  then have "fuel = Suc (Suc (fuel - 2))"
    by simp
  then obtain f where "fuel = Suc (Suc f)" ..
  with 0 show ?case
    by (simp add: uc_hash_next_spec [OF inv])
next
  case (Suc n)
  then obtain q qs where q: "ptrs_after t p = q # qs"
    by (cases "ptrs_after t p") auto
  obtain f where f: "fuel = Suc f"
    using Suc.prems by (cases fuel) auto
  have "uc_hash_walk f t (Some q) = Some (Inr (q # ptrs_after t q))"
    using ptrs_after_after [OF q Suc.prems(1)] Suc.prems(2) Suc.hyps(2) q f
    by (intro Suc.hyps(1)) auto
  then show ?case
    using f q ptrs_after_after [OF q Suc.prems(1)] by (simp add: uc_hash_next_spec [OF inv Suc.prems(1)])
qed

lemma uc_hash_test_print_table_spec:
  assumes inv: "hash_inv t" and fuel: "length (all_ptrs t) < fuel"
  shows "uc_hash_test_print_table fuel t = Some (Inr (all_ptrs t))"
proof (cases "all_ptrs t")
  case Nil
  then obtain f where "fuel = Suc f"
    using fuel by (cases fuel) auto
  then show ?thesis
    using Nil first_node_from_spec [OF inv, of 0]
    by (simp add: uc_hash_test_print_table_def uc_hash_next_def all_ptrs_def)
next
  case (Cons p ps)
  then have "valid_ptr t p" "ps = ptrs_after t p"
    using ptrs_from_after [of t 0 p ps] by (simp_all add: all_ptrs_def)
  then show ?thesis
    using Cons fuel first_node_from_spec [OF inv, of 0] uc_hash_walk_spec [OF inv, of p fuel]
    by (simp add: uc_hash_test_print_table_def uc_hash_next_def all_ptrs_def)
qed

lemma all_ptrs_distinct: "distinct (all_ptrs t)"
proof -
  have "distinct (concat (map (bucket_ptrs t) [0..<length (nodes t)]))"
    by (rule distinct_concat_slots [where f = fst and c = 0])
      (auto simp: bucket_ptrs_def distinct_map inj_on_def)
  then show ?thesis
    by (simp add: all_ptrs_def ptrs_from_def)
qed

lemma set_all_ptrs: "set (all_ptrs t) = {p. valid_ptr t p}"
  by (auto simp: all_ptrs_def ptrs_from_def bucket_ptrs_def valid_ptr_def)

section \<open>Random nodes\<close>

lemma random_pick:
  assumes "ns \<noteq> []" "length ns < 2 ^ 64"
  shows "unat (rdm mod word_of_nat (length ns) :: u64) < length ns"
proof -
  have "unat (word_of_nat (length ns) :: u64) = length ns"
    using assms(2) by (simp add: unat_of_nat)
  then show ?thesis
    using assms(1) by (simp add: unat_mod_distrib)
qed

lemma random_up_spec:
  assumes inv: "hash_inv t" and small: "\<forall>ns\<in>set (nodes t). length ns < 2 ^ 64"
  shows "\<exists>p. random_up t rdm i = Inr p \<and>
    (case p of None \<Rightarrow> \<forall>j<length (nodes t). i \<le> j \<longrightarrow> nodes t ! j = [] | Some q \<Rightarrow> valid_ptr t q)"
proof (induction "length (nodes t) - i" arbitrary: i)
  case 0
  then show ?case
    using inv by (subst random_up.simps) (simp add: hash_inv_def)
next
  case (Suc n)
  then have i: "i < length (nodes t)" "i < unat (height t)"
    using inv by (simp_all add: hash_inv_def)
  show ?case
  proof (cases "nodes t ! i = []")
    case True
    have "n = length (nodes t) - Suc i"
      using Suc.hyps(2) by simp
    note IH = Suc.hyps(1) [OF this]
    obtain p where "random_up t rdm (Suc i) = Inr p"
      "case p of None \<Rightarrow> \<forall>j<length (nodes t). Suc i \<le> j \<longrightarrow> nodes t ! j = [] | Some q \<Rightarrow> valid_ptr t q"
      using IH by blast
    then show ?thesis
      using True i by (subst random_up.simps)
        (auto simp: uc_hash_bucket_def not_less_eq_eq le_less split: option.splits)
  next
    case False
    then show ?thesis
      using i small by (subst random_up.simps)
        (simp add: uc_hash_bucket_def valid_ptr_def random_pick)
  qed
qed

lemma random_down_spec:
  assumes inv: "hash_inv t" and small: "\<forall>ns\<in>set (nodes t). length ns < 2 ^ 64"
  shows "n \<le> length (nodes t) \<Longrightarrow> \<exists>p. random_down t rdm n = Inr p \<and>
    (case p of None \<Rightarrow> \<forall>j<n. nodes t ! j = [] | Some q \<Rightarrow> valid_ptr t q)"
proof (induction n)
  case 0
  then show ?case by simp
next
  case (Suc n)
  then obtain p where "random_down t rdm n = Inr p"
    "case p of None \<Rightarrow> \<forall>j<n. nodes t ! j = [] | Some q \<Rightarrow> valid_ptr t q"
    by auto
  then show ?case
    using Suc.prems small
    by (auto simp: uc_hash_bucket_def valid_ptr_def random_pick less_Suc_eq split: option.splits)
qed

lemma uc_hash_random_node_spec:
  assumes inv: "hash_inv t" and small: "length (concat (nodes t)) < 2 ^ 64"
    and "node_ttl t \<noteq> 0"
  shows "\<exists>p. uc_hash_random_node (Some t) rdm = Inr (Some p) \<and> valid_ptr t p"
proof -
  let ?idx = "unat (rdm mod height t)"
  have "length ns \<le> length (concat (nodes t))" if "ns \<in> set (nodes t)" for ns
    using that by (auto simp: length_concat intro: member_le_sum_list)
  then have s: "\<forall>ns\<in>set (nodes t). length ns < 2 ^ 64"
    using small by (meson order_le_less_trans)
  have "height t \<noteq> 0"
    using inv by (simp add: hash_inv_def)
  have "concat (nodes t) \<noteq> []"
  proof
    assume "concat (nodes t) = []"
    then have "node_ttl t = word_of_nat (length ([] :: 'a uc_hash_node list))"
      using inv by (metis hash_inv_def)
    with assms(3) show False
      by simp
  qed
  then obtain k where k: "k < length (nodes t)" "nodes t ! k \<noteq> []"
    by (auto simp: in_set_conv_nth)
  have idx: "?idx \<le> length (nodes t)"
    using inv \<open>height t \<noteq> 0\<close>
    by (simp add: hash_inv_def unat_mod_distrib less_imp_le word_neq_0_conv unat_gt_0)
  obtain p where p: "random_up t rdm ?idx = Inr p"
    "case p of None \<Rightarrow> \<forall>j<length (nodes t). ?idx \<le> j \<longrightarrow> nodes t ! j = [] | Some q \<Rightarrow> valid_ptr t q"
    using random_up_spec [OF inv s] by blast
  obtain q where q: "random_down t rdm ?idx = Inr q"
    "case q of None \<Rightarrow> \<forall>j<?idx. nodes t ! j = [] | Some q \<Rightarrow> valid_ptr t q"
    using random_down_spec [OF inv s idx] by blast
  show ?thesis
    using p q k assms(3) \<open>height t \<noteq> 0\<close>
    by (cases p; cases q) (auto simp: uc_hash_random_node_def Let_def not_less dest: leI)
qed

end
