(* ===== verification/Hash_Ops.thy ===== *)
theory Hash_Ops
  imports Hash_Walk
begin

text \<open>
  Sequences of hash table operations against a finite map from key bytes to value pointers: what
  every call returns, what it frees, and that no value is lost or freed twice. The properties of
  the hash table are stated at the end.
\<close>

section \<open>Calls and their results\<close>

datatype 'v hash_op =
    Insert node_alloc uc_hash_key "'v option"
  | Delete uc_hash_key
  | Update uc_hash_key "'v option"
  | Find uc_hash_key

datatype 'v hash_result = Code int | Old "'v option" | Node "'v option option"

fun op_key :: "'v hash_op \<Rightarrow> uc_hash_key" where
  "op_key (Insert a k v) = k"
| "op_key (Delete k) = k"
| "op_key (Update k v) = k"
| "op_key (Find k) = k"

fun op_alloc :: "'v hash_op \<Rightarrow> node_alloc option" where
  "op_alloc (Insert a k v) = Some a"
| "op_alloc _ = None"

text \<open>A call on the code's table: its result, the new table, and the values it frees.\<close>

fun run_hash_op :: "'v hash_op \<Rightarrow> 'v uc_hash_table \<Rightarrow> crash + 'v hash_result \<times> 'v uc_hash_table \<times> 'v list" where
  "run_hash_op (Insert a k v) t =
     run_bind (uc_hash_insert a t k v) (\<lambda>(r, t', f). Inr (Code r, t', f))"
| "run_hash_op (Delete k) t = run_bind (uc_hash_delete t k) (\<lambda>(r, t', f). Inr (Code r, t', f))"
| "run_hash_op (Update k v) t = run_bind (uc_hash_update t k v) (\<lambda>(old, t'). Inr (Old old, t', []))"
| "run_hash_op (Find k) t =
     run_bind (uc_hash_find t k) (\<lambda>p. Inr (Node (map_option (uc_hash_node_val t) p), t, []))"

primrec run_hash_ops ::
  "'v hash_op list \<Rightarrow> 'v uc_hash_table \<Rightarrow> crash + 'v hash_result list \<times> 'v uc_hash_table \<times> 'v list" where
  "run_hash_ops [] t = Inr ([], t, [])"
| "run_hash_ops (c # cs) t =
     run_bind (run_hash_op c t) (\<lambda>(r, t', f).
     run_bind (run_hash_ops cs t') (\<lambda>(rs, t'', g). Inr (r # rs, t'', f @ g)))"

text \<open>
  The same call on a map; \<open>b\<close> are the bytes of the key. An update returns the value it replaces, and
  the new value itself where there is none to replace: that is what \<open>uc_hash.h\<close> says. The code returns
  null in the latter case (\<open>uc_hash_update_absent\<close>), so it is left out of the refinement by
  \<open>updates_found\<close>.
\<close>

definition old_vals :: "'v option option \<Rightarrow> 'v list" where
  "old_vals x = (case x of None \<Rightarrow> [] | Some old \<Rightarrow> freed_val old)"

fun spec_hash_op ::
  "'v hash_op \<Rightarrow> u8 list \<Rightarrow> (u8 list \<rightharpoonup> 'v option) \<Rightarrow> 'v hash_result \<times> (u8 list \<rightharpoonup> 'v option) \<times> 'v list" where
  "spec_hash_op (Insert a k v) b m = (Code 0, m(b \<mapsto> v), old_vals (m b))"
| "spec_hash_op (Delete k) b m = (Code 0, m(b := None), old_vals (m b))"
| "spec_hash_op (Update k v) b m =
     (case m b of None \<Rightarrow> (Old v, m, []) | Some old \<Rightarrow> (Old old, m(b \<mapsto> v), []))"
| "spec_hash_op (Find k) b m = (Node (m b), m, [])"

primrec spec_hash_ops ::
  "(uc_hash_key \<Rightarrow> u8 list) \<Rightarrow> 'v hash_op list \<Rightarrow> (u8 list \<rightharpoonup> 'v option) \<Rightarrow>
   'v hash_result list \<times> (u8 list \<rightharpoonup> 'v option) \<times> 'v list" where
  "spec_hash_ops bytes [] m = ([], m, [])"
| "spec_hash_ops bytes (c # cs) m =
     (case spec_hash_op c (bytes (op_key c)) m of (r, m', f) \<Rightarrow>
      case spec_hash_ops bytes cs m' of (rs, m'', g) \<Rightarrow> (r # rs, m'', f @ g))"

text \<open>Every update of the sequence finds its key.\<close>

fun update_found :: "'v hash_op \<Rightarrow> u8 list \<Rightarrow> (u8 list \<rightharpoonup> 'v option) \<Rightarrow> bool" where
  "update_found (Update k v) b m = (m b \<noteq> None)"
| "update_found _ b m = True"

primrec updates_found :: "(uc_hash_key \<Rightarrow> u8 list) \<Rightarrow> 'v hash_op list \<Rightarrow> (u8 list \<rightharpoonup> 'v option) \<Rightarrow> bool" where
  "updates_found bytes [] m = True"
| "updates_found bytes (c # cs) m =
     (update_found c (bytes (op_key c)) m \<and>
      updates_found bytes cs (fst (snd (spec_hash_op c (bytes (op_key c)) m))))"

definition op_ok :: "'v uc_hash_table \<Rightarrow> 'v hash_op \<Rightarrow> bool" where
  "op_ok t c \<longleftrightarrow> tbl_wf_key t (op_key c) \<and>
     (case op_alloc c of None \<Rightarrow> True | Some a \<Rightarrow> node_alloc_ok t a)"

lemma op_ok_shape: "same_shape t t' \<Longrightarrow> op_ok t' c = op_ok t c"
  using same_shape_kb [of t t'] by (simp add: op_ok_def node_alloc_ok_def split: option.splits prod.splits)

lemma same_shape_trans: "same_shape t t' \<Longrightarrow> same_shape t' t'' \<Longrightarrow> same_shape t t''"
  by (simp add: same_shape_def)

lemma run_hash_op_refines:
  assumes inv: "hash_inv t" and ok: "op_ok t c" and found: "update_found c (kb t (op_key c)) (hash_map t)"
  shows "\<exists>t'. run_hash_op c t = Inr (fst (spec_hash_op c (kb t (op_key c)) (hash_map t)), t',
      snd (snd (spec_hash_op c (kb t (op_key c)) (hash_map t)))) \<and>
    hash_map t' = fst (snd (spec_hash_op c (kb t (op_key c)) (hash_map t))) \<and>
    hash_inv t' \<and> same_shape t t'"
proof (cases c)
  case (Insert a k v)
  then have "tbl_wf_key t k" "node_alloc_ok t a"
    using ok by (simp_all add: op_ok_def)
  then obtain t' where "uc_hash_insert a t k v = Inr (0, t', old_vals (hash_map t (kb t k)))"
    "hash_inv t'" "hash_map t' = (hash_map t)(kb t k \<mapsto> v)" "same_shape t t'"
    using uc_hash_insert_spec [OF inv, of k a v] by (auto simp: old_vals_def)
  then show ?thesis
    using Insert by simp
next
  case (Delete k)
  then have "tbl_wf_key t k"
    using ok by (simp add: op_ok_def)
  then obtain t' where "uc_hash_delete t k = Inr (0, t', old_vals (hash_map t (kb t k)))"
    "hash_inv t'" "hash_map t' = (hash_map t)(kb t k := None)" "same_shape t t'"
    using uc_hash_delete_spec [OF inv, of k] by (auto simp: old_vals_def)
  then show ?thesis
    using Delete by simp
next
  case (Update k v)
  then have "tbl_wf_key t k"
    using ok by (simp add: op_ok_def)
  from uc_hash_update_spec [OF inv this, of v] show ?thesis
    using Update inv found by (auto split: option.splits)
next
  case (Find k)
  then have "tbl_wf_key t k"
    using ok by (simp add: op_ok_def)
  from uc_hash_find_spec [OF inv this] show ?thesis
    using Find inv by (auto split: option.splits)
qed

lemma run_hash_ops_refines:
  "hash_inv t \<Longrightarrow> \<forall>c\<in>set cs. op_ok t c \<Longrightarrow> updates_found (kb t) cs (hash_map t) \<Longrightarrow>
   \<exists>t'. run_hash_ops cs t = Inr (fst (spec_hash_ops (kb t) cs (hash_map t)), t',
       snd (snd (spec_hash_ops (kb t) cs (hash_map t)))) \<and>
     hash_map t' = fst (snd (spec_hash_ops (kb t) cs (hash_map t))) \<and> hash_inv t' \<and> same_shape t t'"
proof (induction cs arbitrary: t)
  case Nil
  then show ?case by simp
next
  case (Cons c cs)
  obtain t1 where t1: "run_hash_op c t = Inr (fst (spec_hash_op c (kb t (op_key c)) (hash_map t)), t1,
      snd (snd (spec_hash_op c (kb t (op_key c)) (hash_map t))))"
    "hash_map t1 = fst (snd (spec_hash_op c (kb t (op_key c)) (hash_map t)))" "hash_inv t1" "same_shape t t1"
    using run_hash_op_refines [OF Cons.prems(1), of c] Cons.prems(2,3) by auto
  have "\<forall>c\<in>set cs. op_ok t1 c" "updates_found (kb t1) cs (hash_map t1)"
    using Cons.prems(2,3) op_ok_shape [OF t1(4)] same_shape_kb [OF t1(4)] t1(2) by simp_all
  from Cons.IH [OF t1(3) this] show ?case
    using t1 same_shape_kb [OF t1(4)] same_shape_trans [OF t1(4)]
    by (auto split: prod.splits)
qed

section \<open>Where the values go\<close>

text \<open>The values a call is given, and those it hands back to the caller.\<close>

fun values_in :: "'v hash_op \<Rightarrow> u8 list \<Rightarrow> (u8 list \<rightharpoonup> 'v option) \<Rightarrow> 'v list" where
  "values_in (Insert a k v) b m = freed_val v"
| "values_in (Update k v) b m = freed_val v"
| "values_in _ b m = []"

fun values_out :: "'v hash_op \<Rightarrow> u8 list \<Rightarrow> (u8 list \<rightharpoonup> 'v option) \<Rightarrow> 'v list" where
  "values_out (Update k v) b m = (case m b of None \<Rightarrow> freed_val v | Some old \<Rightarrow> freed_val old)"
| "values_out _ b m = []"

primrec all_in :: "(uc_hash_key \<Rightarrow> u8 list) \<Rightarrow> 'v hash_op list \<Rightarrow> (u8 list \<rightharpoonup> 'v option) \<Rightarrow> 'v list" where
  "all_in bytes [] m = []"
| "all_in bytes (c # cs) m = values_in c (bytes (op_key c)) m
     @ all_in bytes cs (fst (snd (spec_hash_op c (bytes (op_key c)) m)))"

primrec all_out :: "(uc_hash_key \<Rightarrow> u8 list) \<Rightarrow> 'v hash_op list \<Rightarrow> (u8 list \<rightharpoonup> 'v option) \<Rightarrow> 'v list" where
  "all_out bytes [] m = []"
| "all_out bytes (c # cs) m = values_out c (bytes (op_key c)) m
     @ all_out bytes cs (fst (snd (spec_hash_op c (bytes (op_key c)) m)))"

lemma spec_hash_op_values:
  assumes "finite (dom m)" and s: "spec_hash_op c b m = (r, m', f)"
  shows "owned m + mset (values_in c b m) = owned m' + mset f + mset (values_out c b m)"
    and "finite (dom m')"
  using assms owned_update [OF assms(1), of b] owned_delete [OF assms(1), of b]
  by (cases c; force simp: old_vals_def ac_simps split: option.splits)+

lemma spec_hash_ops_values:
  "finite (dom m) \<Longrightarrow> spec_hash_ops bytes cs m = (rs, m', f) \<Longrightarrow>
   owned m + mset (all_in bytes cs m) = owned m' + mset f + mset (all_out bytes cs m)"
proof (induction cs arbitrary: m rs m' f)
  case Nil
  then show ?case by simp
next
  case (Cons c cs)
  obtain r m1 g where 1: "spec_hash_op c (bytes (op_key c)) m = (r, m1, g)"
    by (cases "spec_hash_op c (bytes (op_key c)) m") auto
  obtain rs' m2 g' where 2: "spec_hash_ops bytes cs m1 = (rs', m2, g')"
    by (cases "spec_hash_ops bytes cs m1") auto
  note v = spec_hash_op_values [OF Cons.prems(1) 1]
  have "m' = m2" "f = g @ g'"
    using Cons.prems(2) 1 2 by auto
  let ?i = "mset (all_in bytes cs m1)" and ?o = "mset (all_out bytes cs m1)"
  have "owned m + mset (all_in bytes (c # cs) m)
      = (owned m + mset (values_in c (bytes (op_key c)) m)) + ?i"
    using 1 by (simp add: add.assoc)
  also have "\<dots> = (owned m1 + ?i) + (mset g + mset (values_out c (bytes (op_key c)) m))"
    unfolding v(1) by (simp add: ac_simps)
  also have "\<dots> = owned m' + mset f + mset (all_out bytes (c # cs) m)"
    unfolding Cons.IH [OF v(2) 2] \<open>m' = m2\<close> \<open>f = g @ g'\<close> using 1 by (simp add: ac_simps)
  finally show ?case .
qed

section \<open>Properties\<close>

text \<open>C2: any sequence of insertions, deletions, updates of keys that are present, and searches on a
  well-formed table, of whatever key type, hash function and number of buckets, returns, frees and
  leaves exactly what a finite map from key bytes to values does. Updates of an absent key are left
  out: there the code does not return what its header says.\<close>

theorem uc_hash_implements_map:
  assumes "hash_inv t" "\<forall>c\<in>set cs. op_ok t c" "updates_found (kb t) cs (hash_map t)"
    and "spec_hash_ops (kb t) cs (hash_map t) = (rs, m, freed)"
  shows "\<exists>t'. run_hash_ops cs t = Inr (rs, t', freed) \<and> hash_map t' = m \<and> hash_inv t' \<and>
    node_ttl t' = word_of_nat (card (dom m))"
  using run_hash_ops_refines [OF assms(1-3)] assms(4) card_dom_hash_map
  by (fastforce simp: hash_inv_def)

text \<open>A small table with one-byte keys for the concrete instances.\<close>

definition demo_table :: "nat uc_hash_table" where
  "demo_table = \<lparr>tname = [], key_type = uc_hash_key_uchar, mem_key_len = 0, node_ttl = 0, height = 2,
     hash_cal_fun = (\<lambda>b. if b = [] then 0 else ucast (hd b)), nodes = [[], []]\<rparr>"

definition demo_key :: "u8 \<Rightarrow> uc_hash_key" where
  "demo_key b = \<lparr>kraw = b # replicate 71 0, kmem = []\<rparr>"

lemma demo_facts [simp]:
  "hash_inv demo_table" "hash_map demo_table = Map.empty" "kb demo_table (demo_key b) = [b]"
  "tbl_wf_key demo_table (demo_key b)" "node_alloc_ok demo_table (Some (0, demo_key b))"
  by (simp_all add: demo_table_def demo_key_def hash_inv_def hash_map_def chain_ok_def kb_def
      tbl_key_len_def key_bytes_def tbl_wf_key_def wf_key_def node_alloc_ok_def valid_key_type_def
      UC_HASH_KEY_SIZE_def less_2_cases_iff nth_Cons' )

lemma uc_hash_implements_map_witness:
  "\<exists>t'. run_hash_ops [Insert (Some (0, demo_key 0)) (demo_key 3) (Some 30),
      Insert (Some (0, demo_key 0)) (demo_key 5) (Some 50), Update (demo_key 3) (Some 31),
      Delete (demo_key 5), Find (demo_key 3)] demo_table
    = Inr ([Code 0, Code 0, Old (Some 30), Code 0, Node (Some (Some 31))], t', [50])"
  using uc_hash_implements_map [of demo_table "[Insert (Some (0, demo_key 0)) (demo_key 3) (Some 30),
      Insert (Some (0, demo_key 0)) (demo_key 5) (Some 50), Update (demo_key 3) (Some 31),
      Delete (demo_key 5), Find (demo_key 3)]"]
  by (auto simp: op_ok_def old_vals_def freed_val_def)

text \<open>C8: no value is lost, leaked or freed twice: over any sequence of calls whose updates find their
  key, the values the calls were given, with those owned before, are those still owned by the table,
  those it freed, and those \<open>uc_hash_update\<close> handed back.\<close>

theorem uc_hash_values_accounted:
  assumes "hash_inv t" "\<forall>c\<in>set cs. op_ok t c" "updates_found (kb t) cs (hash_map t)"
    and "run_hash_ops cs t = Inr (rs, t', freed)"
  shows "owned (hash_map t) + mset (all_in (kb t) cs (hash_map t))
    = owned (hash_map t') + mset freed + mset (all_out (kb t) cs (hash_map t))"
proof -
  obtain rs' m f where s: "spec_hash_ops (kb t) cs (hash_map t) = (rs', m, f)"
    by (cases "spec_hash_ops (kb t) cs (hash_map t)") auto
  have "hash_map t' = m" "freed = f"
    using run_hash_ops_refines [OF assms(1-3)] assms(4) s by auto
  with spec_hash_ops_values [OF finite_dom_hash_map s] show ?thesis
    by simp
qed

lemma uc_hash_values_accounted_witness:
  "\<exists>rs t' freed. run_hash_ops [Insert (Some (0, demo_key 0)) (demo_key 3) (Some 30),
      Update (demo_key 3) (Some 31), Delete (demo_key 3)] demo_table = Inr (rs, t', freed) \<and>
    {#30, 31#} = owned (hash_map t') + mset freed + {#30#}"
proof -
  let ?cs = "[Insert (Some (0, demo_key 0)) (demo_key 3) (Some 30), Update (demo_key 3) (Some 31), Delete (demo_key 3)]"
  have ok: "\<forall>c\<in>set ?cs. op_ok demo_table c" "updates_found (kb demo_table) ?cs (hash_map demo_table)"
    by (simp_all add: op_ok_def)
  obtain rs t' freed where r: "run_hash_ops ?cs demo_table = Inr (rs, t', freed)"
    using run_hash_ops_refines [OF _ ok] by auto
  with uc_hash_values_accounted [OF _ ok r] show ?thesis
    by (auto simp: freed_val_def)
qed

text \<open>
  An update of an absent key: the table is left alone and null is returned, so the value is neither
  owned by the table nor handed back. The header says the value is returned.
\<close>

theorem uc_hash_update_absent:
  assumes "hash_inv t" "tbl_wf_key t key" "hash_map t (kb t key) = None"
  shows "uc_hash_update t key v = Inr (None, t)"
    and "v \<noteq> None \<Longrightarrow> run_hash_op (Update key v) t \<noteq>
      Inr (fst (spec_hash_op (Update key v) (kb t key) (hash_map t)), t, [])"
  using uc_hash_update_spec [OF assms(1,2), of v] assms(3) by auto

lemma uc_hash_update_absent_witness:
  "uc_hash_update demo_table (demo_key 3) (Some 30) = Inr (None, demo_table)"
  by (rule uc_hash_update_absent(1)) simp_all

text \<open>C16: the iteration \<open>uc_hash_next(NULL)\<close>, \<open>uc_hash_next(key)\<close>, ... that the header describes
  terminates and visits every node of the table exactly once, so the keys it yields are exactly
  those of the map.\<close>

theorem uc_hash_iteration_complete:
  assumes "hash_inv t" "card (dom (hash_map t)) < fuel"
  shows "\<exists>ps. uc_hash_test_print_table fuel t = Some (Inr ps) \<and> distinct ps \<and>
    set ps = {p. valid_ptr t p} \<and> (\<lambda>p. kb t (uc_hash_key_addr t p)) ` set ps = dom (hash_map t)"
proof -
  have nodes: "uc_hash_node_at t ` {p. valid_ptr t p} = set (concat (nodes t))"
  proof
    show "uc_hash_node_at t ` {p. valid_ptr t p} \<subseteq> set (concat (nodes t))"
      using valid_ptr_in_set by blast
    show "set (concat (nodes t)) \<subseteq> uc_hash_node_at t ` {p. valid_ptr t p}"
    proof
      fix n
      assume "n \<in> set (concat (nodes t))"
      then obtain ns where "ns \<in> set (nodes t)" "n \<in> set ns"
        by auto
      then obtain i j where "i < length (nodes t)" "j < length (nodes t ! i)" "n = nodes t ! i ! j"
        by (metis in_set_conv_nth)
      then show "n \<in> uc_hash_node_at t ` {p. valid_ptr t p}"
        by (intro image_eqI [of _ _ "(i, j)"]) (simp_all add: uc_hash_node_at_def valid_ptr_def)
    qed
  qed
  have "length (all_ptrs t) = card (dom (hash_map t))"
    unfolding all_ptrs_def ptrs_from_def bucket_ptrs_def card_dom_hash_map [OF assms(1)]
    by (simp add: length_concat o_def sum_list_sum_nth atLeast0LessThan)
  then have "uc_hash_test_print_table fuel t = Some (Inr (all_ptrs t))"
    using uc_hash_test_print_table_spec [OF assms(1)] assms(2) by simp
  moreover have "(\<lambda>p. kb t (uc_hash_key_addr t p)) ` {p. valid_ptr t p} = dom (hash_map t)"
  proof -
    have "(\<lambda>p. kb t (uc_hash_key_addr t p)) ` {p. valid_ptr t p}
        = (\<lambda>n. kb t (keys n)) ` uc_hash_node_at t ` {p. valid_ptr t p}"
      by (simp add: uc_hash_key_addr_def image_image)
    also have "\<dots> = dom (hash_map t)"
      unfolding nodes hash_map_def dom_map_of_conv_image_fst by (simp add: image_image)
    finally show ?thesis .
  qed
  ultimately show ?thesis
    using all_ptrs_distinct [of t] set_all_ptrs [of t] by blast
qed

lemma uc_hash_iteration_complete_witness:
  "\<exists>ps. uc_hash_test_print_table 1 demo_table = Some (Inr ps) \<and> distinct ps"
  using uc_hash_iteration_complete [of demo_table 1] by auto

text \<open>Whatever random index the caller passes, \<open>uc_hash_random_node\<close> yields a node of the table,
  unless the table is missing or empty; then it yields null.\<close>

theorem uc_hash_random_node_valid:
  assumes "hash_inv t" "length (concat (nodes t)) < 2 ^ 64"
  shows "if concat (nodes t) = [] then uc_hash_random_node (Some t) rdm = Inr None
    else \<exists>p. uc_hash_random_node (Some t) rdm = Inr (Some p) \<and> valid_ptr t p"
proof (cases "concat (nodes t) = []")
  case True
  have "node_ttl t = word_of_nat (length (concat (nodes t)))"
    using assms(1) by (simp add: hash_inv_def)
  then have "node_ttl t = 0"
    unfolding True by simp
  then show ?thesis
    using True by (simp add: uc_hash_random_node_def)
next
  case False
  have "node_ttl t = word_of_nat (length (concat (nodes t)))"
    using assms(1) by (simp add: hash_inv_def)
  then have "unat (node_ttl t) = length (concat (nodes t))"
    using assms(2) by (simp add: unat_of_nat del: length_concat)
  then have "node_ttl t \<noteq> 0"
    using False by (metis length_0_conv unsigned_0)
  then show ?thesis
    using uc_hash_random_node_spec [OF assms] by (simp only: False if_False) blast
qed

lemma uc_hash_random_node_valid_witness: "uc_hash_random_node (Some demo_table) 77 = Inr None"
proof -
  have empty: "concat (nodes demo_table) = []"
    by (simp add: demo_table_def)
  have "length (concat (nodes demo_table)) < 2 ^ 64"
    unfolding empty by simp
  from uc_hash_random_node_valid [OF demo_facts(1) this] show ?thesis
    unfolding empty by simp
qed

text \<open>C30: \<open>uc_hash_reset\<close> empties the table, keeps its configuration and frees every value it owned
  exactly once; \<open>uc_hash_free\<close> frees the same values.\<close>

theorem uc_hash_reset_releases_all:
  assumes "hash_inv t"
  shows "\<exists>t' freed. uc_hash_reset (Some t) = Inr (0, Some t', freed) \<and> hash_inv t' \<and>
    hash_map t' = Map.empty \<and> uc_hash_node_ttl t' = 0 \<and> same_shape t t' \<and>
    mset freed = owned (hash_map t) \<and> uc_hash_free (Some t) = Inr freed"
  using uc_hash_reset_spec [OF assms] by (auto simp: uc_hash_free_def uc_hash_node_ttl_def)

lemma uc_hash_reset_releases_all_witness:
  "\<exists>t' freed. uc_hash_reset (Some demo_table) = Inr (0, Some t', freed)"
  using uc_hash_reset_releases_all [of demo_table] by auto

text \<open>C31: when there is no memory for a new node, an insertion reports the error and leaves the
  table as it was; an existing key is overwritten without needing memory.\<close>

theorem uc_hash_insert_out_of_memory:
  assumes "hash_inv t" "tbl_wf_key t key"
  shows "case hash_map t (kb t key) of
      None \<Rightarrow> uc_hash_insert None t key v = Inr (-0x6488e857, t, [])
    | Some old \<Rightarrow> \<exists>t'. uc_hash_insert None t key v = Inr (0, t', freed_val old) \<and>
        hash_map t' = (hash_map t)(kb t key \<mapsto> v)"
  using uc_hash_insert_oom [OF assms] uc_hash_insert_spec [OF assms, of None v]
  by (auto split: option.splits)

lemma uc_hash_insert_out_of_memory_witness:
  "uc_hash_insert None demo_table (demo_key 3) (Some 30) = Inr (-0x6488e857, demo_table, [])"
  using uc_hash_insert_out_of_memory [of demo_table "demo_key 3" "Some 30"] by simp

text \<open>C32: a positive height makes an empty, well-formed table with the default hash function; with
  height 0, or without memory, creation fails. A small negative height passes the only test there
  is: its conversion to \<open>size_t\<close> makes the size of the table wrap below the size of the struct, and
  the stores to the struct's fields leave the block.\<close>

theorem uc_hash_create_heights:
  assumes "valid_key_type kt" "- 37 \<le> hgt" "hgt < 2 ^ 31"
  shows "if hgt = 0 \<or> \<not> calloc_ok then (uc_hash_create calloc_ok hgt kt mkl :: crash + nat uc_hash_table option) = Inr None
    else if hgt < 0 then (uc_hash_create calloc_ok hgt kt mkl :: crash + nat uc_hash_table option) = Inl Undefined_behaviour
    else \<exists>t :: nat uc_hash_table. uc_hash_create calloc_ok hgt kt mkl = Inr (Some t) \<and>
      hash_inv t \<and> hash_map t = Map.empty \<and> hash_cal_fun t = uc_hash_cal \<and> key_type t = kt \<and>
      unat (height t) = nat hgt \<and> uc_hash_node_ttl t = 0"
proof (cases "0 < hgt \<and> calloc_ok")
  case True
  then obtain t :: "nat uc_hash_table" where t: "uc_hash_create True hgt kt mkl = Inr (Some t)"
    "hash_inv t" "hash_map t = Map.empty" "key_type t = kt" "hash_cal_fun t = uc_hash_cal" "height t = word_of_int hgt"
    using uc_hash_create_spec [of hgt kt mkl, where 'v = nat] assms by blast
  moreover have "unat (height t) = nat hgt"
    using True assms(3) t(6) by (simp add: unat_eq_nat_uint uint_word_of_int take_bit_int_eq_self)
  moreover have "length (concat (nodes t)) = 0"
    using t(3) card_dom_hash_map [OF t(2)] by simp
  then have "node_ttl t = word_of_nat 0"
    using t(2) by (metis hash_inv_def)
  then have "node_ttl t = 0"
    by simp
  ultimately show ?thesis
    using True by (auto simp: uc_hash_node_ttl_def)
next
  case False
  then consider "hgt = 0 \<or> \<not> calloc_ok" | "hgt < 0" calloc_ok
    using assms(2) by linarith
  then show ?thesis
  proof cases
    case 1
    then show ?thesis
      by (auto simp: uc_hash_create_def uc_hash_create_do_def)
  next
    case 2
    then show ?thesis
      by (simp add: uc_hash_create_negative [OF assms(2) 2(1)])
  qed
qed

lemma uc_hash_create_heights_witness:
  "(uc_hash_create True (-1) uc_hash_key_uint64 0 :: crash + nat uc_hash_table option) = Inl Undefined_behaviour \<and>
   (\<exists>t :: nat uc_hash_table. uc_hash_create True 4096 uc_hash_key_uint64 0 = Inr (Some t) \<and> unat (height t) = 4096)"
  using uc_hash_create_heights [of uc_hash_key_uint64 "-1" True 0] uc_hash_create_heights [of uc_hash_key_uint64 4096 True 0]
  by (auto simp: valid_key_type_def)

end
