(* ===== verification/Timer.thy ===== *)
theory Timer
  imports List_Head "HOL-Library.Signed_Division"
begin

text \<open>
  The timer component (\<open>src/time/uc_time.c\<close>): five timing wheels (milliseconds, seconds, minutes,
  hours, days) whose slots are intrusive lists, one tick per millisecond. The lists are the
  pointer-level ones of \<open>List_Head\<close>: an address is a slot of a wheel or the \<open>list\<close> field of an
  item. \<open>posted\<close> logs the tasks handed to the thread pool, in order. A step that would touch an
  item that was freed, or take a list head for an item, has the result \<open>None\<close>.
\<close>

section \<open>State\<close>

datatype taddr = Ms_list nat | S_list nat | M_list nat | H_list nat | D_list nat | Item nat

type_synonym task = "nat \<times> nat"

record timer_item =
  it_interval :: nat
  it_ttl :: nat
  it_ms :: nat
  it_s :: nat
  it_m :: nat
  it_h :: nat
  it_d :: nat
  it_cb :: nat
  it_arg :: nat

record timer_manager =
  lists :: "taddr links"
  ms_idx :: nat
  s_idx :: nat
  m_idx :: nat
  h_idx :: nat
  d_idx :: nat
  items :: "nat \<rightharpoonup> timer_item"
  posted :: "task list"

definition TIMER_INTERVAL_MAX :: nat where
  "TIMER_INTERVAL_MAX = 20 * 365 * 24 * 60 * 60 * 1000"

text \<open>
  The clock reading \<open>ms_idx + s_idx * 1000 + ...\<close> is an \<open>int\<close> expression: all its operands are
  \<open>uint16_t\<close>, so it is evaluated in 32 bits and then converted to \<open>uint64_t\<close>.
\<close>

definition clock_u64 :: "timer_manager \<Rightarrow> nat" where
  "clock_u64 t = to_u64 (wrap_s32
     (int (ms_idx t) + int (s_idx t) * 1000 + int (m_idx t) * 1000 * 60
      + int (h_idx t) * 1000 * 60 * 60 + int (d_idx t) * 1000 * 60 * 60 * 24))"

text \<open>The five fields a due time is split into.\<close>

definition set_due :: "nat \<Rightarrow> timer_item \<Rightarrow> timer_item" where
  "set_due t it = it\<lparr>
     it_ms := to_u16 (t mod 1000),
     it_s := to_u16 (t div 1000 mod 60),
     it_m := to_u16 (t div 1000 div 60 mod 60),
     it_h := to_u16 (t div 1000 div 60 div 60 mod 24),
     it_d := to_u16 (t div 1000 div 60 div 60 div 24)\<rparr>"

definition timer_post :: "timer_item \<Rightarrow> timer_manager \<Rightarrow> timer_manager" where
  "timer_post it t = t\<lparr>posted := posted t @ [(it_cb it, it_arg it)]\<rparr>"

definition timer_unlink :: "taddr \<Rightarrow> timer_manager \<Rightarrow> timer_manager" where
  "timer_unlink n t = t\<lparr>lists := list_del n (lists t)\<rparr>"

definition timer_append :: "taddr \<Rightarrow> taddr \<Rightarrow> timer_manager \<Rightarrow> timer_manager" where
  "timer_append n a t = t\<lparr>lists := list_add_tail n a (lists t)\<rparr>"

section \<open>Expiry and the clock tick\<close>

definition reinsert_slot :: "timer_manager \<Rightarrow> timer_item \<Rightarrow> taddr" where
  "reinsert_slot t it =
     (if it_d it \<noteq> 0 \<and> it_d it \<noteq> d_idx t then D_list 0
      else if it_h it \<noteq> 0 \<and> it_h it \<noteq> h_idx t then H_list (it_h it)
      else if it_m it \<noteq> 0 \<and> it_m it \<noteq> m_idx t then M_list (it_m it)
      else if it_s it \<noteq> 0 \<and> it_s it \<noteq> s_idx t then S_list (it_s it)
      else Ms_list (it_ms it))"

definition uc_timer_node_reinsert :: "nat \<Rightarrow> timer_manager \<Rightarrow> timer_manager option" where
  "uc_timer_node_reinsert p t =
     (case items t p of
        None \<Rightarrow> None
      | Some it \<Rightarrow>
          (let it' = set_due ((clock_u64 t + it_interval it) mod 2 ^ 64) it
           in Some (timer_append (Item p) (reinsert_slot t it')
                (t\<lparr>items := (items t)(p \<mapsto> it')\<rparr>))))"

text \<open>
  What every wheel does with a timer whose time has come: hand the callback to the pool, then
  unlink it, and link it again for its next expiry unless that was the last one.
\<close>

definition timer_expire :: "nat \<Rightarrow> timer_item \<Rightarrow> timer_manager \<Rightarrow> timer_manager option" where
  "timer_expire p it t0 =
     (let t = timer_post it t0 in
      if it_ttl it = 0 then uc_timer_node_reinsert p (timer_unlink (Item p) t)
      else
        (let t' = t\<lparr>items := (items t)(p \<mapsto> it\<lparr>it_ttl := it_ttl it - 1\<rparr>)\<rparr> in
         if it_ttl it - 1 = 0 then Some (timer_unlink (Item p) t')
         else uc_timer_node_reinsert p (timer_unlink (Item p) t')))"

text \<open>\<open>list_entry\<close>: the item a list node is embedded in.\<close>

definition on_entry ::
  "(nat \<Rightarrow> timer_item \<Rightarrow> timer_manager \<Rightarrow> timer_manager option) \<Rightarrow>
   taddr \<Rightarrow> timer_manager \<Rightarrow> timer_manager option" where
  "on_entry f node t =
     (case node of
        Item p \<Rightarrow> (case items t p of None \<Rightarrow> None | Some it \<Rightarrow> f p it t)
      | _ \<Rightarrow> None)"

definition move_down :: "taddr \<Rightarrow> taddr \<Rightarrow> timer_manager \<Rightarrow> timer_manager option" where
  "move_down n a t = Some (timer_append n a (timer_unlink n t))"

definition ms_body :: "taddr \<Rightarrow> timer_manager \<Rightarrow> timer_manager option" where
  "ms_body = on_entry (\<lambda>p it t. timer_expire p it t)"

definition s_body :: "taddr \<Rightarrow> timer_manager \<Rightarrow> timer_manager option" where
  "s_body = on_entry (\<lambda>p it t.
     if it_ms it \<noteq> 0 then move_down (Item p) (Ms_list (it_ms it)) t
     else timer_expire p it t)"

definition m_body :: "taddr \<Rightarrow> timer_manager \<Rightarrow> timer_manager option" where
  "m_body = on_entry (\<lambda>p it t.
     if it_s it \<noteq> 0 then move_down (Item p) (S_list (it_s it)) t
     else if it_ms it \<noteq> 0 then move_down (Item p) (Ms_list (it_ms it)) t
     else timer_expire p it t)"

definition h_body :: "taddr \<Rightarrow> timer_manager \<Rightarrow> timer_manager option" where
  "h_body = on_entry (\<lambda>p it t.
     if it_m it \<noteq> 0 then move_down (Item p) (M_list (it_m it)) t
     else if it_s it \<noteq> 0 then move_down (Item p) (S_list (it_s it)) t
     else if it_ms it \<noteq> 0 then move_down (Item p) (Ms_list (it_ms it)) t
     else timer_expire p it t)"

definition d_body :: "taddr \<Rightarrow> timer_manager \<Rightarrow> timer_manager option" where
  "d_body = on_entry (\<lambda>p it t.
     if it_d it = d_idx t then
       (if it_h it \<noteq> 0 then move_down (Item p) (H_list (it_h it)) t
        else if it_m it \<noteq> 0 then move_down (Item p) (M_list (it_m it)) t
        else if it_s it \<noteq> 0 then move_down (Item p) (S_list (it_s it)) t
        else if it_ms it \<noteq> 0 then move_down (Item p) (Ms_list (it_ms it)) t
        else timer_expire p it t)
     else Some t)"

definition timer_loop ::
  "nat \<Rightarrow> (taddr \<Rightarrow> timer_manager \<Rightarrow> timer_manager option) \<Rightarrow> taddr \<Rightarrow> timer_manager \<Rightarrow>
   timer_manager option" where
  "timer_loop fuel body a t = run_for_each_safe (\<lambda>t. lnext (lists t)) body fuel a t"

definition tick_ms :: "nat \<Rightarrow> timer_manager \<Rightarrow> timer_manager option" where
  "tick_ms fuel t0 =
     (let t = t0\<lparr>ms_idx := to_u16 (ms_idx t0 + 1) mod 1000\<rparr>
      in timer_loop fuel ms_body (Ms_list (ms_idx t)) t)"

definition tick_s :: "nat \<Rightarrow> timer_manager \<Rightarrow> timer_manager option" where
  "tick_s fuel t0 =
     (if ms_idx t0 = 0 then
        (let t = t0\<lparr>s_idx := to_u16 (s_idx t0 + 1) mod 60\<rparr>
         in timer_loop fuel s_body (S_list (s_idx t)) t)
      else Some t0)"

definition tick_m :: "nat \<Rightarrow> timer_manager \<Rightarrow> timer_manager option" where
  "tick_m fuel t0 =
     (if ms_idx t0 = 0 \<and> s_idx t0 = 0 then
        (let t = t0\<lparr>m_idx := to_u16 (m_idx t0 + 1) mod 60\<rparr>
         in timer_loop fuel m_body (M_list (m_idx t)) t)
      else Some t0)"

definition tick_h :: "nat \<Rightarrow> timer_manager \<Rightarrow> timer_manager option" where
  "tick_h fuel t0 =
     (if ms_idx t0 = 0 \<and> s_idx t0 = 0 \<and> m_idx t0 = 0 then
        (let t = t0\<lparr>h_idx := to_u16 (h_idx t0 + 1) mod 24\<rparr>
         in timer_loop fuel h_body (H_list (h_idx t)) t)
      else Some t0)"

definition tick_d :: "nat \<Rightarrow> timer_manager \<Rightarrow> timer_manager option" where
  "tick_d fuel t0 =
     (if ms_idx t0 = 0 \<and> s_idx t0 = 0 \<and> m_idx t0 = 0 \<and> h_idx t0 = 0 then
        (let t = t0\<lparr>d_idx := to_u16 (d_idx t0 + 1)\<rparr>
         in timer_loop fuel d_body (D_list 0) t)
      else Some t0)"

text \<open>One round of \<open>uc_timer_check_timeout\<close> between lock and unlock.\<close>

definition uc_timer_tick :: "nat \<Rightarrow> timer_manager \<Rightarrow> timer_manager option" where
  "uc_timer_tick fuel t =
     Option.bind (tick_ms fuel t) (\<lambda>t.
     Option.bind (tick_s fuel t) (\<lambda>t.
     Option.bind (tick_m fuel t) (\<lambda>t.
     Option.bind (tick_h fuel t) (tick_d fuel))))"

text \<open>\<open>n\<close> rounds of the checking thread.\<close>

primrec uc_timer_check_timeout :: "nat \<Rightarrow> nat \<Rightarrow> timer_manager \<Rightarrow> timer_manager option" where
  "uc_timer_check_timeout fuel 0 t = Some t"
| "uc_timer_check_timeout fuel (Suc n) t =
     Option.bind (uc_timer_tick fuel t) (uc_timer_check_timeout fuel n)"

text \<open>
  The pause at the end of a round: the microseconds to sleep, none when the round took a
  millisecond or more or the system clock went back.
\<close>

definition tick_pause :: "nat \<Rightarrow> nat \<Rightarrow> nat" where
  "tick_pause us_begin us_mid =
     (let us_end = (us_begin + 1 * 1000) mod 2 ^ 64 in
      if us_mid \<ge> us_end then 0
      else if us_mid < us_begin then 0
      else us_end - us_mid)"

section \<open>Set-up, insertion and removal\<close>

definition wheel_heads :: "taddr list" where
  "wheel_heads = map Ms_list [0..<1000] @ map S_list [0..<60] @ map M_list [0..<60]
     @ map H_list [0..<24] @ map D_list [0..<1]"

text \<open>
  \<open>garbage\<close> is what the fresh memory holds, \<open>None\<close> when there is none; \<open>pool\<close> tells whether the
  thread pool was created and \<open>added\<close> is what it answered to the first task. The result is the
  return value and the new value of the pointer \<open>uc_timer_mgr\<close>.
\<close>

definition uc_timer_init_do ::
  "taddr links option \<Rightarrow> bool \<Rightarrow> int \<Rightarrow> timer_manager option \<Rightarrow> int \<times> timer_manager option" where
  "uc_timer_init_do garbage pool added mgr =
     (case mgr of
        Some t \<Rightarrow> (0, Some t)
      | None \<Rightarrow>
          (case garbage of
             None \<Rightarrow> (- 0x3c48acf9, None)
           | Some g \<Rightarrow>
               (let t = \<lparr>lists = fold list_init wheel_heads g, ms_idx = 0, s_idx = 0, m_idx = 0,
                         h_idx = 0, d_idx = 0, items = Map.empty, posted = []\<rparr> in
                if \<not> pool then (- 0x51a7fab4, None)
                else if added \<noteq> 0 then (- 0x583f7a7e, None)
                else (0, Some t))))"

definition uc_timer_init ::
  "taddr links option \<Rightarrow> bool \<Rightarrow> int \<Rightarrow> timer_manager option \<Rightarrow> int \<times> timer_manager option" where
  "uc_timer_init = uc_timer_init_do"

definition add_slot :: "timer_item \<Rightarrow> taddr" where
  "add_slot it =
     (if it_d it \<noteq> 0 then D_list 0
      else if it_h it \<noteq> 0 then H_list (it_h it)
      else if it_m it \<noteq> 0 then M_list (it_m it)
      else if it_s it \<noteq> 0 then S_list (it_s it)
      else Ms_list (it_ms it))"

text \<open>\<open>addr\<close> is the address \<open>malloc\<close> returns; a null callback is \<open>None\<close>.\<close>

definition uc_timer_add_do ::
  "nat option \<Rightarrow> nat \<Rightarrow> nat \<Rightarrow> nat option \<Rightarrow> nat \<Rightarrow> timer_manager \<Rightarrow> nat option \<times> timer_manager" where
  "uc_timer_add_do addr millisecond ttl_count callback argument t =
     (if millisecond \<ge> TIMER_INTERVAL_MAX \<or> 0 = millisecond then (None, t)
      else
        (case callback of
           None \<Rightarrow> (None, t)
         | Some f \<Rightarrow>
             (case addr of
                None \<Rightarrow> (None, t)
              | Some p \<Rightarrow>
                  (let it = set_due ((clock_u64 t + millisecond) mod 2 ^ 64)
                         \<lparr>it_interval = millisecond, it_ttl = ttl_count, it_ms = 0, it_s = 0, it_m = 0, it_h = 0, it_d = 0,
                          it_cb = f, it_arg = argument\<rparr>
                   in (Some p, timer_append (Item p) (add_slot it)
                        (t\<lparr>items := (items t)(p \<mapsto> it)\<rparr>))))))"

definition uc_timer_add ::
  "nat option \<Rightarrow> nat \<Rightarrow> nat \<Rightarrow> nat option \<Rightarrow> nat \<Rightarrow> timer_manager \<Rightarrow> nat option \<times> timer_manager" where
  "uc_timer_add = uc_timer_add_do"

text \<open>
  An address the list code may write to: a slot of the manager or an item not yet freed.
  \<open>list_del\<close> writes to both neighbours of the item it removes.
\<close>

definition live_addr :: "timer_manager \<Rightarrow> taddr \<Rightarrow> bool" where
  "live_addr t a = (case a of Item p \<Rightarrow> items t p \<noteq> None | _ \<Rightarrow> True)"

definition uc_timer_delete_do :: "nat option \<Rightarrow> timer_manager \<Rightarrow> (int \<times> timer_manager) option" where
  "uc_timer_delete_do hdl t =
     (case hdl of
        None \<Rightarrow> Some (- 0x6816560a, t)
      | Some p \<Rightarrow>
          (if live_addr t (Item p) \<and> live_addr t (lnext (lists t) (Item p))
              \<and> live_addr t (lprev (lists t) (Item p))
           then (let t' = timer_unlink (Item p) t in Some (0, t'\<lparr>items := (items t')(p := None)\<rparr>))
           else None))"

definition uc_timer_delete :: "nat option \<Rightarrow> timer_manager \<Rightarrow> (int \<times> timer_manager) option" where
  "uc_timer_delete = uc_timer_delete_do"

section \<open>Clock readings and sleeps\<close>

text \<open>
  Of \<open>gettimeofday\<close> the two fields of \<open>struct timeval\<close>. \<open>select\<close> is a sequence of answers, the
  number of interruptions (\<open>EINTR\<close>) before it returns otherwise; the loop calls it once more
  than that.
\<close>

definition uc_time_ms :: "int \<Rightarrow> int \<Rightarrow> int" where
  "uc_time_ms tv_sec tv_usec = tv_sec * 1000 + tv_usec sdiv 1000"

definition uc_time_us :: "int \<Rightarrow> int \<Rightarrow> int" where
  "uc_time_us tv_sec tv_usec = tv_sec * 1000 * 1000 + tv_usec"

fun select_again :: "(int \<times> bool) list \<Rightarrow> nat option" where
  "select_again [] = None"
| "select_again ((err, eintr) # rs) =
     (if err < 0 \<and> eintr then map_option Suc (select_again rs) else Some 1)"

definition uc_time_msleep :: "nat \<Rightarrow> (int \<times> bool) list \<Rightarrow> nat \<times> nat \<times> nat option" where
  "uc_time_msleep milli_second answers =
     (milli_second div 1000, milli_second mod 1000 * 1000, select_again answers)"

definition uc_time_usleep :: "int \<Rightarrow> (int \<times> bool) list \<Rightarrow> int \<times> int \<times> nat option" where
  "uc_time_usleep micro_second answers =
     (micro_second sdiv 1000000, micro_second smod 1000000, select_again answers)"

end
