(* ===== verification/Timer_Clock.thy ===== *)
theory Timer_Clock
  imports Timer
begin

text \<open>
  The arithmetic of the timing wheels: which slot an item waits in, when the wheels reach it
  there, and what a tick, a move to a finer wheel and a new insertion do to that time. Nothing
  here touches the list store; \<open>Timer_Wheels\<close> combines it with the links.
\<close>

section \<open>Slots, units and spans\<close>

text \<open>The time one slot of a wheel stands for, and one full turn of the wheel.\<close>

fun unit_of :: "taddr \<Rightarrow> nat" where
  "unit_of (Ms_list i) = 1"
| "unit_of (S_list i) = 1000"
| "unit_of (M_list i) = 60000"
| "unit_of (H_list i) = 3600000"
| "unit_of (D_list i) = 86400000"
| "unit_of (Item p) = 1"

fun span_of :: "taddr \<Rightarrow> nat" where
  "span_of (Ms_list i) = 1000"
| "span_of (S_list i) = 60000"
| "span_of (M_list i) = 3600000"
| "span_of (H_list i) = 86400000"
| "span_of (D_list i) = 86400000 * 65536"
| "span_of (Item p) = 1"

text \<open>
  The fields of an item at and below a wheel: \<open>base_of\<close> is the reading of the wheel at which the
  item leaves its slot, \<open>rest_of\<close> what is then still to wait.
\<close>

fun base_of :: "taddr \<Rightarrow> timer_item \<Rightarrow> nat" where
  "base_of (Ms_list i) it = it_ms it"
| "base_of (S_list i) it = 1000 * it_s it"
| "base_of (M_list i) it = 60000 * it_m it"
| "base_of (H_list i) it = 3600000 * it_h it"
| "base_of (D_list i) it = 86400000 * it_d it"
| "base_of (Item p) it = 0"

fun rest_of :: "taddr \<Rightarrow> timer_item \<Rightarrow> nat" where
  "rest_of (Ms_list i) it = 0"
| "rest_of (S_list i) it = it_ms it"
| "rest_of (M_list i) it = it_ms it + 1000 * it_s it"
| "rest_of (H_list i) it = it_ms it + 1000 * it_s it + 60000 * it_m it"
| "rest_of (D_list i) it = it_ms it + 1000 * it_s it + 60000 * it_m it + 3600000 * it_h it"
| "rest_of (Item p) it = 0"

text \<open>The slots an item may be linked in: the index is the item's own field, and not zero.\<close>

fun slot_ok :: "taddr \<Rightarrow> timer_item \<Rightarrow> bool" where
  "slot_ok (Ms_list i) it \<longleftrightarrow> it_ms it = i \<and> i \<noteq> 0"
| "slot_ok (S_list i) it \<longleftrightarrow> it_s it = i \<and> i \<noteq> 0"
| "slot_ok (M_list i) it \<longleftrightarrow> it_m it = i \<and> i \<noteq> 0"
| "slot_ok (H_list i) it \<longleftrightarrow> it_h it = i \<and> i \<noteq> 0"
| "slot_ok (D_list i) it \<longleftrightarrow> i = 0 \<and> it_d it \<noteq> 0"
| "slot_ok (Item p) it \<longleftrightarrow> False"

definition item_ok :: "timer_item \<Rightarrow> bool" where
  "item_ok it \<longleftrightarrow> it_ms it < 1000 \<and> it_s it < 60 \<and> it_m it < 60 \<and> it_h it < 24 \<and> it_d it < 65536
     \<and> 0 < it_interval it \<and> it_interval it < TIMER_INTERVAL_MAX"

definition heads :: "taddr set" where
  "heads = set wheel_heads"

lemma heads_iff [timer_simps]:
  "Ms_list i \<in> heads \<longleftrightarrow> i < 1000"
  "S_list i \<in> heads \<longleftrightarrow> i < 60"
  "M_list i \<in> heads \<longleftrightarrow> i < 60"
  "H_list i \<in> heads \<longleftrightarrow> i < 24"
  "D_list i \<in> heads \<longleftrightarrow> i = 0"
  "Item p \<notin> heads"
  unfolding heads_def wheel_heads_def by (auto simp del: upt_rec_numeral upt.simps)

lemma slot_in_heads: "item_ok it \<Longrightarrow> slot_ok a it \<Longrightarrow> a \<in> heads"
  by (cases a) (auto simp: timer_simps item_ok_def)

lemma span_pos [simp]: "0 < span_of a"
  by (cases a) simp_all

lemma base_less_span: "item_ok it \<Longrightarrow> base_of a it < span_of a"
  by (cases a) (auto simp: item_ok_def)

lemma base_pos: "slot_ok a it \<Longrightarrow> 0 < base_of a it"
  by (cases a) auto

section \<open>Waiting\<close>

text \<open>
  \<open>waits now a it e\<close>: at time \<open>now\<close> an item in slot \<open>a\<close> expires at \<open>e\<close>, if the clock runs on. The
  wheel reaches the slot at \<open>e - rest\<close>, the first time after \<open>now\<close> that its reading is the item's.
\<close>

definition waits :: "nat \<Rightarrow> taddr \<Rightarrow> timer_item \<Rightarrow> nat \<Rightarrow> bool" where
  "waits now a it e \<longleftrightarrow> rest_of a it \<le> e \<and> (e - rest_of a it) mod span_of a = base_of a it \<and>
     now < e - rest_of a it \<and> e - rest_of a it \<le> now + span_of a"

definition expiry :: "nat \<Rightarrow> taddr \<Rightarrow> timer_item \<Rightarrow> nat" where
  "expiry now a it = Suc now
     + (base_of a it + span_of a - Suc now mod span_of a) mod span_of a + rest_of a it"

lemma mod_window_unique:
  assumes "(x :: nat) mod k = y mod k" "n < x" "x \<le> n + k" "n < y" "y \<le> n + k"
  shows "x = y"
proof -
  have "x = y" if "x \<le> y" "x mod k = y mod k" "y < x + k" for x y :: nat
  proof -
    have "(y - x) mod k = 0"
      using that by (metis mod_eq_dvd_iff_nat mod_0_imp_dvd dvd_imp_mod_0)
    moreover have "y - x < k"
      using that by simp
    ultimately show ?thesis
      using that(1) by simp
  qed
  from this [of x y] this [of y x] show ?thesis
    using assms by (cases "x \<le> y") auto
qed

lemma waits_iff:
  "waits now a it e \<longleftrightarrow> (\<exists>b. e = b + rest_of a it \<and> b mod span_of a = base_of a it \<and>
     now < b \<and> b \<le> now + span_of a)"
proof
  assume "waits now a it e"
  then show "\<exists>b. e = b + rest_of a it \<and> b mod span_of a = base_of a it \<and>
     now < b \<and> b \<le> now + span_of a"
    unfolding waits_def by (intro exI [of _ "e - rest_of a it"]) simp
qed (auto simp: waits_def)

lemma waits_unique:
  assumes "waits now a it e" "waits now a it e'"
  shows "e = e'"
proof -
  obtain b b' where b: "e = b + rest_of a it" "e' = b' + rest_of a it"
    and mods: "b mod span_of a = b' mod span_of a"
    and w: "now < b" "b \<le> now + span_of a" "now < b'" "b' \<le> now + span_of a"
    using assms unfolding waits_iff by force
  show ?thesis
    using mod_window_unique [OF mods w] b by simp
qed

lemma waits_expiry:
  assumes "item_ok it"
  shows "waits now a it (expiry now a it)"
proof -
  let ?k = "span_of a" and ?t = "Suc now"
  have r: "?t mod ?k < ?k"
    by simp
  have "(?t + (base_of a it + ?k - ?t mod ?k) mod ?k) mod ?k
      = (?t mod ?k + (base_of a it + ?k - ?t mod ?k)) mod ?k"
    by (metis mod_add_left_eq mod_add_right_eq)
  also have "?t mod ?k + (base_of a it + ?k - ?t mod ?k) = base_of a it + ?k"
    using r by linarith
  finally have "(?t + (base_of a it + ?k - ?t mod ?k) mod ?k) mod ?k = base_of a it"
    using base_less_span [OF assms, of a] by simp
  moreover have "(base_of a it + ?k - ?t mod ?k) mod ?k < ?k"
    by simp
  ultimately show ?thesis
    by (simp add: waits_def expiry_def Suc_le_eq)
qed

lemma expiry_eqI: "item_ok it \<Longrightarrow> waits now a it e \<Longrightarrow> expiry now a it = e"
  by (rule waits_unique [OF waits_expiry])

text \<open>One millisecond later: a slot that was not reached keeps its items waiting.\<close>

lemma waits_step:
  assumes "waits now a it e" "Suc now mod span_of a \<noteq> base_of a it"
  shows "waits (Suc now) a it e"
proof -
  obtain b where b: "e = b + rest_of a it" "b mod span_of a = base_of a it" "now < b"
    "b \<le> now + span_of a"
    using assms(1) unfolding waits_iff by blast
  moreover have "b \<noteq> Suc now"
    using b(2) assms(2) by auto
  ultimately show ?thesis
    unfolding waits_iff by (intro exI [of _ b]) simp
qed

lemma waits_arrive:
  assumes "waits now a it e" "Suc now mod span_of a = base_of a it"
  shows "e = Suc now + rest_of a it"
proof -
  obtain b where b: "e = b + rest_of a it" "b mod span_of a = base_of a it" "now < b"
    "b \<le> now + span_of a"
    using assms(1) unfolding waits_iff by blast
  moreover have "Suc now \<le> now + span_of a"
    using span_pos [of a] by linarith
  ultimately have "b = Suc now"
    using assms(2) by (intro mod_window_unique [of b "span_of a" "Suc now" now]) simp_all
  then show ?thesis
    using b(1) by simp
qed

lemma waits_after: "waits now a it e \<Longrightarrow> now < e"
  unfolding waits_iff by auto

section \<open>The slot reached by a tick\<close>

fun active_slot :: "nat \<Rightarrow> taddr" where
  "active_slot t =
     (if t mod 1000 \<noteq> 0 then Ms_list (t mod 1000)
      else if t div 1000 mod 60 \<noteq> 0 then S_list (t div 1000 mod 60)
      else if t div 60000 mod 60 \<noteq> 0 then M_list (t div 60000 mod 60)
      else if t div 3600000 mod 24 \<noteq> 0 then H_list (t div 3600000 mod 24)
      else D_list 0)"

declare active_slot.simps [simp del]

lemma mod_mult_eq_nat: "(t :: nat) mod (a * b) = a * (t div a mod b) + t mod a"
  by (rule mod_mult2_eq)

lemma mod_mult_multiple:
  assumes "(t :: nat) mod (a * b) = a * i" "0 < a"
  shows "t mod a = 0 \<and> t div a mod b = i"
proof -
  have "a * (t div a mod b) + t mod a = a * i"
    using assms(1) mod_mult_eq_nat [of t a b] by simp
  then have "(a * (t div a mod b) + t mod a) div a = i" "(a * (t div a mod b) + t mod a) mod a = 0"
    using assms(2) by simp_all
  then show ?thesis
    using assms(2) by simp
qed

lemma slot_reached:
  assumes ok: "slot_ok a it" and r: "t mod span_of a = base_of a it"
  shows "active_slot t = a"
proof (cases a)
  case (Ms_list i)
  then show ?thesis using assms by (simp add: active_slot.simps)
next
  case (S_list i)
  then show ?thesis
    using assms mod_mult_multiple [of t 1000 60 i] by (simp add: active_slot.simps)
next
  case (M_list i)
  then have "t mod 60000 = 0" "t div 60000 mod 60 = i" "i \<noteq> 0"
    using assms mod_mult_multiple [of t 60000 60 i] by simp_all
  then show ?thesis
    using M_list mod_mult_multiple [of t 1000 60 0] by (simp add: active_slot.simps)
next
  case (H_list i)
  then have "t mod 3600000 = 0" "t div 3600000 mod 24 = i" "i \<noteq> 0"
    using assms mod_mult_multiple [of t 3600000 24 i] by simp_all
  moreover from this have "t mod 60000 = 0" "t div 60000 mod 60 = 0"
    using mod_mult_multiple [of t 60000 60 0] by simp_all
  ultimately show ?thesis
    using H_list mod_mult_multiple [of t 1000 60 0] by (simp add: active_slot.simps)
next
  case (D_list i)
  then have "t mod 86400000 = 0"
    using assms mod_mult_multiple [of t 86400000 65536 "it_d it"] by simp
  moreover from this have "t mod 3600000 = 0" "t div 3600000 mod 24 = 0"
    using mod_mult_multiple [of t 3600000 24 0] by simp_all
  moreover from this have "t mod 60000 = 0" "t div 60000 mod 60 = 0"
    using mod_mult_multiple [of t 60000 60 0] by simp_all
  ultimately show ?thesis
    using D_list ok mod_mult_multiple [of t 1000 60 0] by (simp add: active_slot.simps)
next
  case (Item p)
  then show ?thesis using ok by simp
qed

section \<open>Moving to a finer wheel\<close>

text \<open>The first finer wheel with a non-zero field, where a reached item goes next.\<close>

fun lower_slot :: "taddr \<Rightarrow> timer_item \<Rightarrow> taddr option" where
  "lower_slot (Ms_list i) it = None"
| "lower_slot (S_list i) it = (if it_ms it \<noteq> 0 then Some (Ms_list (it_ms it)) else None)"
| "lower_slot (M_list i) it =
     (if it_s it \<noteq> 0 then Some (S_list (it_s it))
      else if it_ms it \<noteq> 0 then Some (Ms_list (it_ms it)) else None)"
| "lower_slot (H_list i) it =
     (if it_m it \<noteq> 0 then Some (M_list (it_m it))
      else if it_s it \<noteq> 0 then Some (S_list (it_s it))
      else if it_ms it \<noteq> 0 then Some (Ms_list (it_ms it)) else None)"
| "lower_slot (D_list i) it =
     (if it_h it \<noteq> 0 then Some (H_list (it_h it))
      else if it_m it \<noteq> 0 then Some (M_list (it_m it))
      else if it_s it \<noteq> 0 then Some (S_list (it_s it))
      else if it_ms it \<noteq> 0 then Some (Ms_list (it_ms it)) else None)"
| "lower_slot (Item p) it = None"

lemma lower_slot_None_iff: "lower_slot a it = None \<longleftrightarrow> rest_of a it = 0"
  by (cases a) auto

lemma lower_slot_props:
  assumes "lower_slot a it = Some b"
  shows "slot_ok b it" "rest_of a it = base_of b it + rest_of b it" "span_of b dvd unit_of a" "b \<noteq> a"
  using assms by (cases a; auto split: if_splits)+

lemma base_of_mod_unit: "base_of a it mod unit_of a = 0"
  by (cases a) auto

lemma unit_dvd_span: "unit_of a dvd span_of a"
  by (cases a) auto

lemma waits_lower:
  assumes ok: "item_ok it" and b: "lower_slot a it = Some b" and t: "t mod span_of a = base_of a it"
  shows "waits t b it (t + rest_of a it)"
proof -
  have "t mod unit_of a = base_of a it mod unit_of a"
    using t unit_dvd_span by (metis mod_mod_cancel)
  then have "span_of b dvd t"
    using base_of_mod_unit lower_slot_props(3) [OF b] by (metis dvd_trans mod_0_imp_dvd)
  then have "(t + base_of b it) mod span_of b = base_of b it"
    using base_less_span [OF ok, of b] by (metis add_0 dvd_imp_mod_0 mod_add_left_eq mod_less)
  then show ?thesis
    using base_pos [OF lower_slot_props(1) [OF b]] base_less_span [OF ok, of b]
    unfolding waits_iff lower_slot_props(2) [OF b]
    by (intro exI [of _ "t + base_of b it"]) simp
qed

section \<open>The fields of a due time\<close>

lemma set_due_fields [timer_simps]:
  assumes "t < 86400000 * 65536"
  shows "it_ms (set_due t it) = t mod 1000" "it_s (set_due t it) = t div 1000 mod 60"
    "it_m (set_due t it) = t div 60000 mod 60" "it_h (set_due t it) = t div 3600000 mod 24"
    "it_d (set_due t it) = t div 86400000"
    "it_interval (set_due t it) = it_interval it" "it_ttl (set_due t it) = it_ttl it"
    "it_cb (set_due t it) = it_cb it" "it_arg (set_due t it) = it_arg it"
proof -
  have "t div 86400000 < 65536"
    using assms by (simp add: less_mult_imp_div_less mult.commute)
  moreover have "x mod 1000 < 2 ^ 16" "x mod 60 < 2 ^ 16" "x mod 24 < 2 ^ 16" for x :: nat
    by (rule order_less_trans [OF mod_less_divisor]; simp)+
  ultimately show "it_ms (set_due t it) = t mod 1000" "it_s (set_due t it) = t div 1000 mod 60"
    "it_m (set_due t it) = t div 60000 mod 60" "it_h (set_due t it) = t div 3600000 mod 24"
    "it_d (set_due t it) = t div 86400000"
    by (simp_all add: set_due_def div_mult2_eq [symmetric] to_u16_def)
qed (simp_all add: set_due_def)

lemma item_ok_set_due:
  assumes "t < 86400000 * 65536" "0 < it_interval it" "it_interval it < TIMER_INTERVAL_MAX"
  shows "item_ok (set_due t it)"
  using assms less_mult_imp_div_less [of t 65536 86400000]
  by (simp add: item_ok_def timer_simps mult.commute)

lemma due_split: "(t :: nat) mod 60000 = t mod 1000 + 1000 * (t div 1000 mod 60)"
  "t mod 3600000 = t mod 1000 + 1000 * (t div 1000 mod 60) + 60000 * (t div 60000 mod 60)"
  "t mod 86400000 = t mod 1000 + 1000 * (t div 1000 mod 60) + 60000 * (t div 60000 mod 60)
     + 3600000 * (t div 3600000 mod 24)"
  using mod_mult_eq_nat [of t 1000 60] mod_mult_eq_nat [of t 60000 60]
    mod_mult_eq_nat [of t 3600000 24] by simp_all

lemma rest_of_set_due:
  "t < 86400000 * 65536 \<Longrightarrow> (\<And>p. a \<noteq> Item p) \<Longrightarrow> rest_of a (set_due t it) = t mod unit_of a"
  using due_split [of t] by (cases a) (simp_all add: timer_simps)

lemma base_of_set_due:
  "t < 86400000 * 65536 \<Longrightarrow> (\<And>p. a \<noteq> Item p) \<Longrightarrow>
   base_of a (set_due t it) = unit_of a * (t div unit_of a) mod span_of a"
  by (cases a) (simp_all add: timer_simps mult_mod_right)

section \<open>Linking a timer for a later time\<close>

text \<open>
  \<open>clock_is now t\<close>: the five indices show \<open>now\<close>. The reading is exact while it fits an \<open>int\<close>,
  that is for 24.8 days.
\<close>

definition clock_is :: "nat \<Rightarrow> timer_manager \<Rightarrow> bool" where
  "clock_is now t \<longleftrightarrow> ms_idx t = now mod 1000 \<and> s_idx t = now div 1000 mod 60 \<and>
     m_idx t = now div 60000 mod 60 \<and> h_idx t = now div 3600000 mod 24 \<and>
     d_idx t = now div 86400000"

lemma clock_value:
  assumes "clock_is now t"
  shows "int (ms_idx t) + int (s_idx t) * 1000 + int (m_idx t) * 1000 * 60
      + int (h_idx t) * 1000 * 60 * 60 + int (d_idx t) * 1000 * 60 * 60 * 24 = int now"
proof -
  have "now = 86400000 * (now div 86400000) + now mod 86400000"
    by simp
  then have "now = ms_idx t + s_idx t * 1000 + m_idx t * 60000 + h_idx t * 3600000
      + d_idx t * 86400000"
    using assms due_split(3) [of now] by (simp add: clock_is_def)
  then show ?thesis
    by simp
qed

lemma clock_u64_eq:
  assumes "clock_is now t" "now < 2 ^ 31"
  shows "clock_u64 t = now"
  using assms(2) unfolding clock_u64_def clock_value [OF assms(1)] by simp

text \<open>One level: the wheels above show the due time, this one does not show it yet.\<close>

lemma level_waits:
  fixes e now u k :: nat
  assumes above: "e div (u * k) = now div (u * k)" and le: "now \<le> e"
    and digit: "e div u mod k \<noteq> now div u mod k" and u: "0 < u" "0 < k"
  shows "now < u * (e div u)" "u * (e div u) \<le> now + u * k"
proof -
  have "now div u \<noteq> e div u"
    using digit by auto
  then have "Suc (now div u) \<le> e div u"
    using div_le_mono [OF le, of u] by simp
  then have "u * Suc (now div u) \<le> u * (e div u)"
    by (rule mult_le_mono2)
  moreover have "now < u * Suc (now div u)"
    using u(1) by (simp add: dividend_less_times_div)
  ultimately show "now < u * (e div u)"
    by linarith
  have "u * (e div u) \<le> e"
    by simp
  also have "e < u * k + u * k * (now div (u * k))"
    unfolding above [symmetric] using u by (intro dividend_less_times_div) simp
  also have "\<dots> \<le> u * k + now"
    by simp
  finally show "u * (e div u) \<le> now + u * k"
    by simp
qed

lemma level_same:
  fixes e now u k :: nat
  assumes above: "e div (u * k) = now div (u * k)" and le: "now \<le> e"
    and digit: "e div u mod k = 0 \<or> e div u mod k = now div u mod k" and k: "0 < k"
  shows "e div u = now div u"
proof -
  have split: "x div u = k * (x div (u * k)) + x div u mod k" for x
    by (simp add: div_mult2_eq)
  have "now div u \<le> e div u"
    using le by (rule div_le_mono)
  then show ?thesis
    using split [of e] split [of now] digit above by auto
qed

text \<open>
  \<open>uc_timer_node_reinsert\<close> picks the coarsest wheel on which the due time and the clock differ,
  and the item then expires exactly when due.
\<close>

lemma reinsert_slot_waits:
  assumes clock: "clock_is now t" and due: "now < e" "e < 86400000 * 65536"
    and a: "reinsert_slot t (set_due e it) = a"
  shows "slot_ok a (set_due e it)" "waits now a (set_due e it) e"
    "now mod span_of a \<noteq> base_of a (set_due e it)"
proof -
  have waitsI: "waits now a (set_due e it) e"
    if "\<And>p. a \<noteq> Item p" "now < unit_of a * (e div unit_of a)"
      "unit_of a * (e div unit_of a) \<le> now + span_of a" for a
    unfolding waits_iff using that due(2)
    by (intro exI [of _ "unit_of a * (e div unit_of a)"])
      (simp add: rest_of_set_due base_of_set_due)
  have le: "now \<le> e"
    using due(1) by simp
  have lev: "waits now a (set_due e it) e \<and> now mod span_of a \<noteq> base_of a (set_due e it)"
    if "\<And>p. a \<noteq> Item p" "span_of a = unit_of a * k" "e div span_of a = now div span_of a"
      "e div unit_of a mod k \<noteq> now div unit_of a mod k" "0 < unit_of a" "0 < k" for a k
  proof
    have "e div (unit_of a * k) = now div (unit_of a * k)"
      using that(2,3) by simp
    from level_waits [OF this le that(4-6)] show "waits now a (set_due e it) e"
      using that(2) by (intro waitsI [OF that(1)]) simp_all
    show "now mod span_of a \<noteq> base_of a (set_due e it)"
    proof
      assume "now mod span_of a = base_of a (set_due e it)"
      also have "base_of a (set_due e it) = unit_of a * (e div unit_of a) mod span_of a"
        by (rule base_of_set_due [OF due(2) that(1)])
      also have "\<dots> = unit_of a * (e div unit_of a mod k)"
        unfolding that(2) by (rule mult_mod_right [symmetric])
      finally have "now mod (unit_of a * k) = unit_of a * (e div unit_of a mod k)"
        unfolding that(2) .
      from mod_mult_multiple [OF this that(5)] show False
        using that(4) by simp
    qed
  qed
  define it' where "it' = set_due e it"
  note F = set_due_fields [OF due(2), of it, folded it'_def]
  note C = clock [unfolded clock_is_def]
  have "slot_ok a it' \<and> waits now a it' e \<and> now mod span_of a \<noteq> base_of a it'"
  proof (cases "it_d it' \<noteq> 0 \<and> it_d it' \<noteq> d_idx t")
    case True
    then have A: "a = D_list 0"
      using a by (simp add: reinsert_slot_def it'_def)
    have "e div 86400000 mod 65536 = e div 86400000" "now div 86400000 mod 65536 = now div 86400000"
      using due less_mult_imp_div_less [of _ 65536 86400000] by simp_all
    moreover have "e div 5662310400000 = 0" "now div 5662310400000 = 0"
      using due by simp_all
    ultimately show ?thesis
      using True lev [of a 65536] F(5) C A by (simp add: it'_def)
  next
    case D: False
    then have day: "e div 86400000 = now div 86400000"
      using F(5) C div_le_mono [OF le, of 86400000] by auto
    show ?thesis
    proof (cases "it_h it' \<noteq> 0 \<and> it_h it' \<noteq> h_idx t")
      case True
      then have "a = H_list (it_h it')"
        using a D by (auto simp: reinsert_slot_def it'_def)
      then show ?thesis
        using True lev [of a 24] F(4) C day by (simp add: it'_def)
    next
      case H: False
      then have hour: "e div 3600000 = now div 3600000"
        using F(4) C level_same [of e 3600000 24 now] day le by auto
      show ?thesis
      proof (cases "it_m it' \<noteq> 0 \<and> it_m it' \<noteq> m_idx t")
        case True
        then have "a = M_list (it_m it')"
          using a D H by (auto simp: reinsert_slot_def it'_def)
        then show ?thesis
          using True lev [of a 60] F(3) C hour by (simp add: it'_def)
      next
        case M: False
        then have minute: "e div 60000 = now div 60000"
          using F(3) C level_same [of e 60000 60 now] hour le by auto
        show ?thesis
        proof (cases "it_s it' \<noteq> 0 \<and> it_s it' \<noteq> s_idx t")
          case True
          then have "a = S_list (it_s it')"
            using a D H M by (auto simp: reinsert_slot_def it'_def)
          then show ?thesis
            using True lev [of a 60] F(2) C minute by (simp add: it'_def)
        next
          case S: False
          then have sec: "e div 1000 = now div 1000"
            using F(2) C level_same [of e 1000 60 now] minute le by auto
          have A: "a = Ms_list (it_ms it')"
            using a D H M S by (auto simp: reinsert_slot_def it'_def)
          have "\<not> (e mod 1000 = 0 \<or> e mod 1000 = now mod 1000)"
          proof
            assume "e mod 1000 = 0 \<or> e mod 1000 = now mod 1000"
            then show False
              using level_same [of e 1 1000 now] sec le due(1) by simp
          qed
          then show ?thesis
            using A lev [of a 1000] F(1) sec by (simp add: it'_def)
        qed
      qed
    qed
  qed
  then show "slot_ok a (set_due e it)" "waits now a (set_due e it) e"
    "now mod span_of a \<noteq> base_of a (set_due e it)"
    by (simp_all add: it'_def)
qed

text \<open>
  \<open>uc_timer_add\<close> compares the fields with zero instead of the clock. The slot is a valid one, so
  the item is reached; it expires when due if a reinsertion would have picked the same slot.
\<close>

lemma add_slot_ok:
  assumes "0 < e" "e < 86400000 * 65536"
  shows "slot_ok (add_slot (set_due e it)) (set_due e it)"
proof -
  have "e mod 86400000 \<noteq> 0" if "e div 86400000 = 0"
    using that assms(1) by (simp add: div_eq_0_iff)
  then show ?thesis
    using due_split(3) [of e] by (auto simp: add_slot_def set_due_fields [OF assms(2)])
qed

text \<open>
  \<open>add_due\<close>: on time if the wheel of the slot still has to turn to reach the field, a whole turn
  of that wheel late if it already shows it.
\<close>

definition add_due :: "nat \<Rightarrow> taddr \<Rightarrow> nat \<Rightarrow> nat" where
  "add_due now a due = (if now div unit_of a < due div unit_of a then due else due + span_of a)"

lemma add_slot_span:
  assumes "e < 86400000 * 65536" "0 < e"
  shows "e < span_of (add_slot (set_due e it))"
proof -
  have "e < 86400000" if "e div 86400000 = 0"
    using that by (simp add: div_eq_0_iff)
  moreover have "e < 3600000" if "e div 86400000 = 0" "e div 3600000 mod 24 = 0"
    using that level_same [of e 3600000 24 0] by (simp add: div_eq_0_iff)
  moreover have "e < 60000" if "e div 3600000 = 0" "e div 60000 mod 60 = 0"
    using that level_same [of e 60000 60 0] by (simp add: div_eq_0_iff)
  moreover have "e < 1000" if "e div 60000 = 0" "e div 1000 mod 60 = 0"
    using that level_same [of e 1000 60 0] by (simp add: div_eq_0_iff)
  ultimately show ?thesis
    using assms(1) by (auto simp: add_slot_def set_due_fields [OF assms(1)])
qed

lemma waits_add_due:
  assumes e: "now < e" "e < 86400000 * 65536" and a: "a = add_slot (set_due e it)"
  shows "waits now a (set_due e it) (add_due now a e)"
proof -
  let ?u = "unit_of a"
  have n: "a \<noteq> Item p" for p
    unfolding a add_slot_def by auto
  have span: "e < span_of a"
    unfolding a using e by (intro add_slot_span) simp_all
  have b: "?u * (e div ?u) \<le> e"
    by simp
  then have low: "?u * (e div ?u) < span_of a"
    using span by (rule le_less_trans)
  then have base: "base_of a (set_due e it) = ?u * (e div ?u)"
    using base_of_set_due [OF e(2) n] by simp
  have rest: "rest_of a (set_due e it) = e mod ?u"
    by (rule rest_of_set_due [OF e(2) n])
  have le: "now div ?u \<le> e div ?u"
    using e(1) by (intro div_le_mono) simp
  have u: "0 < ?u"
    by (cases a) simp_all
  show ?thesis
  proof (cases "now div ?u < e div ?u")
    case True
    then have "now < ?u * (e div ?u)"
      using u by (metis div_less_iff_less_mult mult.commute)
    then show ?thesis
      unfolding waits_iff rest base add_due_def using True low
      by (intro exI [of _ "?u * (e div ?u)"]) simp
  next
    case False
    then have "?u * (e div ?u) \<le> now"
      using le by (metis le_antisym linorder_not_less times_div_less_eq_dividend)
    then show ?thesis
      unfolding waits_iff rest base add_due_def using False low e(1) span
      by (intro exI [of _ "?u * (e div ?u) + span_of a"]) simp
  qed
qed

end
