(* ===== verification/Timer_Wheels.thy ===== *)
theory Timer_Wheels
  imports Timer_Clock "HOL-Library.Multiset"
begin

text \<open>
  The wheels refine a table of timers. Abstractly a timer is a due time, a period, the number of
  expiries left (0 for no limit) and a job; a tick to \<open>T\<close> posts the jobs due at \<open>T\<close> and puts each
  of these timers off by its period, or drops it. \<open>timer_rel\<close> relates the code's wheels to such a
  table; every tick of the code is a tick of the table.
\<close>

lemma ex4I: "P a b c d \<Longrightarrow> \<exists>a b c d. P a b c d"
  by blast

section \<open>The abstract timers\<close>

record timer_spec =
  at_due :: nat
  at_every :: nat
  at_left :: nat
  at_job :: task

definition spec_fire :: "nat \<Rightarrow> timer_spec \<Rightarrow> timer_spec option" where
  "spec_fire t x =
     (if at_left x = 0 then Some (x\<lparr>at_due := t + at_every x\<rparr>)
      else if at_left x = 1 then None
      else Some (x\<lparr>at_due := t + at_every x, at_left := at_left x - 1\<rparr>))"

definition spec_item :: "nat \<Rightarrow> timer_spec \<Rightarrow> timer_spec option" where
  "spec_item t x = (if at_due x = t then spec_fire t x else Some x)"

definition spec_tick :: "nat \<Rightarrow> (nat \<rightharpoonup> timer_spec) \<Rightarrow> (nat \<rightharpoonup> timer_spec)" where
  "spec_tick t A = (\<lambda>p. Option.bind (A p) (spec_item t))"

definition due_at :: "nat \<Rightarrow> (nat \<rightharpoonup> timer_spec) \<Rightarrow> nat set" where
  "due_at t A = {p. \<exists>x. A p = Some x \<and> at_due x = t}"

definition job_of :: "(nat \<rightharpoonup> timer_spec) \<Rightarrow> nat \<Rightarrow> task" where
  "job_of A p = at_job (the (A p))"

section \<open>The relation between wheels and timers\<close>

definition shows_as :: "nat \<Rightarrow> taddr \<Rightarrow> timer_item \<Rightarrow> timer_spec \<Rightarrow> bool" where
  "shows_as now a it x \<longleftrightarrow> waits now a it (at_due x) \<and> at_every x = it_interval it \<and>
     at_left x = it_ttl it \<and> at_job x = (it_cb it, it_arg it)"

definition linked_ok ::
  "(taddr \<Rightarrow> nat) \<Rightarrow> timer_manager \<Rightarrow> (nat \<rightharpoonup> timer_spec) \<Rightarrow> taddr \<Rightarrow> taddr \<Rightarrow> bool" where
  "linked_ok W t A b n \<longleftrightarrow> (\<exists>p it x. n = Item p \<and> items t p = Some it \<and> A p = Some x \<and>
     item_ok it \<and> slot_ok b it \<and> shows_as (W n) b it x)"

text \<open>\<open>W\<close> gives for each node the time up to which its timer has been dealt with.\<close>

definition wheels_rel ::
  "(taddr \<Rightarrow> nat) \<Rightarrow> timer_manager \<Rightarrow> (nat \<rightharpoonup> timer_spec) \<Rightarrow> (taddr \<Rightarrow> taddr list) \<Rightarrow> bool" where
  "wheels_rel W t A L \<longleftrightarrow> lists_rel (lists t) heads L \<and>
     (\<forall>b\<in>heads. \<forall>n\<in>set (L b). linked_ok W t A b n) \<and>
     (\<forall>p. A p \<noteq> None \<longrightarrow> (\<exists>b\<in>heads. Item p \<in> set (L b)))"

definition timer_rel :: "nat \<Rightarrow> timer_manager \<Rightarrow> (nat \<rightharpoonup> timer_spec) \<Rightarrow> bool" where
  "timer_rel now t A \<longleftrightarrow> clock_is now t \<and> (\<exists>L. wheels_rel (\<lambda>_. now) t A L)"

lemma wheels_linked:
  assumes "wheels_rel W t A L" "b \<in> heads" "n \<in> set (L b)"
  obtains p it x where "n = Item p" "items t p = Some it" "A p = Some x" "item_ok it"
    "slot_ok b it" "shows_as (W n) b it x"
  using assms unfolding wheels_rel_def linked_ok_def by blast

lemma wheels_items: "wheels_rel W t A L \<Longrightarrow> A p = Some x \<Longrightarrow> \<exists>it. items t p = Some it"
  unfolding wheels_rel_def linked_ok_def by (metis option.distinct(1) taddr.inject(6))

lemma linked_ok_change:
  "linked_ok W t A b (Item q) \<Longrightarrow> items t' q = items t q \<Longrightarrow> A' q = A q \<Longrightarrow>
   W' (Item q) = W (Item q) \<Longrightarrow> linked_ok W' t' A' b (Item q)"
  by (auto simp: linked_ok_def)

text \<open>Taking a timer out of its slot, and linking one that is in none.\<close>

lemma wheels_drop:
  assumes rel: "wheels_rel W t A L" and b: "b \<in> heads" "L b = xs @ Item p # ys"
    and t': "lists t' = list_del (Item p) (lists t)" "\<And>q. q \<noteq> p \<Longrightarrow> items t' q = items t q"
    and W': "\<And>q. q \<noteq> p \<Longrightarrow> W' (Item q) = W (Item q)"
  shows "wheels_rel W' t' (A(p := None)) (L(b := xs @ ys))"
proof -
  have lr: "lists_rel (lists t) heads L"
    using rel by (simp add: wheels_rel_def)
  have un: "unlinked heads (L(b := xs @ ys)) (Item p)"
    by (rule list_h.unlinked_after_unlink [OF lr b])
  have "linked_ok W' t' (A(p := None)) c n" if c: "c \<in> heads" "n \<in> set ((L(b := xs @ ys)) c)" for c n
  proof -
    have "n \<in> set (L c)"
      using c(2) b(2) by (cases "c = b") auto
    then have ok: "linked_ok W t A c n"
      using rel c(1) by (simp add: wheels_rel_def)
    have "n \<noteq> Item p"
      using un c by (auto simp: unlinked_def)
    with ok obtain q where "n = Item q" "q \<noteq> p"
      by (auto simp: linked_ok_def)
    then show ?thesis
      using ok t'(2) W' by (auto intro: linked_ok_change)
  qed
  moreover have "\<exists>c\<in>heads. Item q \<in> set ((L(b := xs @ ys)) c)" if "(A(p := None)) q \<noteq> None" for q
  proof -
    have "q \<noteq> p" "A q \<noteq> None"
      using that by (auto split: if_splits)
    then obtain c where "c \<in> heads" "Item q \<in> set (L c)"
      using rel by (auto simp: wheels_rel_def)
    then show ?thesis
      using b(2) \<open>q \<noteq> p\<close> by (intro bexI [of _ c]) (auto split: if_splits)
  qed
  ultimately show ?thesis
    using list_h.rel_unlink [OF lr b] t'(1) by (simp add: wheels_rel_def)
qed

lemma wheels_insert:
  assumes rel: "wheels_rel W t A L" and c: "c \<in> heads" and un: "unlinked heads L (Item p)"
    and it: "item_ok it" "slot_ok c it" "shows_as (W' (Item p)) c it x"
    and t': "lists t' = list_add_tail (Item p) c (lists t)" "items t' p = Some it"
      "\<And>q. q \<noteq> p \<Longrightarrow> items t' q = items t q"
    and W': "\<And>q. q \<noteq> p \<Longrightarrow> W' (Item q) = W (Item q)"
  shows "wheels_rel W' t' (A(p \<mapsto> x)) (L(c := L c @ [Item p]))"
proof -
  have lr: "lists_rel (lists t) heads L"
    using rel by (simp add: wheels_rel_def)
  have "linked_ok W' t' (A(p \<mapsto> x)) b n"
    if b: "b \<in> heads" "n \<in> set ((L(c := L c @ [Item p])) b)" for b n
  proof (cases "n = Item p")
    case True
    then have "b = c"
      using b un by (auto simp: unlinked_def split: if_splits)
    then show ?thesis
      using it t'(2) True by (auto simp: linked_ok_def)
  next
    case False
    then have "linked_ok W t A b n"
      using b rel by (auto simp: wheels_rel_def split: if_splits)
    moreover from this False obtain q where "n = Item q" "q \<noteq> p"
      by (auto simp: linked_ok_def)
    ultimately show ?thesis
      using t'(3) W' by (auto intro: linked_ok_change)
  qed
  moreover have "\<exists>b\<in>heads. Item q \<in> set ((L(c := L c @ [Item p])) b)" if "(A(p \<mapsto> x)) q \<noteq> None" for q
  proof (cases "q = p")
    case True
    then show ?thesis using c by (intro bexI [of _ c]) auto
  next
    case False
    then have "A q \<noteq> None"
      using that by simp
    then obtain b where "b \<in> heads" "Item q \<in> set (L b)"
      using rel unfolding wheels_rel_def by blast
    then show ?thesis
      by (intro bexI [of _ b]) auto
  qed
  ultimately show ?thesis
    using list_h.rel_push_tail [OF lr c un] t'(1) by (simp add: wheels_rel_def)
qed

text \<open>Both in a row: a timer moves to another slot, possibly with new fields.\<close>

lemma wheels_relink:
  assumes rel: "wheels_rel W t A L" and b: "b \<in> heads" "L b = xs @ Item p # ys"
    and it: "item_ok it" "slot_ok c it" "shows_as (W' (Item p)) c it x"
    and t': "lists t' = list_add_tail (Item p) c (list_del (Item p) (lists t))"
      "items t' p = Some it" "\<And>q. q \<noteq> p \<Longrightarrow> items t' q = items t q"
    and W': "\<And>q. q \<noteq> p \<Longrightarrow> W' (Item q) = W (Item q)"
  shows "wheels_rel W' t' (A(p \<mapsto> x)) ((L(b := xs @ ys))(c := (L(b := xs @ ys)) c @ [Item p]))"
proof -
  let ?t = "t\<lparr>lists := list_del (Item p) (lists t)\<rparr>"
  have "lists_rel (lists t) heads L"
    using rel by (simp add: wheels_rel_def)
  then have un: "unlinked heads (L(b := xs @ ys)) (Item p)"
    using b by (rule list_h.unlinked_after_unlink)
  have "wheels_rel W ?t (A(p := None)) (L(b := xs @ ys))"
    by (rule wheels_drop [OF rel b]) simp_all
  from wheels_insert [where W' = W' and x = x, OF this slot_in_heads [OF it(1,2)] un it, of t'] t' W' show ?thesis
    by simp
qed

text \<open>A timer that stays where it is can be dealt with by just waiting on.\<close>

lemma wheels_wait:
  assumes rel: "wheels_rel W t A L" and b: "b \<in> heads" "Item p \<in> set (L b)"
    and it: "items t p = Some it" "A p = Some x" and sh: "shows_as now b it x"
  shows "wheels_rel (W(Item p := now)) t A L"
proof -
  have lr: "lists_rel (lists t) heads L"
    using rel by (simp add: wheels_rel_def)
  have "linked_ok (W(Item p := now)) t A c n" if c: "c \<in> heads" "n \<in> set (L c)" for c n
  proof -
    have ok: "linked_ok W t A c n"
      using rel c by (simp add: wheels_rel_def)
    show ?thesis
    proof (cases "n = Item p")
      case True
      then have "c = b"
        using lists_rel_disjoint [OF lr c(1) b(1)] c(2) b(2) by auto
      then show ?thesis
        using ok it sh True by (auto simp: linked_ok_def)
    next
      case False
      then show ?thesis using ok by (auto simp: linked_ok_def)
    qed
  qed
  then show ?thesis
    using rel by (simp add: wheels_rel_def)
qed

section \<open>The loop bodies\<close>

text \<open>The five bodies are one: skip, move to a finer wheel, or expire.\<close>

definition wheel_body :: "taddr \<Rightarrow> taddr \<Rightarrow> timer_manager \<Rightarrow> timer_manager option" where
  "wheel_body a = on_entry (\<lambda>p it t.
     if a = D_list 0 \<and> it_d it \<noteq> d_idx t then Some t
     else case lower_slot a it of
       None \<Rightarrow> timer_expire p it t
     | Some b \<Rightarrow> move_down (Item p) b t)"

lemma on_entry_cong: "(\<And>p it t. f p it t = g p it t) \<Longrightarrow> on_entry f = on_entry g"
  by (rule arg_cong [of _ _ on_entry]) (intro ext)

lemma bodies_eq:
  "ms_body = wheel_body (Ms_list i)" "s_body = wheel_body (S_list i)"
  "m_body = wheel_body (M_list i)" "h_body = wheel_body (H_list i)"
  "d_body = wheel_body (D_list 0)"
  unfolding ms_body_def s_body_def m_body_def h_body_def d_body_def wheel_body_def
  by (rule on_entry_cong, simp)+

lemma clock_frame [frame_simps]:
  "clock_u64 (t\<lparr>lists := h\<rparr>) = clock_u64 t" "clock_u64 (t\<lparr>items := i\<rparr>) = clock_u64 t"
  "clock_u64 (t\<lparr>posted := ps\<rparr>) = clock_u64 t"
  "reinsert_slot (t\<lparr>lists := h\<rparr>) it = reinsert_slot t it"
  "reinsert_slot (t\<lparr>items := i\<rparr>) it = reinsert_slot t it"
  "reinsert_slot (t\<lparr>posted := ps\<rparr>) it = reinsert_slot t it"
  "clock_is now (t\<lparr>lists := h\<rparr>) = clock_is now t"
  "clock_is now (t\<lparr>items := i\<rparr>) = clock_is now t"
  "clock_is now (t\<lparr>posted := ps\<rparr>) = clock_is now t"
  by (simp_all add: clock_u64_def reinsert_slot_def clock_is_def)

text \<open>The item after an expiry that is not its last.\<close>

definition put_off :: "nat \<Rightarrow> timer_item \<Rightarrow> timer_item" where
  "put_off now it = set_due (now + it_interval it) (it\<lparr>it_ttl := it_ttl it - 1\<rparr>)"

lemma interval_room: "now < 2 ^ 31 \<Longrightarrow> item_ok it \<Longrightarrow> now + it_interval it < 86400000 * 65536"
  by (simp add: item_ok_def TIMER_INTERVAL_MAX_def)

lemma timer_expire_last:
  assumes "it_ttl it = 1"
  shows "\<exists>t'. timer_expire p it t = Some t' \<and> lists t' = list_del (Item p) (lists t) \<and>
    (\<forall>q. q \<noteq> p \<longrightarrow> items t' q = items t q) \<and> posted t' = posted t @ [(it_cb it, it_arg it)] \<and>
    (\<forall>now. clock_is now t' = clock_is now t)"
  using assms by (simp add: timer_expire_def Let_def timer_post_def timer_unlink_def clock_is_def)

lemma timer_expire_again:
  assumes clock: "clock_is now t" "now < 2 ^ 31" and it: "items t p = Some it" "item_ok it"
    and ttl: "it_ttl it \<noteq> 1"
  shows "\<exists>t'. timer_expire p it t = Some t' \<and>
    lists t' = list_add_tail (Item p) (reinsert_slot t (put_off now it)) (list_del (Item p) (lists t)) \<and>
    items t' = (items t)(p \<mapsto> put_off now it) \<and>
    posted t' = posted t @ [(it_cb it, it_arg it)] \<and> (\<forall>now. clock_is now t' = clock_is now t)"
proof -
  have "clock_u64 t = now"
    by (rule clock_u64_eq [OF clock])
  moreover have "(now + it_interval it) mod 2 ^ 64 = now + it_interval it"
    using interval_room [OF clock(2) it(2)] by simp
  moreover have same: "it_ttl it = 0 \<Longrightarrow> it\<lparr>it_ttl := 0\<rparr> = it"
    by simp
  ultimately show ?thesis
    using it ttl
    by (cases "it_ttl it = 0")
      (simp_all add: timer_expire_def Let_def timer_post_def timer_unlink_def timer_append_def
        uc_timer_node_reinsert_def put_off_def frame_simps same)
qed

lemma active_slot_inv:
  "active_slot t = Ms_list i \<Longrightarrow> t mod 1000 = i"
  "active_slot t = S_list i \<Longrightarrow> t mod 1000 = 0 \<and> t div 1000 mod 60 = i"
  "active_slot t = M_list i \<Longrightarrow> t mod 1000 = 0 \<and> t div 1000 mod 60 = 0 \<and> t div 60000 mod 60 = i"
  "active_slot t = H_list i \<Longrightarrow>
     t mod 1000 = 0 \<and> t div 1000 mod 60 = 0 \<and> t div 60000 mod 60 = 0 \<and> t div 3600000 mod 24 = i"
  "active_slot t = D_list i \<Longrightarrow> i = 0 \<and>
     t mod 1000 = 0 \<and> t div 1000 mod 60 = 0 \<and> t div 60000 mod 60 = 0 \<and> t div 3600000 mod 24 = 0"
  by (simp_all add: active_slot.simps split: if_split_asm)

lemma active_reaches:
  assumes ok: "slot_ok a it" and a: "active_slot t = a" and small: "t < 86400000 * 65536"
    and day: "a = D_list 0 \<Longrightarrow> it_d it = t div 86400000"
  shows "t mod span_of a = base_of a it"
proof (cases a)
  case (Ms_list i)
  then show ?thesis using active_slot_inv(1) [of t i] a ok by simp
next
  case (S_list i)
  then show ?thesis using active_slot_inv(2) [of t i] a ok due_split(1) [of t] by simp
next
  case (M_list i)
  then show ?thesis using active_slot_inv(3) [of t i] a ok due_split(2) [of t] by simp
next
  case (H_list i)
  then show ?thesis using active_slot_inv(4) [of t i] a ok due_split(3) [of t] by simp
next
  case (D_list i)
  then have "i = 0" "t mod 86400000 = 0"
    using active_slot_inv(5) [of t i] a due_split(3) [of t] by simp_all
  moreover have "t = 86400000 * (t div 86400000) + t mod 86400000"
    by simp
  ultimately show ?thesis
    using D_list day small by simp
next
  case (Item p)
  then show ?thesis using ok by simp
qed

section \<open>One wheel, one tick\<close>

text \<open>
  A body run on a node that is still to be dealt with at \<open>T\<close>. Afterwards it has been; the table
  has taken the same step for this timer. The list the loop runs over loses the node, keeps it,
  or gets it again at its end.
\<close>

definition fired :: "nat \<Rightarrow> (nat \<rightharpoonup> timer_spec) \<Rightarrow> nat \<Rightarrow> task list" where
  "fired T A p = (if p \<in> due_at T A then [job_of A p] else [])"

definition skipped :: "nat \<Rightarrow> timer_manager \<Rightarrow> taddr \<Rightarrow> taddr \<Rightarrow> bool" where
  "skipped T t a n \<longleftrightarrow> (\<exists>p it. n = Item p \<and> items t p = Some it \<and> a = D_list 0 \<and>
     it_d it \<noteq> T div 86400000)"

lemma spec_fire_put_off:
  assumes "shows_as t a it x" "now + it_interval it < 86400000 * 65536" "it_ttl it \<noteq> 1"
    and "waits now b (put_off now it) (now + it_interval it)"
  shows "\<exists>x'. spec_fire now x = Some x' \<and> shows_as now b (put_off now it) x'"
  using assms
  by (auto simp: spec_fire_def shows_as_def put_off_def set_due_fields)

lemma put_off_ok:
  "now < 2 ^ 31 \<Longrightarrow> item_ok it \<Longrightarrow> item_ok (put_off now it)"
  unfolding put_off_def
  by (rule item_ok_set_due [OF interval_room]) (simp_all add: item_ok_def)

lemma wheel_body_step:
  assumes rel: "wheels_rel W t A L" and clock: "clock_is T t" "T < 2 ^ 31" "T = Suc now"
    and a: "a \<in> heads" "active_slot T = a" and L: "L a = ys @ Item p # zs"
    and W: "W (Item p) = now"
  shows "\<exists>t' L' ys' add. wheel_body a (Item p) t = Some t' \<and> clock_is T t' \<and>
    wheels_rel (W(Item p := T)) t' (A(p := spec_tick T A p)) L' \<and>
    L' a = ys' @ zs @ add \<and> posted t' = posted t @ fired T A p \<and>
    (add = [] \<or> add = [Item p] \<and> skipped T t' a (Item p)) \<and>
    (\<forall>q. q \<noteq> p \<longrightarrow> items t' q = items t q)"
proof -
  obtain it x where it: "items t p = Some it" and x: "A p = Some x" and ok: "item_ok it"
    and sl: "slot_ok a it" and sh: "shows_as now a it x"
  proof -
    have "linked_ok W t A a (Item p)"
      using rel a(1) L unfolding wheels_rel_def by auto
    then show thesis
      using that W by (auto simp: linked_ok_def)
  qed
  have w: "waits now a it (at_due x)"
    using sh by (simp add: shows_as_def)
  have small: "T < 86400000 * 65536"
    using clock(2) by simp
  have day: "d_idx t = T div 86400000"
    using clock(1) by (simp add: clock_is_def)
  show ?thesis
  proof (cases "a = D_list 0 \<and> it_d it \<noteq> d_idx t")
    case True
    then have "T mod span_of a \<noteq> base_of a it"
      using small day mod_less_eq_dividend by (auto simp: mult.commute dest: arg_cong [of _ _ "\<lambda>n. n div 86400000"])
    then have w': "waits T a it (at_due x)"
      using waits_step [OF w] clock(3) by simp
    then have "spec_tick T A p = Some x" "fired T A p = []"
      using waits_after [OF w'] x by (auto simp: spec_tick_def spec_item_def fired_def due_at_def)
    moreover have "A(p := Some x) = A"
      using x by auto
    moreover have "wheels_rel (W(Item p := T)) t A L"
      using wheels_wait [OF rel a(1) _ it x, of T] L sh w' by (simp add: shows_as_def)
    ultimately show ?thesis
      using True it L clock(1)
      by (intro ex4I [of _ t L "ys @ [Item p]" "[]"])
        (simp add: wheel_body_def on_entry_def)
  next
    case match: False
    then have reach: "T mod span_of a = base_of a it"
      using active_reaches [OF sl a(2) small] day by auto
    then have due: "at_due x = T + rest_of a it"
      using waits_arrive [OF w] clock(3) by simp
    show ?thesis
    proof (cases "lower_slot a it")
      case (Some b)
      then have "0 < rest_of a it"
        using lower_slot_None_iff [of a it] by auto
      then have spec: "spec_tick T A p = Some x" "fired T A p = []"
        using due x by (auto simp: spec_tick_def spec_item_def fired_def due_at_def)
      have "shows_as T b it x"
        using sh waits_lower [OF ok Some reach] due by (simp add: shows_as_def)
      with wheels_relink [OF rel a(1) L ok lower_slot_props(1) [OF Some],
          where W' = "W(Item p := T)" and x = x and t' = "timer_append (Item p) b (timer_unlink (Item p) t)"]
      have "wheels_rel (W(Item p := T)) (timer_append (Item p) b (timer_unlink (Item p) t))
          (A(p \<mapsto> x)) ((L(a := ys @ zs))(b := (L(a := ys @ zs)) b @ [Item p]))"
        using it by (simp add: timer_append_def timer_unlink_def)
      moreover have "wheel_body a (Item p) t = Some (timer_append (Item p) b (timer_unlink (Item p) t))"
        using match it Some by (auto simp: wheel_body_def on_entry_def move_down_def)
      ultimately show ?thesis
        using spec lower_slot_props(4) [OF Some] clock(1)
        by (intro ex4I [of _ "timer_append (Item p) b (timer_unlink (Item p) t)"
              "(L(a := ys @ zs))(b := (L(a := ys @ zs)) b @ [Item p])" ys "[]"])
          (simp add: timer_append_def timer_unlink_def frame_simps)
    next
      case None
      have body: "wheel_body a (Item p) t = timer_expire p it t"
        using match it None by (auto simp: wheel_body_def on_entry_def)
      have "at_due x = T"
        using None due by (simp add: lower_slot_None_iff)
      then have spec: "spec_tick T A p = spec_fire T x" "fired T A p = [(it_cb it, it_arg it)]"
        using x sh
        by (simp_all add: spec_tick_def spec_item_def fired_def due_at_def job_of_def shows_as_def)
      show ?thesis
      proof (cases "it_ttl it = 1")
        case True
        then obtain t' where t': "timer_expire p it t = Some t'"
          "lists t' = list_del (Item p) (lists t)" "\<And>q. q \<noteq> p \<Longrightarrow> items t' q = items t q"
          "posted t' = posted t @ [(it_cb it, it_arg it)]" "\<And>now. clock_is now t' = clock_is now t"
          using timer_expire_last [of it p t] by blast
        have "wheels_rel (W(Item p := T)) t' (A(p := None)) (L(a := ys @ zs))"
          by (rule wheels_drop [OF rel a(1) L t'(2,3)]) simp_all
        moreover have "spec_fire T x = None"
          using sh True by (simp add: spec_fire_def shows_as_def)
        ultimately show ?thesis
          using body spec t' clock(1)
          by (intro ex4I [of _ t' "L(a := ys @ zs)" ys "[]"]) simp
      next
        case False
        define it' where "it' = put_off T it"
        define c where "c = reinsert_slot t it'"
        obtain t' where t': "timer_expire p it t = Some t'"
          "lists t' = list_add_tail (Item p) c (list_del (Item p) (lists t))"
          "items t' = (items t)(p \<mapsto> it')"
          "posted t' = posted t @ [(it_cb it, it_arg it)]" "\<And>now. clock_is now t' = clock_is now t"
          using timer_expire_again [OF clock(1,2) it ok False] unfolding it'_def c_def by blast
        have room: "T + it_interval it < 86400000 * 65536" "T < T + it_interval it"
          using interval_room [OF clock(2) ok] ok by (simp_all add: item_ok_def)
        have c: "slot_ok c it'" "waits T c it' (T + it_interval it)" "T mod span_of c \<noteq> base_of c it'"
          using reinsert_slot_waits [OF clock(1) room(2,1), of "it\<lparr>it_ttl := it_ttl it - 1\<rparr>" c]
          by (simp_all add: it'_def c_def put_off_def)
        have ok': "item_ok it'"
          unfolding it'_def by (rule put_off_ok [OF clock(2) ok])
        obtain x' where x': "spec_fire T x = Some x'" "shows_as T c it' x'"
          using spec_fire_put_off [OF sh room(1) False] c(2) unfolding it'_def by blast
        have "wheels_rel (W(Item p := T)) t' (A(p \<mapsto> x'))
            ((L(a := ys @ zs))(c := (L(a := ys @ zs)) c @ [Item p]))"
          by (rule wheels_relink [OF rel a(1) L ok' c(1) _ t'(2)]) (use x' t'(3) in simp_all)
        moreover have "a = D_list 0 \<and> it_d it' \<noteq> T div 86400000" if "c = a"
          using active_reaches [OF c(1) _ small] c(3) a(2) that by auto
        then have "skipped T t' a (Item p)" if "a = c"
          using that t'(3) by (simp add: skipped_def)
        ultimately show ?thesis
          using body spec t' x'(1) clock(1)
          by (intro ex4I [of _ t' "(L(a := ys @ zs))(c := (L(a := ys @ zs)) c @ [Item p])" ys
              "if c = a then [Item p] else []"]) simp
      qed
    qed
  qed
qed

fun item_id :: "taddr \<Rightarrow> nat" where
  "item_id (Item p) = p"
| "item_id _ = 0"

definition after :: "nat \<Rightarrow> taddr list \<Rightarrow> (nat \<rightharpoonup> timer_spec) \<Rightarrow> (nat \<rightharpoonup> timer_spec)" where
  "after T dn A = (\<lambda>p. if Item p \<in> set dn then spec_tick T A p else A p)"

lemma after_step:
  assumes "Item p \<notin> set dn"
  shows "(after T dn A)(p := spec_tick T (after T dn A) p) = after T (dn @ [Item p]) A"
    and "fired T (after T dn A) p = fired T A p"
  using assms
  by (auto simp: after_def spec_tick_def fired_def due_at_def job_of_def)

text \<open>The invariant of the loop: \<open>dn\<close> is done, \<open>un\<close> is ahead, \<open>re\<close> came back and is passed over.\<close>

definition loop_inv where
  "loop_inv now T a t0 A all k t L rest \<longleftrightarrow> (\<exists>dn un re. all = dn @ un \<and> rest = un @ re \<and>
     set re \<subseteq> set dn \<and> (\<forall>n\<in>set re. skipped T t a n) \<and> k = 2 * length un + length re \<and>
     clock_is T t \<and> wheels_rel (\<lambda>n. if n \<in> set un then now else T) t (after T dn A) L \<and>
     posted t = posted t0 @ concat (map (\<lambda>n. fired T A (item_id n)) dn))"

lemma wheel_loop_step:
  assumes lr: "lists_rel (lists t) heads L" and inv: "loop_inv now T a t0 A all k t L (x # rest)"
    and L: "L a = ys @ x # rest" and d: "distinct all"
    and T: "T < 2 ^ 31" "T = Suc now" and a: "a \<in> heads" "active_slot T = a"
  shows "\<exists>k' t' L' ys' add. k' < k \<and> wheel_body a x t = Some t' \<and> lists_rel (lists t') heads L' \<and>
    L' a = ys' @ rest @ add \<and>
    loop_inv now T a t0 A all k' t' L' (if rest = [] then [] else rest @ add)"
proof -
  obtain dn un re where inv':
    "all = dn @ un" "x # rest = un @ re" "set re \<subseteq> set dn" "\<forall>n\<in>set re. skipped T t a n"
    "k = 2 * length un + length re" "clock_is T t"
    "wheels_rel (\<lambda>n. if n \<in> set un then now else T) t (after T dn A) L"
    "posted t = posted t0 @ concat (map (\<lambda>n. fired T A (item_id n)) dn)"
    using inv unfolding loop_inv_def by blast
  show ?thesis
  proof (cases un)
    case Nil
    then have re: "re = x # rest" and k: "k = Suc (length rest)"
      using inv'(2,5) by auto
    have "wheel_body a x t = Some t"
      using inv'(4,6) re
      by (auto simp: skipped_def wheel_body_def on_entry_def clock_is_def)
    moreover have "loop_inv now T a t0 A all (length rest) t L rest"
      unfolding loop_inv_def using inv' Nil re
      by (intro exI [of _ dn] exI [of _ "[]"] exI [of _ rest]) auto
    ultimately show ?thesis
      using lr L k
      by (intro exI [of _ "length rest"] ex4I [of _ t L "ys @ [x]" "[]"]) (cases rest; simp)
  next
    case (Cons y un')
    then have un: "un = x # un'" and rest: "rest = un' @ re"
      using inv'(2) by auto
    have "linked_ok (\<lambda>n. if n \<in> set un then now else T) t (after T dn A) a x"
      using inv'(7) a(1) L unfolding wheels_rel_def by auto
    then obtain p where p: "x = Item p"
      by (auto simp: linked_ok_def)
    have new: "Item p \<notin> set dn" "Item p \<notin> set un'"
      using d inv'(1) un p by auto
    have Lp: "L a = ys @ Item p # rest"
      using L p by simp
    obtain t' L' ys' add where t': "wheel_body a (Item p) t = Some t'" "clock_is T t'"
      "wheels_rel ((\<lambda>n. if n \<in> set un then now else T)(Item p := T)) t'
        ((after T dn A)(p := spec_tick T (after T dn A) p)) L'"
      "L' a = ys' @ rest @ add" "posted t' = posted t @ fired T (after T dn A) p"
      "add = [] \<or> add = [Item p] \<and> skipped T t' a (Item p)"
      "\<And>q. q \<noteq> p \<Longrightarrow> items t' q = items t q"
      using wheel_body_step [OF inv'(7,6) T a Lp] un p by auto
    have W: "(\<lambda>n. if n \<in> set un then now else T)(Item p := T) = (\<lambda>n. if n \<in> set un' then now else T)"
      using un p new by auto
    have re': "skipped T t' a n" if "n \<in> set re" for n
      using inv'(3,4) that t'(7) new by (fastforce simp: skipped_def)
    have "loop_inv now T a t0 A all (2 * length un' + length re + length add) t' L'
        (rest @ add)"
      unfolding loop_inv_def
      using inv' t' un rest p new re' after_step [OF new(1), of T A] W
      by (intro exI [of _ "dn @ [x]"] exI [of _ un'] exI [of _ "re @ add"]) auto
    moreover have "loop_inv now T a t0 A all 0 t' L' []" if "rest = []"
      unfolding loop_inv_def
      using that inv' t' un rest p new after_step [OF new(1), of T A] W
      by (intro exI [of _ "dn @ [x]"] exI [of _ "[]"] exI [of _ "[]"]) auto
    moreover have "lists_rel (lists t') heads L'"
      using t'(3) by (simp add: wheels_rel_def)
    moreover have "2 * length un' + length re + length add < k" "0 < k"
      using inv'(5) un t'(6) by auto
    ultimately show ?thesis
      using t'(1,4) p
      by (intro exI [of _ "if rest = [] then 0 else 2 * length un' + length re + length add"]
          ex4I [of _ t' L' ys' add]) auto
  qed
qed

lemma wheel_loop:
  assumes rel: "wheels_rel (\<lambda>n. if n \<in> set (L a) then now else T) t A L" and clock: "clock_is T t"
    and T: "T < 2 ^ 31" "T = Suc now" and a: "a \<in> heads" "active_slot T = a"
    and fuel: "2 * length (L a) < fuel"
  shows "\<exists>t' L'. timer_loop fuel (wheel_body a) a t = Some t' \<and> clock_is T t' \<and>
    wheels_rel (\<lambda>_. T) t' (after T (L a) A) L' \<and>
    posted t' = posted t @ concat (map (\<lambda>n. fired T A (item_id n)) (L a))"
proof -
  have lr: "lists_rel (lists t) heads L"
    using rel by (simp add: wheels_rel_def)
  have d: "distinct (L a)"
    using list_h.rel_distinct [OF lr a(1)] by simp
  have inv: "loop_inv now T a t A (L a) (2 * length (L a)) t L (L a)"
    unfolding loop_inv_def using rel clock
    by (intro exI [of _ "[]"] exI [of _ "L a"] exI [of _ "[]"]) (simp add: after_def)
  have "\<exists>k' t' L'. run_for_each_safe (\<lambda>t. lnext (lists t)) (wheel_body a) fuel a t = Some t' \<and>
      lists_rel (lists t') heads L' \<and> loop_inv now T a t A (L a) k' t' L' []"
    by (rule list_h.for_each_safe_gen [where Q = "loop_inv now T a t A (L a)" and get = lists
          and L = L and s = t and k = "2 * length (L a)", OF a(1) lr inv fuel])
      (rule wheel_loop_step [OF _ _ _ d T a])
  then show ?thesis
    unfolding timer_loop_def loop_inv_def by auto
qed

section \<open>The tick\<close>

text \<open>Of the five loops of a tick only the one on the reached slot has anything to do.\<close>

lemma tick_split:
  assumes rel: "wheels_rel (\<lambda>_. now) t A L" and a: "active_slot (Suc now) = a" "a \<in> heads"
  shows "wheels_rel (\<lambda>n. if n \<in> set (L a) then now else Suc now) t A L"
    and "after (Suc now) (L a) A = spec_tick (Suc now) A"
    and "due_at (Suc now) A \<subseteq> {p. Item p \<in> set (L a)}"
proof -
  have away: "linked_ok (\<lambda>_. Suc now) t A b n"
    if b: "b \<in> heads" "n \<in> set (L b)" "b \<noteq> a" for b n
  proof -
    obtain p it x where n: "n = Item p" "items t p = Some it" "A p = Some x" "item_ok it"
      "slot_ok b it" "shows_as now b it x"
      using wheels_linked [OF rel b(1,2)] by blast
    have "Suc now mod span_of b \<noteq> base_of b it"
      using slot_reached [OF n(5)] a(1) b(3) by auto
    then show ?thesis
      using n waits_step by (auto simp: linked_ok_def shows_as_def)
  qed
  have lr: "lists_rel (lists t) heads L"
    using rel by (simp add: wheels_rel_def)
  have apart: "n \<notin> set (L a)" if "b \<in> heads" "n \<in> set (L b)" "b \<noteq> a" for b n
    using lists_rel_disjoint [OF lr that(1) a(2) that(3)] that(2) by auto
  have "linked_ok (\<lambda>n. if n \<in> set (L a) then now else Suc now) t A b n"
    if "b \<in> heads" "n \<in> set (L b)" for b n
  proof (cases "b = a")
    case True
    then show ?thesis
      using rel that by (auto simp: wheels_rel_def linked_ok_def)
  next
    case False
    then show ?thesis
      using away [OF that False] apart [OF that False] by (auto simp: linked_ok_def)
  qed
  then show "wheels_rel (\<lambda>n. if n \<in> set (L a) then now else Suc now) t A L"
    using rel unfolding wheels_rel_def by blast
  have later: "Suc now < at_due x" if "A p = Some x" "Item p \<notin> set (L a)" for p x
  proof -
    have "A p \<noteq> None"
      using that(1) by simp
    then obtain b where b: "b \<in> heads" "Item p \<in> set (L b)"
      using rel unfolding wheels_rel_def by blast
    then have "linked_ok (\<lambda>_. Suc now) t A b (Item p)"
      using away that(2) by blast
    then show ?thesis
      using that(1) waits_after by (auto simp: linked_ok_def shows_as_def)
  qed
  have "spec_tick (Suc now) A p = A p" if "Item p \<notin> set (L a)" for p
    using later [OF _ that] by (cases "A p") (auto simp: spec_tick_def spec_item_def)
  then show "after (Suc now) (L a) A = spec_tick (Suc now) A"
    by (auto simp: after_def)
  show "due_at (Suc now) A \<subseteq> {p. Item p \<in> set (L a)}"
    using later by (fastforce simp: due_at_def)
qed

lemma fired_mset:
  assumes d: "distinct ns" and sub: "due_at T A \<subseteq> {p. Item p \<in> set ns}"
    and items: "\<And>n. n \<in> set ns \<Longrightarrow> n = Item (item_id n)"
  shows "mset (concat (map (\<lambda>n. fired T A (item_id n)) ns)) = image_mset (job_of A) (mset_set (due_at T A))"
proof -
  let ?ps = "filter (\<lambda>p. p \<in> due_at T A) (map item_id ns)"
  have "concat (map (\<lambda>n. fired T A (item_id n)) ns) = map (job_of A) ?ps"
    by (induction ns) (simp_all add: fired_def)
  moreover have "inj_on item_id (set ns)"
    using items by (metis inj_onI)
  then have "distinct ?ps"
    using d by (simp add: distinct_map)
  moreover have "set ?ps = due_at T A"
    using sub by (force simp: image_iff)
  ultimately show ?thesis
    by (metis mset_map mset_set_set)
qed

text \<open>The indices after a tick, wheel by wheel.\<close>

lemma wheels_frame [frame_simps]:
  "wheels_rel W (t\<lparr>ms_idx := i\<rparr>) A L = wheels_rel W t A L"
  "wheels_rel W (t\<lparr>s_idx := i\<rparr>) A L = wheels_rel W t A L"
  "wheels_rel W (t\<lparr>m_idx := i\<rparr>) A L = wheels_rel W t A L"
  "wheels_rel W (t\<lparr>h_idx := i\<rparr>) A L = wheels_rel W t A L"
  "wheels_rel W (t\<lparr>d_idx := i\<rparr>) A L = wheels_rel W t A L"
  by (simp_all add: wheels_rel_def linked_ok_def)

lemma empty_loop:
  assumes rel: "wheels_rel W t A L" and fuel: "0 < fuel"
    and a: "a = Ms_list 0 \<or> a = S_list 0 \<or> a = M_list 0 \<or> a = H_list 0"
  shows "timer_loop fuel body a t = Some t"
proof -
  have a': "a \<in> heads"
    using a by (auto simp: timer_simps)
  have "L a = []"
  proof (rule ccontr)
    assume "L a \<noteq> []"
    then have "hd (L a) \<in> set (L a)"
      by simp
    then obtain it where "slot_ok a it"
      using wheels_linked [OF rel a'] by metis
    then show False
      using a by auto
  qed
  then show ?thesis
    unfolding timer_loop_def
    using rel a' fuel
    by (intro list_h.for_each_safe_empty [where get = lists and H = heads and L = L])
      (simp_all add: wheels_rel_def)
qed

lemma index_turn:
  assumes u: "0 < u" "0 < k" "k \<le> 1000" and full: "Suc n mod u = 0" and i: "i = n div u mod k"
  shows "to_u16 (i + 1) mod k = Suc n div u mod k"
proof -
  have "i < k"
    unfolding i using u(2) by simp
  then have "to_u16 (i + 1) = i + 1"
    using u(3) by (intro to_u16_id) simp
  then have "to_u16 (i + 1) mod k = Suc (n div u mod k) mod k"
    using i by simp
  also have "\<dots> = Suc (n div u) mod k"
    by (rule mod_Suc_eq)
  also have "Suc (n div u) = Suc n div u"
    using full by (simp add: div_Suc)
  finally show ?thesis .
qed

lemma index_keeps: "Suc n mod u \<noteq> 0 \<Longrightarrow> Suc n div u = n div (u :: nat)"
  by (simp add: div_Suc)

lemma index_steps: "Suc n mod u = 0 \<Longrightarrow> Suc n div u = n div u + 1"
  by (simp add: div_Suc)

text \<open>
  The tick reduces to the loop on the reached slot, run on the wheels with their new indices:
  the finer wheels have nothing in the slots 0 they turned to.
\<close>

lemma tick_active:
  assumes rel: "wheels_rel (\<lambda>_. now) t A L" and clock: "clock_is now t"
    and T: "T = Suc now" "T < 2 ^ 31" and fuel: "0 < fuel" and a: "a = active_slot T"
  shows "\<exists>t1. posted t1 = posted t \<and> clock_is T t1 \<and> (\<forall>W. wheels_rel W t1 A L = wheels_rel W t A L) \<and>
    (\<forall>t'. timer_loop fuel (wheel_body a) a t1 = Some t' \<longrightarrow> clock_is T t' \<longrightarrow>
       uc_timer_tick fuel t = Some t')"
proof -
  note C = clock [unfolded clock_is_def]
  have ms: "to_u16 (ms_idx t + 1) mod 1000 = T mod 1000"
    using index_turn [of 1 1000 now "ms_idx t"] C T by simp
  have turn: "T mod 1000 = 0 \<Longrightarrow> to_u16 (s_idx t + 1) mod 60 = T div 1000 mod 60"
    "T mod 60000 = 0 \<Longrightarrow> to_u16 (m_idx t + 1) mod 60 = T div 60000 mod 60"
    "T mod 3600000 = 0 \<Longrightarrow> to_u16 (h_idx t + 1) mod 24 = T div 3600000 mod 24"
  proof -
    show "to_u16 (s_idx t + 1) mod 60 = T div 1000 mod 60" if "T mod 1000 = 0"
      using that C unfolding T(1) by (intro index_turn) simp_all
    show "to_u16 (m_idx t + 1) mod 60 = T div 60000 mod 60" if "T mod 60000 = 0"
      using that C unfolding T(1) by (intro index_turn) simp_all
    show "to_u16 (h_idx t + 1) mod 24 = T div 3600000 mod 24" if "T mod 3600000 = 0"
      using that C unfolding T(1) by (intro index_turn) simp_all
  qed
  have keep: "T div u = now div u" if "T mod u \<noteq> 0" for u
    using that unfolding T(1) by (rule index_keeps)
  note empty = empty_loop [OF _ fuel, where W = "\<lambda>_. now" and A = A and L = L]
  consider (ms) "T mod 1000 \<noteq> 0"
    | (s) "T mod 1000 = 0" "T div 1000 mod 60 \<noteq> 0"
    | (m) "T mod 1000 = 0" "T div 1000 mod 60 = 0" "T div 60000 mod 60 \<noteq> 0"
    | (h) "T mod 1000 = 0" "T div 1000 mod 60 = 0" "T div 60000 mod 60 = 0" "T div 3600000 mod 24 \<noteq> 0"
    | (d) "T mod 1000 = 0" "T div 1000 mod 60 = 0" "T div 60000 mod 60 = 0" "T div 3600000 mod 24 = 0"
    by blast
  then show ?thesis
  proof cases
    case ms
    have mods: "T mod 60000 \<noteq> 0" "T mod 3600000 \<noteq> 0" "T mod 86400000 \<noteq> 0"
      using due_split [of T] ms by linarith+
    have "clock_is T (t\<lparr>ms_idx := T mod 1000\<rparr>)"
      using C by (simp add: clock_is_def keep [OF ms] mods [THEN keep])
    moreover have "a = Ms_list (T mod 1000)"
      using ms a by (simp add: active_slot.simps)
    ultimately show ?thesis
      using ms \<open>to_u16 (ms_idx t + 1) mod 1000 = T mod 1000\<close>
      by (intro exI [of _ "t\<lparr>ms_idx := T mod 1000\<rparr>"])
        (simp add: frame_simps uc_timer_tick_def tick_ms_def tick_s_def tick_m_def tick_h_def
          tick_d_def Let_def bodies_eq(1) [of "T mod 1000"] clock_is_def)
  next
    case s
    have mods: "T mod 60000 \<noteq> 0" "T mod 3600000 \<noteq> 0" "T mod 86400000 \<noteq> 0"
      using due_split [of T] s by linarith+
    have clk: "clock_is T (t\<lparr>ms_idx := 0, s_idx := T div 1000 mod 60\<rparr>)"
      using C s(1) by (simp add: clock_is_def mods [THEN keep])
    have si: "to_u16 (s_idx t + 1) mod 60 = T div 1000 mod 60"
      using turn(1) s(1) .
    have "tick_ms fuel t = Some (t\<lparr>ms_idx := 0\<rparr>)"
      using ms s(1) rel by (simp add: tick_ms_def Let_def empty frame_simps)
    moreover have "a = S_list (T div 1000 mod 60)"
      using s a by (simp add: active_slot.simps)
    ultimately show ?thesis
      using s clk si
      by (intro exI [of _ "t\<lparr>ms_idx := 0, s_idx := T div 1000 mod 60\<rparr>"])
        (simp add: frame_simps uc_timer_tick_def tick_s_def tick_m_def tick_h_def
          tick_d_def Let_def bodies_eq(2) [of "T div 1000 mod 60"] clock_is_def)
  next
    case m
    have mods: "T mod 60000 = 0" "T mod 3600000 \<noteq> 0" "T mod 86400000 \<noteq> 0"
      using due_split [of T] m by linarith+
    have clk: "clock_is T (t\<lparr>ms_idx := 0, s_idx := 0, m_idx := T div 60000 mod 60\<rparr>)"
      using C m(1,2) by (simp add: clock_is_def mods(2,3) [THEN keep])
    have si: "to_u16 (s_idx t + 1) mod 60 = 0" "to_u16 (m_idx t + 1) mod 60 = T div 60000 mod 60"
      by (rule trans [OF turn(1) [OF m(1)] m(2)], rule turn(2) [OF mods(1)])
    have "tick_ms fuel t = Some (t\<lparr>ms_idx := 0\<rparr>)"
      using ms m(1) rel by (simp add: tick_ms_def Let_def empty frame_simps)
    moreover have "tick_s fuel (t\<lparr>ms_idx := 0\<rparr>) = Some (t\<lparr>ms_idx := 0, s_idx := 0\<rparr>)"
      using si rel by (simp add: tick_s_def Let_def empty frame_simps)
    moreover have "a = M_list (T div 60000 mod 60)"
      using m a by (simp add: active_slot.simps)
    ultimately show ?thesis
      using m clk si
      by (intro exI [of _ "t\<lparr>ms_idx := 0, s_idx := 0, m_idx := T div 60000 mod 60\<rparr>"])
        (simp add: frame_simps uc_timer_tick_def tick_m_def tick_h_def
          tick_d_def Let_def bodies_eq(3) [of "T div 60000 mod 60"] clock_is_def)
  next
    case h
    have mods: "T mod 60000 = 0" "T mod 3600000 = 0" "T mod 86400000 \<noteq> 0"
      using due_split [of T] h by linarith+
    have clk: "clock_is T (t\<lparr>ms_idx := 0, s_idx := 0, m_idx := 0, h_idx := T div 3600000 mod 24\<rparr>)"
      using C h(1-3) by (simp add: clock_is_def mods(3) [THEN keep])
    have si: "to_u16 (s_idx t + 1) mod 60 = 0" "to_u16 (m_idx t + 1) mod 60 = 0"
      "to_u16 (h_idx t + 1) mod 24 = T div 3600000 mod 24"
      by (rule trans [OF turn(1) [OF h(1)] h(2)], rule trans [OF turn(2) [OF mods(1)] h(3)],
          rule turn(3) [OF mods(2)])
    have "tick_ms fuel t = Some (t\<lparr>ms_idx := 0\<rparr>)"
      using ms h(1) rel by (simp add: tick_ms_def Let_def empty frame_simps)
    moreover have "tick_s fuel (t\<lparr>ms_idx := 0\<rparr>) = Some (t\<lparr>ms_idx := 0, s_idx := 0\<rparr>)"
      using si rel by (simp add: tick_s_def Let_def empty frame_simps)
    moreover have "tick_m fuel (t\<lparr>ms_idx := 0, s_idx := 0\<rparr>)
        = Some (t\<lparr>ms_idx := 0, s_idx := 0, m_idx := 0\<rparr>)"
      using si rel by (simp add: tick_m_def Let_def empty frame_simps)
    moreover have "a = H_list (T div 3600000 mod 24)"
      using h a by (simp add: active_slot.simps)
    ultimately show ?thesis
      using h clk si
      by (intro exI [of _ "t\<lparr>ms_idx := 0, s_idx := 0, m_idx := 0, h_idx := T div 3600000 mod 24\<rparr>"])
        (simp add: frame_simps uc_timer_tick_def tick_h_def
          tick_d_def Let_def bodies_eq(4) [of "T div 3600000 mod 24"] clock_is_def)
  next
    case d
    have mods: "T mod 60000 = 0" "T mod 3600000 = 0" "T mod 86400000 = 0"
      using due_split [of T] d by linarith+
    have si: "to_u16 (s_idx t + 1) mod 60 = 0" "to_u16 (m_idx t + 1) mod 60 = 0"
      "to_u16 (h_idx t + 1) mod 24 = 0"
      by (rule trans [OF turn(1) [OF d(1)] d(2)], rule trans [OF turn(2) [OF mods(1)] d(3)],
          rule trans [OF turn(3) [OF mods(2)] d(4)])
    have "now < 30 * 86400000"
      using T by simp
    then have "now div 86400000 < 30"
      by (rule less_mult_imp_div_less)
    then have "to_u16 (now div 86400000 + 1) = now div 86400000 + 1"
      by (intro to_u16_id) simp
    moreover have "T div 86400000 = now div 86400000 + 1"
      using mods(3) unfolding T(1) by (rule index_steps)
    moreover have "d_idx t = now div 86400000"
      using C by simp
    ultimately have "to_u16 (d_idx t + 1) = T div 86400000"
      by (simp only:)
    moreover have "clock_is T (t\<lparr>ms_idx := 0, s_idx := 0, m_idx := 0, h_idx := 0,
        d_idx := T div 86400000\<rparr>)"
      using d by (simp add: clock_is_def)
    moreover have "tick_ms fuel t = Some (t\<lparr>ms_idx := 0\<rparr>)"
      using ms d(1) rel by (simp add: tick_ms_def Let_def empty frame_simps)
    moreover have "tick_s fuel (t\<lparr>ms_idx := 0\<rparr>) = Some (t\<lparr>ms_idx := 0, s_idx := 0\<rparr>)"
      using si rel by (simp add: tick_s_def Let_def empty frame_simps)
    moreover have "tick_m fuel (t\<lparr>ms_idx := 0, s_idx := 0\<rparr>)
        = Some (t\<lparr>ms_idx := 0, s_idx := 0, m_idx := 0\<rparr>)"
      using si rel by (simp add: tick_m_def Let_def empty frame_simps)
    moreover have "tick_h fuel (t\<lparr>ms_idx := 0, s_idx := 0, m_idx := 0\<rparr>)
        = Some (t\<lparr>ms_idx := 0, s_idx := 0, m_idx := 0, h_idx := 0\<rparr>)"
      using si rel by (simp add: tick_h_def Let_def empty frame_simps)
    moreover have "a = D_list 0"
      using d a by (simp add: active_slot.simps)
    ultimately show ?thesis
      by (intro exI [of _ "t\<lparr>ms_idx := 0, s_idx := 0, m_idx := 0, h_idx := 0,
          d_idx := T div 86400000\<rparr>"])
        (simp add: frame_simps uc_timer_tick_def tick_d_def Let_def bodies_eq(5))
  qed
qed

lemma wheels_nodes:
  assumes "wheels_rel W t A L" "b \<in> heads" "n \<in> set (L b)"
  shows "n = Item (item_id n)" "item_id n \<in> dom A"
proof -
  obtain p x where "n = Item p" "A p = Some x"
    using wheels_linked [OF assms] by metis
  then show "n = Item (item_id n)" "item_id n \<in> dom A"
    by auto
qed

lemma wheels_finite: "wheels_rel W t A L \<Longrightarrow> finite (dom A)"
proof -
  assume rel: "wheels_rel W t A L"
  have "dom A \<subseteq> item_id ` (\<Union>b\<in>heads. set (L b))"
  proof
    fix p
    assume "p \<in> dom A"
    then obtain b where "b \<in> heads" "Item p \<in> set (L b)"
      using rel unfolding wheels_rel_def by auto
    then show "p \<in> item_id ` (\<Union>b\<in>heads. set (L b))"
      by (intro image_eqI [of _ _ "Item p"]) auto
  qed
  moreover have "finite (item_id ` (\<Union>b\<in>heads. set (L b)))"
    by (simp add: heads_def)
  ultimately show "finite (dom A)"
    by (rule finite_subset)
qed

lemma slot_length:
  assumes rel: "wheels_rel W t A L" and b: "b \<in> heads"
  shows "length (L b) \<le> card (dom A)"
proof -
  have "distinct (L b)"
    using rel b list_h.rel_distinct [of "lists t" heads L b] by (simp add: wheels_rel_def)
  moreover have "inj_on item_id (set (L b))"
    using wheels_nodes(1) [OF rel b] by (metis inj_onI)
  ultimately have "length (L b) = card (item_id ` set (L b))"
    by (simp add: card_image distinct_card)
  also have "\<dots> \<le> card (dom A)"
    using wheels_nodes(2) [OF rel b] by (intro card_mono wheels_finite [OF rel]) auto
  finally show ?thesis .
qed

lemma active_in_heads: "active_slot t \<in> heads"
  by (simp add: active_slot.simps timer_simps)

theorem timer_tick_refines:
  assumes rel: "timer_rel now t A" and small: "Suc now < 2 ^ 31" and fuel: "2 * card (dom A) < fuel"
  shows "\<exists>t' ps. uc_timer_tick fuel t = Some t' \<and> timer_rel (Suc now) t' (spec_tick (Suc now) A) \<and>
    posted t' = posted t @ ps \<and> mset ps = image_mset (job_of A) (mset_set (due_at (Suc now) A))"
proof -
  define a where "a = active_slot (Suc now)"
  obtain L where clock: "clock_is now t" and w: "wheels_rel (\<lambda>_. now) t A L"
    using rel unfolding timer_rel_def by blast
  have a: "active_slot (Suc now) = a" "a \<in> heads"
    by (simp_all add: a_def active_in_heads)
  note split = tick_split [OF w a]
  obtain t1 where t1: "posted t1 = posted t" "clock_is (Suc now) t1"
    "\<And>W. wheels_rel W t1 A L = wheels_rel W t A L"
    "\<And>t'. timer_loop fuel (wheel_body a) a t1 = Some t' \<Longrightarrow> clock_is (Suc now) t' \<Longrightarrow>
       uc_timer_tick fuel t = Some t'"
  proof -
    have "0 < fuel"
      using fuel by simp
    from tick_active [OF w clock refl small this a(1) [symmetric]] that show thesis
      by blast
  qed
  have "2 * length (L a) < fuel"
    using slot_length [OF w a(2)] fuel by simp
  then obtain t' L' where t': "timer_loop fuel (wheel_body a) a t1 = Some t'" "clock_is (Suc now) t'"
    "wheels_rel (\<lambda>_. Suc now) t' (spec_tick (Suc now) A) L'"
    "posted t' = posted t @ concat (map (\<lambda>n. fired (Suc now) A (item_id n)) (L a))"
    using wheel_loop [of L a now "Suc now" t1 A fuel] split(1,2) t1 small a by auto
  have "distinct (L a)"
    using w a(2) list_h.rel_distinct [of "lists t" heads L a] by (simp add: wheels_rel_def)
  from fired_mset [OF this split(3) wheels_nodes(1) [OF w a(2)]] show ?thesis
    using t1(4) [OF t'(1,2)] t'(2-4) unfolding timer_rel_def by blast
qed

end
