(* ===== verification/Timer_Service.thy ===== *)
theory Timer_Service
  imports Timer_Wheels
begin

text \<open>
  The timer component as its callers see it: set-up, insertion and removal establish and keep the
  relation to the table of timers, so any sequence of operations and ticks of the code is one of
  the table; and what the table says of the number of times a callback is posted.
\<close>

section \<open>Set-up\<close>

lemma fold_list_init:
  "dlist h a [] \<or> a \<in> set hs \<Longrightarrow> dlist (fold list_init hs h) a []"
proof (induction hs arbitrary: h)
  case Nil
  then show ?case by simp
next
  case (Cons b hs)
  have "dlist (list_init b h) a [] \<or> a \<in> set hs"
  proof (cases "a = b")
    case True
    then show ?thesis by (simp add: dlist_list_init)
  next
    case False
    then show ?thesis using Cons.prems by (auto simp: frame_simps)
  qed
  from Cons.IH [OF this] show ?case by simp
qed

lemma uc_timer_init_rel:
  obtains t where "uc_timer_init (Some g) True 0 None = (0, Some t)" "timer_rel 0 t Map.empty"
    "posted t = []" "items t = Map.empty"
proof -
  let ?t = "\<lparr>lists = fold list_init wheel_heads g, ms_idx = 0, s_idx = 0, m_idx = 0,
     h_idx = 0, d_idx = 0, items = Map.empty, posted = []\<rparr>"
  have "wheels_rel (\<lambda>_. 0) ?t Map.empty (\<lambda>_. [])"
    by (simp add: wheels_rel_def lists_rel_def heads_def fold_list_init)
  then have "timer_rel 0 ?t Map.empty"
    unfolding timer_rel_def by (auto simp: clock_is_def)
  then show ?thesis
    using that [of ?t] by (simp add: uc_timer_init_def uc_timer_init_do_def)
qed

section \<open>Insertion\<close>

definition blank_item :: timer_item where
  "blank_item = \<lparr>it_interval = 0, it_ttl = 0, it_ms = 0, it_s = 0, it_m = 0, it_h = 0, it_d = 0,
     it_cb = 0, it_arg = 0\<rparr>"

text \<open>The slot a due time is added to, and the time a timer added for it expires.\<close>

definition first_expiry :: "nat \<Rightarrow> nat \<Rightarrow> nat" where
  "first_expiry now millisecond =
     (let due = now + millisecond in add_due now (add_slot (set_due due blank_item)) due)"

lemma add_slot_fields: "add_slot (set_due e it) = add_slot (set_due e it')"
  by (simp add: add_slot_def set_due_def)

lemma unlinked_fresh:
  assumes "wheels_rel W t A L" "A p = None"
  shows "unlinked heads L (Item p)"
  using assms wheels_nodes(2) [OF assms(1)]
  unfolding unlinked_def by (fastforce simp: timer_simps)

lemma uc_timer_add_rel:
  assumes rel: "timer_rel now t A" and now: "now < 2 ^ 31"
    and ms: "0 < millisecond" "millisecond < TIMER_INTERVAL_MAX" and fresh: "items t p = None"
  shows "\<exists>t'. uc_timer_add (Some p) millisecond n (Some f) x t = (Some p, t') \<and> posted t' = posted t \<and>
    timer_rel now t' (A(p \<mapsto> \<lparr>at_due = first_expiry now millisecond, at_every = millisecond,
      at_left = n, at_job = (f, x)\<rparr>))"
proof -
  obtain L where clock: "clock_is now t" and w: "wheels_rel (\<lambda>_. now) t A L"
    using rel unfolding timer_rel_def by blast
  let ?e = "now + millisecond"
  define it0 where "it0 = \<lparr>it_interval = millisecond, it_ttl = n, it_ms = 0, it_s = 0, it_m = 0,
    it_h = 0, it_d = 0, it_cb = f, it_arg = x\<rparr>"
  define it where "it = set_due ?e it0"
  define a where "a = add_slot it"
  define t' where "t' = timer_append (Item p) a (t\<lparr>items := (items t)(p \<mapsto> it)\<rparr>)"
  have e: "now < ?e" "?e < 86400000 * 65536" "0 < ?e"
    using now ms by (simp_all add: TIMER_INTERVAL_MAX_def)
  then have "(clock_u64 t + millisecond) mod 2 ^ 64 = ?e"
    using clock_u64_eq [OF clock now] by simp
  then have add: "uc_timer_add (Some p) millisecond n (Some f) x t = (Some p, t')"
    using ms by (simp add: uc_timer_add_def uc_timer_add_do_def t'_def a_def it_def it0_def Let_def)
  have ok: "item_ok it"
    unfolding it_def using ms by (intro item_ok_set_due e(2)) (simp_all add: it0_def)
  have sl: "slot_ok a it"
    unfolding a_def it_def by (rule add_slot_ok [OF e(3,2)])
  have "waits now a it (add_due now a ?e)"
    unfolding it_def by (rule waits_add_due [OF e(1,2)]) (simp add: a_def it_def)
  moreover have "a = add_slot (set_due ?e blank_item)"
    unfolding a_def it_def by (rule add_slot_fields)
  ultimately have sh: "shows_as now a it \<lparr>at_due = first_expiry now millisecond,
      at_every = millisecond, at_left = n, at_job = (f, x)\<rparr>"
    using set_due_fields [OF e(2), of it0]
    unfolding shows_as_def first_expiry_def Let_def by (simp add: it_def it0_def)
  have "A p = None"
    using wheels_items [OF w, of p] fresh by (cases "A p") auto
  note un = unlinked_fresh [OF w this]
  have "wheels_rel (\<lambda>_. now) t' (A(p \<mapsto> \<lparr>at_due = first_expiry now millisecond,
      at_every = millisecond, at_left = n, at_job = (f, x)\<rparr>)) (L(a := L a @ [Item p]))"
    by (rule wheels_insert [OF w slot_in_heads [OF ok sl] un ok sl])
      (use sh in \<open>simp_all add: t'_def timer_append_def\<close>)
  moreover have "clock_is now t'"
    using clock by (simp add: t'_def timer_append_def clock_is_def)
  ultimately show ?thesis
    using add unfolding timer_rel_def by (auto simp: t'_def timer_append_def)
qed

text \<open>
  When the timer expires: on time if the wheel it is put on still has to turn to reach its
  field; otherwise that wheel has passed the slot and the timer is a full turn late.
\<close>

lemma first_expiry_cases:
  "first_expiry now millisecond = now + millisecond \<or>
   (\<exists>a. a = add_slot (set_due (now + millisecond) blank_item) \<and>
      now div unit_of a = (now + millisecond) div unit_of a \<and>
      first_expiry now millisecond = now + millisecond + span_of a)"
proof -
  let ?a = "add_slot (set_due (now + millisecond) blank_item)"
  have "now div unit_of ?a \<le> (now + millisecond) div unit_of ?a"
    by (rule div_le_mono) simp
  then show ?thesis
    by (auto simp: first_expiry_def add_due_def Let_def)
qed

section \<open>Removal\<close>

lemma linked_neighbours:
  assumes w: "wheels_rel W t A L" and p: "A p = Some x"
  shows "live_addr t (Item p)" "live_addr t (lnext (lists t) (Item p))"
    "live_addr t (lprev (lists t) (Item p))"
proof -
  have "A p \<noteq> None"
    using p by simp
  then obtain b where b: "b \<in> heads" "Item p \<in> set (L b)"
    using w unfolding wheels_rel_def by blast
  then obtain xs ys where L: "L b = xs @ Item p # ys"
    by (meson split_list)
  have d: "dlist (lists t) b (xs @ Item p # ys)"
    using w b(1) L by (auto simp: wheels_rel_def lists_rel_def)
  have live: "live_addr t n" if "n \<in> set (b # L b)" for n
  proof (cases "n = b")
    case True
    then show ?thesis using b(1) by (cases b) (auto simp: live_addr_def timer_simps)
  next
    case False
    then have "linked_ok W t A b n"
      using that w b(1) by (auto simp: wheels_rel_def)
    then show ?thesis
      by (auto simp: linked_ok_def live_addr_def)
  qed
  show "live_addr t (Item p)"
    using live b(2) by simp
  show "live_addr t (lnext (lists t) (Item p))"
    using dlist_nextD [OF d] L by (intro live) (auto split: list.splits)
  show "live_addr t (lprev (lists t) (Item p))"
    using dlist_prevD [OF d] L by (intro live) (auto split: if_splits)
qed

lemma uc_timer_delete_rel:
  assumes rel: "timer_rel now t A" and p: "A p = Some x"
  shows "\<exists>t'. uc_timer_delete (Some p) t = Some (0, t') \<and> timer_rel now t' (A(p := None)) \<and>
    posted t' = posted t \<and> items t' p = None"
proof -
  obtain L where clock: "clock_is now t" and w: "wheels_rel (\<lambda>_. now) t A L"
    using rel unfolding timer_rel_def by blast
  let ?t = "t\<lparr>lists := list_del (Item p) (lists t), items := (items t)(p := None)\<rparr>"
  have "A p \<noteq> None"
    using p by simp
  then obtain b where b: "b \<in> heads" "Item p \<in> set (L b)"
    using w unfolding wheels_rel_def by blast
  then obtain xs ys where L: "L b = xs @ Item p # ys"
    by (meson split_list)
  have "wheels_rel (\<lambda>_. now) ?t (A(p := None)) (L(b := xs @ ys))"
    by (rule wheels_drop [OF w b(1) L]) simp_all
  moreover have "clock_is now ?t"
    using clock by (simp add: clock_is_def)
  moreover have "uc_timer_delete (Some p) t = Some (0, ?t)"
    using linked_neighbours [OF w p]
    by (simp add: uc_timer_delete_def uc_timer_delete_do_def timer_unlink_def Let_def)
  ultimately show ?thesis
    unfolding timer_rel_def by auto
qed

section \<open>Many ticks\<close>

text \<open>The table after \<open>n\<close> ticks, and the jobs they post.\<close>

primrec spec_run :: "nat \<Rightarrow> nat \<Rightarrow> (nat \<rightharpoonup> timer_spec) \<Rightarrow> (nat \<rightharpoonup> timer_spec)" where
  "spec_run now 0 A = A"
| "spec_run now (Suc n) A = spec_run (Suc now) n (spec_tick (Suc now) A)"

primrec spec_jobs :: "nat \<Rightarrow> nat \<Rightarrow> (nat \<rightharpoonup> timer_spec) \<Rightarrow> task multiset" where
  "spec_jobs now 0 A = {#}"
| "spec_jobs now (Suc n) A = image_mset (job_of A) (mset_set (due_at (Suc now) A))
     + spec_jobs (Suc now) n (spec_tick (Suc now) A)"

lemma dom_spec_tick: "dom (spec_tick t A) \<subseteq> dom A"
  by (auto simp: spec_tick_def bind_eq_Some_conv)

lemma timer_rel_finite: "timer_rel now t A \<Longrightarrow> finite (dom A)"
  unfolding timer_rel_def using wheels_finite by blast

lemma uc_timer_check_timeout_refines:
  "timer_rel now t A \<Longrightarrow> now + n < 2 ^ 31 \<Longrightarrow> 2 * card (dom A) < fuel \<Longrightarrow>
   \<exists>t' ps. uc_timer_check_timeout fuel n t = Some t' \<and> timer_rel (now + n) t' (spec_run now n A) \<and>
     posted t' = posted t @ ps \<and> mset ps = spec_jobs now n A"
proof (induction n arbitrary: now t A)
  case 0
  then show ?case by simp
next
  case (Suc n)
  have small: "Suc now < 2 ^ 31"
    using Suc.prems(2) by simp
  obtain t1 ps where t1: "uc_timer_tick fuel t = Some t1"
    "timer_rel (Suc now) t1 (spec_tick (Suc now) A)" "posted t1 = posted t @ ps"
    "mset ps = image_mset (job_of A) (mset_set (due_at (Suc now) A))"
    using timer_tick_refines [OF Suc.prems(1) small Suc.prems(3)] by blast
  have "card (dom (spec_tick (Suc now) A)) \<le> card (dom A)"
    by (rule card_mono [OF timer_rel_finite [OF Suc.prems(1)] dom_spec_tick])
  then have "2 * card (dom (spec_tick (Suc now) A)) < fuel"
    using Suc.prems(3) by linarith
  moreover have "Suc now + n < 2 ^ 31"
    using Suc.prems(2) by simp
  ultimately obtain t2 ps' where t2: "uc_timer_check_timeout fuel n t1 = Some t2"
    "timer_rel (Suc now + n) t2 (spec_run (Suc now) n (spec_tick (Suc now) A))"
    "posted t2 = posted t1 @ ps'" "mset ps' = spec_jobs (Suc now) n (spec_tick (Suc now) A)"
    using Suc.IH [OF t1(2)] by blast
  show ?case
    using t1 t2 by (intro exI [of _ t2] exI [of _ "ps @ ps'"]) simp
qed

text \<open>How often one timer comes due up to the time \<open>stop\<close>: every period from its due time on.\<close>

definition fire_count :: "nat \<Rightarrow> timer_spec \<Rightarrow> nat" where
  "fire_count stop x =
     (if stop < at_due x then 0
      else (let k = Suc ((stop - at_due x) div at_every x)
            in if at_left x = 0 then k else min (at_left x) k))"

lemma fire_count_step:
  assumes "at_due x = t" "0 < at_every x" "t \<le> stop"
  shows "fire_count stop x = Suc (case spec_fire t x of None \<Rightarrow> 0 | Some x' \<Rightarrow> fire_count stop x')"
proof (cases "stop < t + at_every x")
  case True
  then have "(stop - t) div at_every x = 0"
    using assms by simp
  then show ?thesis
    using True assms by (auto simp: fire_count_def spec_fire_def min_def)
next
  case False
  then have "(stop - t) div at_every x = Suc ((stop - (t + at_every x)) div at_every x)"
    using assms le_div_geq [of "at_every x" "stop - t"] by simp
  then show ?thesis
    using False assms by (auto simp: fire_count_def spec_fire_def min_def Let_def)
qed

lemma spec_item_later:
  "spec_item t y = Some x \<Longrightarrow> t \<le> at_due y \<Longrightarrow> 0 < at_every y \<Longrightarrow> t < at_due x \<and> 0 < at_every x"
  by (auto simp: spec_item_def spec_fire_def split: if_splits)

lemma sum_single_mset: "finite D \<Longrightarrow> (\<Sum>p\<in>D. {#f p#}) = image_mset f (mset_set D)"
  by (induction rule: finite_induct) simp_all

text \<open>The jobs posted in \<open>n\<close> ticks are each timer's job, as often as it comes due.\<close>

lemma spec_jobs_sum:
  "finite (dom A) \<Longrightarrow> \<forall>p x. A p = Some x \<longrightarrow> now < at_due x \<and> 0 < at_every x \<Longrightarrow>
   spec_jobs now n A = (\<Sum>p\<in>dom A. replicate_mset (fire_count (now + n) (the (A p))) (job_of A p))"
proof (induction n arbitrary: now A)
  case 0
  then have "fire_count now (the (A p)) = 0" if "p \<in> dom A" for p
    using that by (auto simp: fire_count_def)
  then show ?case by simp
next
  case (Suc n)
  let ?A = "spec_tick (Suc now) A" and ?stop = "now + Suc n"
  let ?f = "\<lambda>p. replicate_mset (fire_count ?stop (the (A p))) (job_of A p)"
  let ?g = "\<lambda>p. replicate_mset (fire_count ?stop (the (?A p))) (job_of ?A p)"
  let ?D = "due_at (Suc now) A"
  have due: "Suc now \<le> at_due x" "0 < at_every x" if "A p = Some x" for p x
    using Suc.prems(2) that by (auto simp: Suc_le_eq)
  have IH: "spec_jobs (Suc now) n ?A = (\<Sum>p\<in>dom ?A. ?g p)"
  proof -
    have "finite (dom ?A)"
      by (rule finite_subset [OF dom_spec_tick Suc.prems(1)])
    moreover have "\<forall>p x. ?A p = Some x \<longrightarrow> Suc now < at_due x \<and> 0 < at_every x"
      using due spec_item_later unfolding spec_tick_def bind_eq_Some_conv by blast
    ultimately show ?thesis
      using Suc.IH [of ?A "Suc now"] by simp
  qed
  have step: "?f p = (if p \<in> ?D then {#job_of A p#} else {#})
      + (if p \<in> dom ?A then ?g p else {#})" if p: "p \<in> dom A" for p
  proof -
    obtain x where x: "A p = Some x"
      using p by auto
    show ?thesis
    proof (cases "at_due x = Suc now")
      case True
      have "job_of ?A p = at_job x" if "spec_fire (Suc now) x = Some x'" for x'
        using that x True by (auto simp: job_of_def spec_tick_def spec_item_def spec_fire_def split: if_splits)
      then show ?thesis
        using x True fire_count_step [OF True due(2) [OF x], of ?stop]
        by (cases "spec_fire (Suc now) x")
          (auto simp: due_at_def job_of_def spec_tick_def spec_item_def dom_def)
    next
      case False
      then show ?thesis
        using x by (auto simp: due_at_def job_of_def spec_tick_def spec_item_def dom_def)
    qed
  qed
  have "?D \<subseteq> dom A"
    by (auto simp: due_at_def)
  then have D: "(\<Sum>p\<in>dom A. if p \<in> ?D then {#job_of A p#} else {#})
      = image_mset (job_of A) (mset_set ?D)"
    using Suc.prems(1) finite_subset [of ?D "dom A"]
    by (simp add: sum.If_cases Int_absorb1 sum_single_mset)
  have G: "(\<Sum>p\<in>dom A. if p \<in> dom ?A then ?g p else {#}) = (\<Sum>p\<in>dom ?A. ?g p)"
    using Suc.prems(1) dom_spec_tick [of "Suc now" A] by (simp add: sum.If_cases Int_absorb1)
  have "(\<Sum>p\<in>dom A. ?f p) = (\<Sum>p\<in>dom A. (if p \<in> ?D then {#job_of A p#} else {#})
      + (if p \<in> dom ?A then ?g p else {#}))"
    by (rule sum.cong [OF refl step])
  then show ?case
    using D G IH by (simp add: sum.distrib)
qed

section \<open>A tick frees nothing\<close>

lemma list_for_each_safe_keeps:
  assumes "\<And>n s s'. body n s = Some s' \<Longrightarrow> I s' = I s"
  shows "list_for_each_safe nx body fuel pos n a s = Some s' \<Longrightarrow> I s' = I s"
proof (induction fuel arbitrary: pos n s)
  case (Suc fuel)
  then show ?case
    using assms by (auto split: if_splits option.splits)
qed simp

lemma timer_expire_dom:
  "timer_expire p it t = Some t' \<Longrightarrow> items t p \<noteq> None \<Longrightarrow> dom (items t') = dom (items t)"
  by (auto simp: timer_expire_def uc_timer_node_reinsert_def timer_unlink_def timer_post_def
      timer_append_def Let_def split: if_splits option.splits)

lemma wheel_body_dom:
  assumes "wheel_body a n t = Some t'"
  shows "dom (items t') = dom (items t)"
proof -
  obtain p it where it: "n = Item p" "items t p = Some it"
    using assms by (auto simp: wheel_body_def on_entry_def split: taddr.splits option.splits)
  show ?thesis
  proof (cases "a = D_list 0 \<and> it_d it \<noteq> d_idx t")
    case True
    then show ?thesis using assms it by (simp add: wheel_body_def on_entry_def)
  next
    case False
    then have "(case lower_slot a it of None \<Rightarrow> timer_expire p it t
        | Some b \<Rightarrow> move_down (Item p) b t) = Some t'"
      using assms it by (auto simp: wheel_body_def on_entry_def)
    then show ?thesis
      using it(2) timer_expire_dom [of p it t t']
      by (cases "lower_slot a it") (auto simp: move_down_def timer_append_def timer_unlink_def)
  qed
qed

lemma timer_loop_dom: "timer_loop fuel (wheel_body b) a t = Some t' \<Longrightarrow> dom (items t') = dom (items t)"
  unfolding timer_loop_def run_for_each_safe_def
  by (rule list_for_each_safe_keeps [where I = "\<lambda>t. dom (items t)"]) (rule wheel_body_dom)

lemma tick_parts_dom:
  "tick_ms fuel t = Some t' \<Longrightarrow> dom (items t') = dom (items t)"
  "tick_s fuel t = Some t' \<Longrightarrow> dom (items t') = dom (items t)"
  "tick_m fuel t = Some t' \<Longrightarrow> dom (items t') = dom (items t)"
  "tick_h fuel t = Some t' \<Longrightarrow> dom (items t') = dom (items t)"
  "tick_d fuel t = Some t' \<Longrightarrow> dom (items t') = dom (items t)"
  unfolding tick_ms_def tick_s_def tick_m_def tick_h_def tick_d_def Let_def bodies_eq(5)
    bodies_eq(1) [of 0] bodies_eq(2) [of 0] bodies_eq(3) [of 0] bodies_eq(4) [of 0]
  by (drule timer_loop_dom, simp, (simp split: if_splits, drule timer_loop_dom, simp)+)

lemma uc_timer_tick_dom:
  assumes "uc_timer_tick fuel t = Some t'"
  shows "dom (items t') = dom (items t)"
proof -
  obtain t1 t2 t3 t4 where ticks: "tick_ms fuel t = Some t1" "tick_s fuel t1 = Some t2"
    "tick_m fuel t2 = Some t3" "tick_h fuel t3 = Some t4" "tick_d fuel t4 = Some t'"
    using assms by (auto simp: uc_timer_tick_def bind_eq_Some_conv)
  show ?thesis
    using tick_parts_dom(1) [OF ticks(1)] tick_parts_dom(2) [OF ticks(2)]
      tick_parts_dom(3) [OF ticks(3)] tick_parts_dom(4) [OF ticks(4)] tick_parts_dom(5) [OF ticks(5)]
    by (simp only:)
qed

section \<open>Sequences of operations\<close>

text \<open>
  The calls a program makes, interleaved with the ticks of the checking thread (each holds the
  lock for its whole body). An insertion has the address its \<open>malloc\<close> returns, the interval, the
  count, the callback and the argument.
\<close>

datatype timer_op =
    Tick
  | Add nat nat nat nat nat
  | Delete nat

fun run_op :: "nat \<Rightarrow> timer_op \<Rightarrow> timer_manager \<Rightarrow> timer_manager option" where
  "run_op fuel Tick t = uc_timer_tick fuel t"
| "run_op fuel (Add p millisecond n f x) t = Some (snd (uc_timer_add (Some p) millisecond n (Some f) x t))"
| "run_op fuel (Delete p) t = map_option snd (uc_timer_delete (Some p) t)"

primrec run_ops :: "nat \<Rightarrow> timer_op list \<Rightarrow> timer_manager \<Rightarrow> timer_manager option" where
  "run_ops fuel [] t = Some t"
| "run_ops fuel (c # cs) t = Option.bind (run_op fuel c t) (run_ops fuel cs)"

text \<open>
  The table's side: the clock, the addresses of the items not yet freed (those of armed timers and
  of expired ones), the armed timers, and the jobs posted so far. A timer is only deleted while it
  is armed, the addresses \<open>malloc\<close> returns are not in use, and the clock stays in the range of an
  \<open>int\<close>.
\<close>

type_synonym service = "nat \<times> nat set \<times> (nat \<rightharpoonup> timer_spec) \<times> task multiset"

fun spec_op :: "timer_op \<Rightarrow> service \<Rightarrow> service option" where
  "spec_op Tick (now, live, A, jobs) =
     (if Suc now < 2 ^ 31
      then Some (Suc now, live, spec_tick (Suc now) A,
             jobs + image_mset (job_of A) (mset_set (due_at (Suc now) A)))
      else None)"
| "spec_op (Add p millisecond n f x) (now, live, A, jobs) =
     (if p \<in> live then None
      else if millisecond \<ge> TIMER_INTERVAL_MAX \<or> millisecond = 0 then Some (now, live, A, jobs)
      else Some (now, insert p live, A(p \<mapsto> \<lparr>at_due = first_expiry now millisecond,
        at_every = millisecond, at_left = n, at_job = (f, x)\<rparr>), jobs))"
| "spec_op (Delete p) (now, live, A, jobs) =
     (if A p = None then None else Some (now, live - {p}, A(p := None), jobs))"

primrec spec_ops :: "timer_op list \<Rightarrow> service \<Rightarrow> service option" where
  "spec_ops [] w = Some w"
| "spec_ops (c # cs) w = Option.bind (spec_op c w) (spec_ops cs)"

definition service_rel :: "nat \<Rightarrow> timer_manager \<Rightarrow> service \<Rightarrow> bool" where
  "service_rel fuel t w = (case w of (now, live, A, jobs) \<Rightarrow>
     timer_rel now t A \<and> dom (items t) = live \<and> mset (posted t) = jobs \<and> now < 2 ^ 31 \<and>
     finite live \<and> 2 * card live < fuel)"

text \<open>
  The code follows the table: no call fails, no loop runs out of fuel (two rounds for each item
  that can exist, plus one), and the jobs posted are those of the table's ticks.
\<close>

primrec adds :: "timer_op list \<Rightarrow> nat" where
  "adds [] = 0"
| "adds (c # cs) = (case c of Add p millisecond n f x \<Rightarrow> Suc (adds cs) | _ \<Rightarrow> adds cs)"

lemma timer_rel_live: "timer_rel now t A \<Longrightarrow> dom A \<subseteq> dom (items t)"
  unfolding timer_rel_def using wheels_items by blast

lemma run_op_refines:
  assumes rel: "service_rel fuel t w" and spec: "spec_op c w = Some w'"
    and fuel: "2 * (card (fst (snd w)) + adds [c]) < fuel"
  shows "\<exists>t'. run_op fuel c t = Some t' \<and> service_rel fuel t' w' \<and>
    card (fst (snd w')) \<le> card (fst (snd w)) + adds [c]"
proof -
  obtain now live A jobs where w: "w = (now, live, A, jobs)"
    by (cases w) auto
  have r: "timer_rel now t A" "dom (items t) = live" "now < 2 ^ 31" "finite live" "2 * card live < fuel"
    and jobs: "mset (posted t) = jobs"
    using rel w by (simp_all add: service_rel_def)
  show ?thesis
  proof (cases c)
    case Tick
    then have w': "w' = (Suc now, live, spec_tick (Suc now) A,
        jobs + image_mset (job_of A) (mset_set (due_at (Suc now) A)))" "Suc now < 2 ^ 31"
      using spec w by (auto split: if_splits)
    have "card (dom A) \<le> card live"
      using timer_rel_live [OF r(1)] r(2,4) by (auto intro: card_mono)
    then have "2 * card (dom A) < fuel"
      using r(5) by linarith
    then obtain t' ps where "uc_timer_tick fuel t = Some t'"
      "timer_rel (Suc now) t' (spec_tick (Suc now) A)" "posted t' = posted t @ ps"
      "mset ps = image_mset (job_of A) (mset_set (due_at (Suc now) A))"
      using timer_tick_refines [OF r(1) w'(2)] by blast
    then show ?thesis
      using Tick w w' r jobs uc_timer_tick_dom by (auto simp: service_rel_def)
  next
    case (Add p millisecond n f x)
    then have fresh: "p \<notin> live" "items t p = None"
      using spec w r(2) by (auto split: if_splits)
    show ?thesis
    proof (cases "millisecond \<ge> TIMER_INTERVAL_MAX \<or> millisecond = 0")
      case True
      then have "uc_timer_add (Some p) millisecond n (Some f) x t = (None, t)"
        by (auto simp: uc_timer_add_def uc_timer_add_do_def)
      then show ?thesis
        using Add True spec w rel fresh by auto
    next
      case False
      let ?A = "A(p \<mapsto> \<lparr>at_due = first_expiry now millisecond, at_every = millisecond,
        at_left = n, at_job = (f, x)\<rparr>)"
      have w': "w' = (now, insert p live, ?A, jobs)"
        using Add False spec w fresh by auto
      obtain t' where t': "uc_timer_add (Some p) millisecond n (Some f) x t = (Some p, t')"
        "timer_rel now t' ?A" "posted t' = posted t"
        using uc_timer_add_rel [OF r(1,3) _ _ fresh(2), of millisecond n f x] False by auto
      have "dom (items t') = insert p live"
        using t'(1) False r(2)
        by (auto simp: uc_timer_add_def uc_timer_add_do_def timer_append_def Let_def)
      then show ?thesis
        using Add w w' t' r fresh fuel jobs by (auto simp: service_rel_def)
    qed
  next
    case (Delete p)
    then obtain x where x: "A p = Some x" and w': "w' = (now, live - {p}, A(p := None), jobs)"
      using spec w by (auto split: if_splits)
    obtain t' where t': "uc_timer_delete (Some p) t = Some (0, t')" "timer_rel now t' (A(p := None))"
      "posted t' = posted t"
      using uc_timer_delete_rel [OF r(1) x] by blast
    have "dom (items t') = live - {p}"
      using t'(1) r(2)
      by (auto simp: uc_timer_delete_def uc_timer_delete_do_def timer_unlink_def Let_def split: if_splits)
    moreover have "card (live - {p}) \<le> card live"
      using r(4) by (intro card_mono) auto
    ultimately show ?thesis
      using Delete w w' t' r jobs by (auto simp: service_rel_def)
  qed
qed

lemma adds_Cons: "adds (c # cs) = adds [c] + adds cs"
  by (simp split: timer_op.splits)

lemma run_ops_refines:
  "service_rel fuel t w \<Longrightarrow> spec_ops cs w = Some w' \<Longrightarrow>
   2 * (card (fst (snd w)) + adds cs) < fuel \<Longrightarrow>
   \<exists>t'. run_ops fuel cs t = Some t' \<and> service_rel fuel t' w'"
proof (induction cs arbitrary: t w)
  case Nil
  then show ?case by simp
next
  case (Cons c cs)
  obtain w1 where w1: "spec_op c w = Some w1" "spec_ops cs w1 = Some w'"
    using Cons.prems(2) by (auto simp: bind_eq_Some_conv)
  have "2 * (card (fst (snd w)) + adds [c]) < fuel"
    using Cons.prems(3) unfolding adds_Cons [of c cs] by simp
  from run_op_refines [OF Cons.prems(1) w1(1) this] obtain t1 where t1: "run_op fuel c t = Some t1"
    "service_rel fuel t1 w1" "card (fst (snd w1)) \<le> card (fst (snd w)) + adds [c]"
    by blast
  then have "2 * (card (fst (snd w1)) + adds cs) < fuel"
    using Cons.prems(3) unfolding adds_Cons [of c cs] by simp
  from Cons.IH [OF t1(2) w1(2) this] show ?case
    using t1(1) by simp
qed

section \<open>Two expired timers in one slot\<close>

lemma timer_rel_due:
  assumes "timer_rel now t A" "A p = Some x"
  shows "now < at_due x" "0 < at_every x"
proof -
  obtain L where w: "wheels_rel (\<lambda>_. now) t A L"
    using assms(1) unfolding timer_rel_def by blast
  have "A p \<noteq> None"
    using assms(2) by simp
  then obtain b where b: "b \<in> heads" "Item p \<in> set (L b)"
    using w unfolding wheels_rel_def by blast
  then have "linked_ok (\<lambda>_. now) t A b (Item p)"
    using w unfolding wheels_rel_def by blast
  then show "now < at_due x" "0 < at_every x"
    using assms(2) waits_after by (auto simp: linked_ok_def shows_as_def item_ok_def)
qed

lemma timer_rel_idle:
  assumes rel: "timer_rel now t Map.empty" and t': "clock_is now' t'" "lists t' = lists t"
  shows "timer_rel now' t' Map.empty"
proof -
  obtain L where w: "wheels_rel (\<lambda>_. now) t Map.empty L"
    using rel unfolding timer_rel_def by blast
  have "L b = []" if "b \<in> heads" for b
    using wheels_nodes(2) [OF w that] by (cases "L b") auto
  then have "wheels_rel (\<lambda>_. now') t' Map.empty L"
    using w t'(2) by (simp add: wheels_rel_def)
  then show ?thesis
    using t'(1) unfolding timer_rel_def by blast
qed

lemma posted_count:
  assumes rel: "timer_rel now t A" and small: "now + n < 2 ^ 31" and fuel: "2 * card (dom A) < fuel"
  shows "\<exists>t' ps. uc_timer_check_timeout fuel n t = Some t' \<and> timer_rel (now + n) t' (spec_run now n A) \<and>
    posted t' = posted t @ ps \<and>
    mset ps = (\<Sum>p\<in>dom A. replicate_mset (fire_count (now + n) (the (A p))) (job_of A p))"
  using uc_timer_check_timeout_refines [OF rel small fuel]
    spec_jobs_sum [OF timer_rel_finite [OF rel], of now n] timer_rel_due [OF rel] by auto

text \<open>
  The state two one-shot timers leave in a slot of the finest wheel: each still points to what
  were its neighbours when it was unlinked, the first one to the second.
\<close>

lemma expired_pair:
  fixes p q f x y :: nat
  assumes empty: "dlist (lists t) (Ms_list 1) []" and clock: "clock_is 0 t"
    and fresh: "items t p = None" "items t q = None" "p \<noteq> q"
  defines "t1 \<equiv> snd (uc_timer_add (Some p) 1 1 (Some f) x t)"
  defines "t2 \<equiv> snd (uc_timer_add (Some q) 1 1 (Some f) y t1)"
  shows "\<exists>t3. uc_timer_tick 3 t2 = Some t3 \<and> lnext (lists t3) (Item p) = Item q \<and>
    lprev (lists t3) (Item p) = Ms_list 1 \<and> lnext (lists t3) (Item q) = Ms_list 1 \<and>
    lprev (lists t3) (Item q) = Ms_list 1 \<and> items t3 p \<noteq> None \<and> items t3 q \<noteq> None"
proof -
  have e: "lnext (lists t) (Ms_list 1) = Ms_list 1" "lprev (lists t) (Ms_list 1) = Ms_list 1"
    using dlist_first [OF empty] dlist_last [OF empty] by simp_all
  have c: "ms_idx t = 0" "s_idx t = 0" "m_idx t = 0" "h_idx t = 0" "d_idx t = 0"
    using clock by (simp_all add: clock_is_def)
  then have u: "clock_u64 t = 0"
    by (simp add: clock_u64_def to_u64_def)
  let ?it = "\<lambda>z. \<lparr>it_interval = 1, it_ttl = 1, it_ms = 1, it_s = 0, it_m = 0, it_h = 0, it_d = 0,
    it_cb = f, it_arg = z\<rparr>"
  have t1: "t1 = t\<lparr>lists := list_add_tail (Item p) (Ms_list 1) (lists t),
      items := (items t)(p \<mapsto> ?it x)\<rparr>"
    using u by (simp add: t1_def uc_timer_add_def uc_timer_add_do_def TIMER_INTERVAL_MAX_def
        set_due_def add_slot_def timer_append_def Let_def to_u16_def)
  have t2: "t2 = t\<lparr>lists := list_add_tail (Item q) (Ms_list 1) (list_add_tail (Item p) (Ms_list 1) (lists t)),
      items := (items t)(p \<mapsto> ?it x, q \<mapsto> ?it y)\<rparr>"
    using u by (simp add: t2_def t1 uc_timer_add_def uc_timer_add_do_def TIMER_INTERVAL_MAX_def
        set_due_def add_slot_def timer_append_def Let_def to_u16_def frame_simps)
  show ?thesis
    unfolding t2 using e c fresh
    by (simp add: uc_timer_tick_def tick_ms_def tick_s_def tick_m_def tick_h_def tick_d_def Let_def
        timer_loop_def run_for_each_safe_def numeral_3_eq_3 ms_body_def on_entry_def
        timer_expire_def timer_post_def timer_unlink_def list_add_tail_def list_add_raw_def
        list_del_def list_del_raw_def to_u16_def)
qed

section \<open>Properties\<close>

text \<open>C1: from initialisation on, any interleaving of ticks, insertions and removals of armed
  timers runs without fault on the five pointer-linked wheels, and posts to the thread pool
  exactly the jobs the abstract table of timers (due time, period, remaining count) posts.\<close>

theorem uc_timer_implements_table:
  assumes "uc_timer_init (Some g) True 0 None = (0, Some t0)"
    and "spec_ops cs (0, {}, Map.empty, {#}) = Some (now, live, A, jobs)"
    and "2 * adds cs < fuel"
  shows "\<exists>t. run_ops fuel cs t0 = Some t \<and> timer_rel now t A \<and> mset (posted t) = jobs \<and>
    dom (items t) = live"
proof -
  obtain t where "uc_timer_init (Some g) True 0 None = (0, Some t)" "timer_rel 0 t Map.empty"
    "posted t = []" "items t = Map.empty"
    by (rule uc_timer_init_rel)
  then have "service_rel fuel t0 (0, {}, Map.empty, {#})"
    using assms(1,3) by (simp add: service_rel_def)
  from run_ops_refines [OF this assms(2)] assms(3) show ?thesis
    by (auto simp: service_rel_def)
qed

lemma first_expiry_values: "first_expiry 0 1 = 1" "first_expiry 0 3 = 3" "first_expiry 1000 5 = 61005"
proof -
  have "add_slot (set_due 1 b) = Ms_list 1" "add_slot (set_due 3 b) = Ms_list 3"
    "add_slot (set_due 1005 b) = S_list 1" for b
    by (simp_all add: add_slot_def set_due_def to_u16_def)
  then show "first_expiry 0 1 = 1" "first_expiry 0 3 = 3" "first_expiry 1000 5 = 61005"
    by (simp_all add: first_expiry_def Let_def add_due_def)
qed

lemma uc_timer_implements_table_witness:
  "\<exists>t0 t. uc_timer_init (Some (list_init (Item 0) \<lparr>lnext = \<lambda>_. Item 0, lprev = \<lambda>_. Item 0\<rparr>)) True 0 None
      = (0, Some t0) \<and> run_ops 3 [Add 7 1 1 3 4, Tick] t0 = Some t \<and> mset (posted t) = {#(3, 4)#}"
proof -
  let ?g = "list_init (Item 0) \<lparr>lnext = \<lambda>_. Item 0, lprev = \<lambda>_. Item 0\<rparr>"
  obtain t0 where t0: "uc_timer_init (Some ?g) True 0 None = (0, Some t0)"
    by (rule uc_timer_init_rel)
  have due: "due_at (Suc 0) [7 \<mapsto> \<lparr>at_due = 1, at_every = 1, at_left = 1, at_job = (3, 4)\<rparr>] = {7}"
    by (auto simp: due_at_def split: if_splits)
  have "\<exists>A. spec_ops [Add 7 1 1 3 4, Tick] (0, {}, Map.empty, {#}) = Some (1, {7}, A, {#(3, 4)#})"
    using due first_expiry_values(1) by (simp add: TIMER_INTERVAL_MAX_def job_of_def)
  then obtain A where "spec_ops [Add 7 1 1 3 4, Tick] (0, {}, Map.empty, {#})
      = Some (1, {7}, A, {#(3, 4)#})"
    by blast
  from uc_timer_implements_table [OF t0 this, of 3] t0 show ?thesis
    by auto
qed

text \<open>C3: over any number of ticks every armed timer posts its job once per period from its due
  time on, at most as often as its count allows, and nothing else is posted.\<close>

theorem uc_timer_posts_on_schedule:
  assumes "timer_rel now t A" "now + n < 2 ^ 31" "2 * card (dom A) < fuel"
  shows "\<exists>t' ps. uc_timer_check_timeout fuel n t = Some t' \<and> posted t' = posted t @ ps \<and>
    mset ps = (\<Sum>p\<in>dom A. replicate_mset (fire_count (now + n) (the (A p))) (job_of A p))"
  using posted_count [OF assms] by blast

lemma uc_timer_posts_on_schedule_witness:
  "\<exists>t t' ps. uc_timer_check_timeout 3 10 t = Some t' \<and> posted t' = posted t @ ps \<and>
     mset ps = replicate_mset 3 (3, 4)"
proof -
  obtain t0 where t0: "timer_rel 0 t0 Map.empty" "items t0 = Map.empty"
    by (rule uc_timer_init_rel)
  let ?A = "[7 \<mapsto> \<lparr>at_due = 3, at_every = 3, at_left = 0, at_job = (3, 4)\<rparr>]"
  obtain t where "timer_rel 0 t ?A"
    using uc_timer_add_rel [OF t0(1), of 3 7 0 3 4] t0(2) first_expiry_values(2)
    by (auto simp: TIMER_INTERVAL_MAX_def)
  from uc_timer_posts_on_schedule [OF this, of 10 3] show ?thesis
    by (auto simp: fire_count_def job_of_def)
qed

text \<open>C17: a timer added at any time is armed and first expires after its interval, or else exactly
  one full turn of the wheel it was put on too late; it never expires early.\<close>

theorem uc_timer_add_arms:
  assumes "timer_rel now t A" "now < 2 ^ 31" "0 < millisecond" "millisecond < TIMER_INTERVAL_MAX"
    "items t p = None"
  shows "\<exists>t' e. uc_timer_add (Some p) millisecond n (Some f) x t = (Some p, t') \<and>
    timer_rel now t' (A(p \<mapsto> \<lparr>at_due = e, at_every = millisecond, at_left = n, at_job = (f, x)\<rparr>)) \<and>
    (e = now + millisecond \<or>
     (\<exists>a. a = add_slot (set_due (now + millisecond) blank_item) \<and>
        now div unit_of a = (now + millisecond) div unit_of a \<and> e = now + millisecond + span_of a))"
  using uc_timer_add_rel [OF assms] first_expiry_cases [of now millisecond] by blast

lemma uc_timer_add_arms_witness:
  "\<exists>t t' e. uc_timer_add (Some 7) 250 0 (Some 3) 4 t = (Some 7, t') \<and>
     timer_rel 0 t' [7 \<mapsto> \<lparr>at_due = e, at_every = 250, at_left = 0, at_job = (3, 4)\<rparr>]"
proof -
  obtain t0 where "timer_rel 0 t0 Map.empty" "items t0 = Map.empty"
    by (rule uc_timer_init_rel)
  with uc_timer_add_arms [of 0 t0 Map.empty 250 7 0 3 4] show ?thesis
    by (auto simp: TIMER_INTERVAL_MAX_def)
qed

text \<open>C18: the lateness is real: one second after the start, a 5 millisecond timer posts nothing for
  the next minute, since the insertion tests its seconds field against 0 and not the clock.\<close>

theorem uc_timer_add_late:
  assumes "timer_rel 1000 t Map.empty" "items t p = None" "n < 60005" "2 < fuel"
  shows "\<exists>t1 t2. uc_timer_add (Some p) 5 1 (Some f) x t = (Some p, t1) \<and>
    uc_timer_check_timeout fuel n t1 = Some t2 \<and> posted t2 = posted t"
proof -
  let ?A = "[p \<mapsto> \<lparr>at_due = 61005, at_every = 5, at_left = 1, at_job = (f, x)\<rparr>]"
  obtain t1 where t1: "uc_timer_add (Some p) 5 1 (Some f) x t = (Some p, t1)"
    "timer_rel 1000 t1 ?A" "posted t1 = posted t"
    using uc_timer_add_rel [OF assms(1) _ _ _ assms(2), of 5 1 f x] first_expiry_values(3)
    by (auto simp: TIMER_INTERVAL_MAX_def)
  have "fire_count (1000 + n) (the (?A p)) = 0"
    using assms(3) by (simp add: fire_count_def)
  then show ?thesis
    using posted_count [OF t1(2), of n fuel] t1 assms(3,4) by auto
qed

lemma uc_timer_add_late_witness:
  "\<exists>t t1 t2. uc_timer_add (Some 7) 5 1 (Some 3) 4 t = (Some 7, t1) \<and>
     uc_timer_check_timeout 3 60000 t1 = Some t2 \<and> posted t2 = posted t"
proof -
  obtain t0 where t0: "timer_rel 0 t0 Map.empty" "items t0 = Map.empty"
    by (rule uc_timer_init_rel)
  then have "timer_rel 1000 (t0\<lparr>s_idx := 1\<rparr>) Map.empty"
    by (intro timer_rel_idle [OF t0(1)]) (auto simp: timer_rel_def clock_is_def)
  from uc_timer_add_late [OF this, of 7 60000 3 3 4] t0(2) have "\<exists>t1 t2. uc_timer_add (Some 7) 5 1 (Some 3) 4 (t0\<lparr>s_idx := 1\<rparr>) = (Some 7, t1) \<and>
      uc_timer_check_timeout 3 60000 t1 = Some t2 \<and> posted t2 = posted (t0\<lparr>s_idx := 1\<rparr>)"
    by simp
  then show ?thesis
    by blast
qed

text \<open>Removing an armed timer unlinks and frees it and leaves all other timers as they are.\<close>

theorem uc_timer_delete_disarms:
  assumes "timer_rel now t A" "A p = Some x"
  shows "\<exists>t'. uc_timer_delete (Some p) t = Some (0, t') \<and> timer_rel now t' (A(p := None)) \<and>
    posted t' = posted t \<and> items t' p = None"
  using uc_timer_delete_rel [OF assms] .

lemma uc_timer_delete_disarms_witness:
  "\<exists>t t'. uc_timer_delete (Some 7) t = Some (0, t') \<and> timer_rel 0 t' Map.empty"
proof -
  obtain t0 where t0: "timer_rel 0 t0 Map.empty" "items t0 = Map.empty"
    by (rule uc_timer_init_rel)
  obtain t x where "timer_rel 0 t [7 \<mapsto> x]"
    using uc_timer_add_rel [OF t0(1), of 250 7 0 3 4] t0(2) by (auto simp: TIMER_INTERVAL_MAX_def)
  from uc_timer_delete_disarms [OF this, of 7 x] show ?thesis
    by auto
qed

text \<open>C19: expired one-shot timers stay allocated and, as the header asks, are to be deleted by the
  caller. Two one-shot timers of 1 ms are added one directly after the other while the clock is at 0 and no
  timer is due in the slot they share (none at a time that is 1 ms past a full second); a tick expires
  both. The caller then deletes the one added last, which succeeds, and the one added first: that
  deletion writes to the freed item of the other.\<close>

theorem uc_timer_delete_expired_pair:
  assumes "timer_rel 0 t A" "\<And>z. z \<in> dom A \<Longrightarrow> at_due (the (A z)) mod 1000 \<noteq> 1"
    and "items t p = None" "items t q = None" "p \<noteq> q"
  shows "\<exists>t3 t4. uc_timer_tick 3 (snd (uc_timer_add (Some q) 1 1 (Some f) y
        (snd (uc_timer_add (Some p) 1 1 (Some f) x t)))) = Some t3 \<and>
    uc_timer_delete (Some q) t3 = Some (0, t4) \<and> uc_timer_delete (Some p) t4 = None"
proof -
  obtain L where clock: "clock_is 0 t" and w: "wheels_rel (\<lambda>_. 0) t A L"
    using assms(1) unfolding timer_rel_def by blast
  have h: "Ms_list 1 \<in> heads"
    by (simp add: timer_simps)
  have "L (Ms_list 1) = []"
  proof (rule ccontr)
    assume "L (Ms_list 1) \<noteq> []"
    then have "hd (L (Ms_list 1)) \<in> set (L (Ms_list 1))"
      by simp
    then obtain z it v where z: "A z = Some v" "slot_ok (Ms_list 1) it" "shows_as 0 (Ms_list 1) it v"
      using wheels_linked [OF w h] by metis
    then have "at_due v mod 1000 = 1"
      by (simp add: waits_def shows_as_def)
    then show False
      using assms(2) [of z] z(1) by auto
  qed
  then have "dlist (lists t) (Ms_list 1) []"
    using w h by (auto simp: wheels_rel_def lists_rel_def)
  from expired_pair [OF this clock assms(3-5), where f = f and x = x and y = y] obtain t3 where t3:
    "uc_timer_tick 3 (snd (uc_timer_add (Some q) 1 1 (Some f) y
        (snd (uc_timer_add (Some p) 1 1 (Some f) x t)))) = Some t3"
    "lnext (lists t3) (Item p) = Item q" "lprev (lists t3) (Item p) = Ms_list 1"
    "lnext (lists t3) (Item q) = Ms_list 1" "lprev (lists t3) (Item q) = Ms_list 1"
    "items t3 p \<noteq> None" "items t3 q \<noteq> None"
    by blast
  define t4 where "t4 = t3\<lparr>lists := list_del (Item q) (lists t3), items := (items t3)(q := None)\<rparr>"
  have "uc_timer_delete (Some q) t3 = Some (0, t4)"
    using t3 by (simp add: uc_timer_delete_def uc_timer_delete_do_def timer_unlink_def
        live_addr_def Let_def t4_def)
  moreover have "uc_timer_delete (Some p) t4 = None"
    using t3 assms(5) by (simp add: uc_timer_delete_def uc_timer_delete_do_def live_addr_def
        t4_def list_del_def list_del_raw_def)
  ultimately show ?thesis
    using t3(1) by blast
qed

lemma uc_timer_delete_expired_pair_witness:
  "\<exists>t t3 t4. uc_timer_tick 3 (snd (uc_timer_add (Some 8) 1 1 (Some 3) 5
        (snd (uc_timer_add (Some 7) 1 1 (Some 3) 4 t)))) = Some t3 \<and>
    uc_timer_delete (Some 8) t3 = Some (0, t4) \<and> uc_timer_delete (Some 7) t4 = None"
proof -
  obtain t0 where t0: "timer_rel 0 t0 Map.empty" "items t0 = Map.empty"
    by (rule uc_timer_init_rel)
  from uc_timer_delete_expired_pair [OF t0(1), of 7 8 3 5 4] t0(2) show ?thesis
    by auto
qed

text \<open>C20: the clock reading, an \<open>int\<close> sum converted to 64 bits, is the time in milliseconds modulo \<open>2 ^ 32\<close>,
  extended with its sign: as long as the day index (16 bits) can show the time it is the time itself
  exactly for the first 24.8 days. In the second half of every period of \<open>2 ^ 32\<close> ms it is a value within
  \<open>2 ^ 31\<close> of \<open>2 ^ 64\<close>, and from \<open>2 ^ 32\<close> ms on it starts again at 0.\<close>

theorem timer_clock_range:
  assumes "clock_is now t" "now < 86400000 * 65536"
  shows "clock_u64 t = (let r = now mod 2 ^ 32 in if r < 2 ^ 31 then r else r + (2 ^ 64 - 2 ^ 32)) \<and>
    (clock_u64 t = now \<longleftrightarrow> now < 2 ^ 31)"
proof -
  define r where "r = now mod 2 ^ 32"
  have "int now mod 2 ^ 32 = int r" and small: "r < 2 ^ 32"
    by (simp_all add: r_def zmod_int)
  then have "(int now + 2 ^ 31) mod 2 ^ 32 = (int r + 2 ^ 31) mod 2 ^ 32"
    by (metis mod_add_left_eq)
  then have wrap: "wrap_s32 (int now) = wrap_s32 (int r)"
    by (simp only: wrap_s32_def)
  have reading: "clock_u64 t = (if r < 2 ^ 31 then r else r + (2 ^ 64 - 2 ^ 32))"
  proof (cases "r < 2 ^ 31")
    case True
    then have "wrap_s32 (int r) = int r"
      by (intro wrap_s32_id) simp_all
    then show ?thesis
      using True unfolding clock_u64_def clock_value [OF assms(1)] wrap by (simp add: to_u64_def)
  next
    case False
    have "(int r + 2 ^ 31) mod 2 ^ 32 = (int r - 2 ^ 31 + 2 ^ 32) mod 2 ^ 32"
      by (simp add: algebra_simps)
    also have "\<dots> = int r - 2 ^ 31"
      unfolding mod_add_self2 using False small by (intro mod_pos_pos_trivial) simp_all
    finally have w: "wrap_s32 (int r) = int r - 2 ^ 32"
      by (simp add: wrap_s32_def)
    have "(int r - 2 ^ 32) mod 2 ^ 64 = (int r + (2 ^ 64 - 2 ^ 32)) mod 2 ^ 64"
      using mod_add_self2 [of "int r - 2 ^ 32" "2 ^ 64"] by (simp add: algebra_simps)
    also have "\<dots> = int r + (2 ^ 64 - 2 ^ 32)"
      using small by (intro mod_pos_pos_trivial) simp_all
    finally show ?thesis
      using False unfolding clock_u64_def clock_value [OF assms(1)] wrap w to_u64_def by simp
  qed
  have "(if r < 2 ^ 31 then r else r + (2 ^ 64 - 2 ^ 32)) = now \<longleftrightarrow> now < 2 ^ 31"
  proof (cases "now < 2 ^ 31")
    case False
    have "r + (2 ^ 64 - 2 ^ 32) \<noteq> now"
      using assms(2) by simp
    moreover have "r < 2 ^ 31 \<longrightarrow> r \<noteq> now"
      using False by linarith
    ultimately show ?thesis
      using False by simp
  qed (simp add: r_def)
  then show ?thesis
    unfolding reading Let_def r_def by blast
qed

lemma timer_clock_range_witness:
  "clock_u64 \<lparr>lists = \<lparr>lnext = \<lambda>a. a, lprev = \<lambda>a. a\<rparr>, ms_idx = 0, s_idx = 0, m_idx = 0, h_idx = 0,
     d_idx = 25, items = Map.empty, posted = []\<rparr> = 18446744071574584320"
  using timer_clock_range [of 2160000000 "\<lparr>lists = \<lparr>lnext = \<lambda>a. a, lprev = \<lambda>a. a\<rparr>, ms_idx = 0,
     s_idx = 0, m_idx = 0, h_idx = 0, d_idx = 25, items = Map.empty, posted = []\<rparr>"]
  by (simp add: clock_is_def)

text \<open>An insertion with an interval of 0 or of 20 years and more, without callback, or for which
  there is no memory, returns a null handle and changes nothing; so does a removal of the null
  handle, with an error code.\<close>

theorem uc_timer_rejects:
  assumes "millisecond = 0 \<or> TIMER_INTERVAL_MAX \<le> millisecond \<or> callback = None \<or> addr = None"
  shows "uc_timer_add addr millisecond n callback x t = (None, t) \<and>
    uc_timer_delete None t = Some (- 0x6816560a, t)"
  using assms
  by (auto simp: uc_timer_add_def uc_timer_add_do_def uc_timer_delete_def uc_timer_delete_do_def
      split: option.splits)

lemma uc_timer_rejects_witness:
  "\<exists>t. uc_timer_add (Some 7) 630720000000 1 (Some 3) 4 t = (None, t)"
  using uc_timer_rejects [of 630720000000 "Some 3" "Some 7" 1 4] by (simp add: TIMER_INTERVAL_MAX_def)

end
