(* ===== verification/Thread_Pool.thy ===== *)
theory Thread_Pool
  imports List_Head
begin

text \<open>
  The thread pool (\<open>src/threadpool/uc_threadpool.c\<close>): the operations between two lock operations
  are functions on the pool, whose three lists (queued tasks, recycled tasks, threads) are the
  pointer-level lists of \<open>List_Head\<close>. \<open>Pool_Steps\<close> interleaves them.
\<close>

section \<open>State\<close>

datatype paddr = Task_head | Free_head | Pid_head | Task_node nat | Pid_node nat

type_synonym job = "nat option \<times> nat option"

record pool_task =
  tk_fun :: "nat option"
  tk_arg :: "nat option"

text \<open>
  \<open>locked_forever\<close> records that a function returned without releasing the lock; \<open>tasks\<close> and
  \<open>pids\<close> are the allocated list entries, the latter with the thread id each holds.
\<close>

record threadpool =
  plinks :: "paddr links"
  tasks :: "nat \<rightharpoonup> pool_task"
  pids :: "nat \<rightharpoonup> nat"
  list_task_ttl :: u64
  list_task_max :: u64
  thread_min :: int
  thread_max :: int
  thread_alive :: int
  shutdown :: int
  locked_forever :: bool

definition pool_heads :: "paddr set" where
  "pool_heads = {Task_head, Free_head, Pid_head}"

section \<open>Creating and closing\<close>

text \<open>
  One round of the loop that starts the first threads: what \<open>malloc\<close> gave for the list entry,
  what \<open>pthread_create\<close> returned, and the new thread's id.
\<close>

type_synonym spawn = "nat option \<times> int \<times> nat"

fun start_threads :: "nat \<Rightarrow> spawn list \<Rightarrow> threadpool \<Rightarrow> threadpool" where
  "start_threads 0 ss p = p"
| "start_threads (Suc n) [] p = p"
| "start_threads (Suc n) ((entry, ret, pid) # ss) p =
     (case entry of
        None \<Rightarrow> p
      | Some k \<Rightarrow>
          if ret \<noteq> 0 then p\<lparr>pids := (pids p)(k \<mapsto> pid)\<rparr>
          else start_threads n ss
            (p\<lparr>pids := (pids p)(k \<mapsto> pid), thread_alive := thread_alive p + 1,
               plinks := list_add_tail (Pid_node k) Pid_head (plinks p)\<rparr>))"

text \<open>The threads started, in order.\<close>

fun started :: "nat \<Rightarrow> spawn list \<Rightarrow> (nat \<times> nat) list" where
  "started (Suc n) ((Some k, ret, pid) # ss) = (if ret \<noteq> 0 then [] else (k, pid) # started n ss)"
| "started _ _ = []"

definition empty_lists :: "paddr links" where
  "empty_lists = list_init Pid_head (list_init Free_head (list_init Task_head
     \<lparr>lnext = \<lambda>a. a, lprev = \<lambda>a. a\<rparr>))"

text \<open>
  \<open>None\<close> is a crash: every failure after the allocation ends in \<open>uc_threadpool_close\<close>, which then
  follows the null pointers of a thread list not initialised yet.
\<close>

definition uc_threadpool_create ::
  "bool \<Rightarrow> bool \<Rightarrow> bool \<Rightarrow> nat \<Rightarrow> nat \<Rightarrow> spawn list \<Rightarrow> threadpool option option" where
  "uc_threadpool_create calloc_ok mutex_ok cond_ok thr_num_min thr_num_max ss =
     (if \<not> calloc_ok then Some None
      else if \<not> mutex_ok then None
      else if \<not> cond_ok then None
      else if thr_num_max = 0 \<or> thr_num_max < thr_num_min then None
      else Some (Some (start_threads thr_num_min ss
        \<lparr>plinks = empty_lists, tasks = Map.empty, pids = Map.empty, list_task_ttl = 0,
         list_task_max = 0, thread_min = wrap_s32 (int thr_num_min),
         thread_max = wrap_s32 (int thr_num_max), thread_alive = 0, shutdown = 0,
         locked_forever = False\<rparr>)))"

definition close_begin :: "threadpool \<Rightarrow> threadpool" where
  "close_begin p = p\<lparr>shutdown := 1\<rparr>"

text \<open>One round of the loop that joins the threads: the entry taken off the list, if any.\<close>

definition close_next :: "threadpool \<Rightarrow> (paddr \<times> threadpool) option" where
  "close_next p =
     (if list_empty Pid_head (plinks p) then None
      else (let node = lnext (plinks p) Pid_head
            in Some (node, p\<lparr>plinks := list_del node (plinks p)\<rparr>)))"

text \<open>The loops that take the first task off a list and free it until the list is empty.\<close>

fun free_tasks :: "nat \<Rightarrow> paddr \<Rightarrow> threadpool \<Rightarrow> threadpool option" where
  "free_tasks 0 head p = None"
| "free_tasks (Suc fuel) head p =
     (if lnext (plinks p) head = head then Some p
      else (case lnext (plinks p) head of
        Task_node k \<Rightarrow> free_tasks fuel head
          (p\<lparr>plinks := list_del (Task_node k) (plinks p), tasks := (tasks p)(k := None)\<rparr>)
      | _ \<Rightarrow> None))"

definition close_free :: "nat \<Rightarrow> threadpool \<Rightarrow> threadpool option" where
  "close_free fuel p = Option.bind (free_tasks fuel Free_head p) (free_tasks fuel Task_head)"

section \<open>The worker\<close>

definition worker_waits :: "threadpool \<Rightarrow> bool" where
  "worker_waits p \<longleftrightarrow> shutdown p = 0 \<and> list_empty Task_head (plinks p)"

definition worker_leave :: "threadpool \<Rightarrow> threadpool" where
  "worker_leave p = p\<lparr>thread_alive := thread_alive p - 1\<rparr>"

definition worker_take :: "threadpool \<Rightarrow> paddr \<times> threadpool" where
  "worker_take p =
     (let node = lnext (plinks p) Task_head
      in (node, p\<lparr>plinks := list_del node (plinks p), list_task_ttl := list_task_ttl p - 1\<rparr>))"

definition worker_recycle :: "nat \<Rightarrow> threadpool \<Rightarrow> threadpool" where
  "worker_recycle k p =
     p\<lparr>tasks := (tasks p)(k := map_option (\<lambda>t. t\<lparr>tk_arg := None\<rparr>) (tasks p k)),
       plinks := list_add_tail (Task_node k) Free_head (plinks p)\<rparr>"

section \<open>Adding tasks\<close>

text \<open>
  The comparison of the \<open>int\<close> \<open>thread_alive\<close> with the \<open>size_t\<close> \<open>list_task_ttl\<close> is one of 64-bit
  unsigned numbers. The result is the return value, the pool, and the thread started.
\<close>

definition uc_threadpool_activty_try_do ::
  "spawn \<Rightarrow> threadpool \<Rightarrow> int \<times> threadpool \<times> nat option" where
  "uc_threadpool_activty_try_do s p =
     (if thread_alive p \<ge> thread_max p then (0, p, None)
      else if (word_of_int (thread_alive p) :: u64) > list_task_ttl p then (0, p, None)
      else (case s of
        (None, ret, pid) \<Rightarrow> (- 0x77094f73, p, None)
      | (Some k, ret, pid) \<Rightarrow>
          if ret \<noteq> 0 then (- 0x3c5a31ed, p\<lparr>pids := (pids p)(k \<mapsto> pid)\<rparr>, None)
          else (0, p\<lparr>pids := (pids p)(k \<mapsto> pid), thread_alive := thread_alive p + 1,
                  plinks := list_add_tail (Pid_node k) Pid_head (plinks p)\<rparr>, Some pid)))"

definition add_waits :: "threadpool \<Rightarrow> bool" where
  "add_waits p \<longleftrightarrow> list_task_max p \<noteq> 0 \<and> list_task_ttl p \<ge> list_task_max p"

text \<open>
  The task entry: the first recycled one, else a new one at the address \<open>malloc\<close> gives. Without
  memory the function returns at once, with the lock held.
\<close>

definition take_entry :: "nat option \<Rightarrow> threadpool \<Rightarrow> (nat \<times> threadpool) option" where
  "take_entry addr p =
     (if \<not> list_empty Free_head (plinks p) then
        (case lnext (plinks p) Free_head of
           Task_node k \<Rightarrow> Some (k, p\<lparr>plinks := list_del (Task_node k) (plinks p)\<rparr>)
         | _ \<Rightarrow> None)
      else map_option (\<lambda>k. (k, p)) addr)"

definition add_enqueue :: "nat option \<Rightarrow> job \<Rightarrow> bool \<Rightarrow> threadpool \<Rightarrow> int \<times> threadpool" where
  "add_enqueue addr j forcetoHead p =
     (case take_entry addr p of
        None \<Rightarrow> (- 0x18aa3f60, p\<lparr>locked_forever := True\<rparr>)
      | Some (k, p') \<Rightarrow>
          (0, p'\<lparr>tasks := (tasks p')(k \<mapsto> \<lparr>tk_fun = fst j, tk_arg = snd j\<rparr>),
             plinks := (if forcetoHead then list_add (Task_node k) Task_head (plinks p')
                        else list_add_tail (Task_node k) Task_head (plinks p')),
             list_task_ttl := list_task_ttl p' + 1\<rparr>))"

definition uc_threadpool_set_task_max :: "u64 \<Rightarrow> threadpool \<Rightarrow> u64 \<times> threadpool" where
  "uc_threadpool_set_task_max m p = (list_task_max p, p\<lparr>list_task_max := m\<rparr>)"

text \<open>The polling loop: the pool as it is at each look, one second apart.\<close>

fun uc_threadpool_wait_task_done :: "threadpool list \<Rightarrow> nat option" where
  "uc_threadpool_wait_task_done [] = None"
| "uc_threadpool_wait_task_done (p # ps) =
     (if \<not> list_empty Task_head (plinks p) then map_option Suc (uc_threadpool_wait_task_done ps)
      else Some 0)"

end
