(* ===== verification/Pool_Steps.thy ===== *)
theory Pool_Steps
  imports Thread_Pool "HOL-Library.Multiset"
begin

text \<open>
  Callers and workers of the thread pool as a step relation: a step is what a thread does between
  taking the lock and releasing it. There is one condition variable; a signal wakes one of the
  waiting threads, worker or caller, whichever it is.
\<close>

section \<open>Threads\<close>

datatype thread =
    Worker_top            \<comment> \<open>about to take the lock, or woken\<close>
  | Worker_wait           \<comment> \<open>in \<open>pthread_cond_wait\<close>, no task\<close>
  | Worker_run nat        \<comment> \<open>running the task of this entry, without the lock\<close>
  | Worker_gone
  | Add_start job bool
  | Add_loop job bool     \<comment> \<open>woken inside the loop on the queue's length\<close>
  | Add_wait job bool     \<comment> \<open>in \<open>pthread_cond_wait\<close>, queue full\<close>
  | Add_activity          \<comment> \<open>task queued, \<open>uc_threadpool_activty_try\<close> still to do\<close>
  | Add_done int
  | Close_join
  | Close_wait nat        \<comment> \<open>in \<open>pthread_join\<close> for the thread of this entry\<close>
  | Close_done

text \<open>Ghosts: the jobs accepted and those taken by workers, in order; whether one was put first.\<close>

record config =
  pool :: threadpool
  thr :: "nat \<rightharpoonup> thread"
  accepted :: "job list"
  taken :: "job list"
  jumped :: bool

fun waiting :: "thread \<Rightarrow> bool" where
  "waiting Worker_wait = True"
| "waiting (Add_wait j first) = True"
| "waiting _ = False"

fun wake :: "thread \<Rightarrow> thread" where
  "wake Worker_wait = Worker_top"
| "wake (Add_wait j first) = Add_loop j first"
| "wake w = w"

inductive cond_signal :: "(nat \<rightharpoonup> thread) \<Rightarrow> (nat \<rightharpoonup> thread) \<Rightarrow> bool" where
  nobody: "\<forall>i w. ts i = Some w \<longrightarrow> \<not> waiting w \<Longrightarrow> cond_signal ts ts"
| somebody: "ts i = Some w \<Longrightarrow> waiting w \<Longrightarrow> cond_signal ts (ts(i \<mapsto> wake w))"

definition cond_broadcast :: "(nat \<rightharpoonup> thread) \<Rightarrow> (nat \<rightharpoonup> thread)" where
  "cond_broadcast ts = (\<lambda>i. map_option wake (ts i))"

definition node_job :: "threadpool \<Rightarrow> paddr \<Rightarrow> job" where
  "node_job p n = (case n of
     Task_node k \<Rightarrow> (case tasks p k of Some t \<Rightarrow> (tk_fun t, tk_arg t) | None \<Rightarrow> (None, None))
   | _ \<Rightarrow> (None, None))"

text \<open>
  Steps of the environment (a new call, a spurious wake-up as POSIX allows) are told apart from
  those the threads make on their own.
\<close>

datatype label = Call | Spurious | Own

definition may_add :: "config \<Rightarrow> nat \<Rightarrow> job \<Rightarrow> bool \<Rightarrow> bool" where
  "may_add c i j first \<longleftrightarrow> \<not> locked_forever (pool c) \<and>
     (thr c i = Some (Add_start j first) \<and> shutdown (pool c) = 0 \<or>
      thr c i = Some (Add_loop j first))"

definition fresh_entry :: "threadpool \<Rightarrow> nat option \<Rightarrow> bool" where
  "fresh_entry p addr \<longleftrightarrow> (\<forall>k. addr = Some k \<longrightarrow> tasks p k = None)"

definition fresh_spawn :: "config \<Rightarrow> spawn \<Rightarrow> bool" where
  "fresh_spawn c s \<longleftrightarrow> (case s of (entry, ret, pid) \<Rightarrow>
     thr c pid = None \<and> (\<forall>k. entry = Some k \<longrightarrow> pids (pool c) k = None))"

inductive pool_step :: "config \<Rightarrow> label \<Rightarrow> config \<Rightarrow> bool" where
  call_add: "thr c i = None \<Longrightarrow>
    pool_step c Call (c\<lparr>thr := (thr c)(i \<mapsto> Add_start j first)\<rparr>)"
| call_close: "thr c i = None \<Longrightarrow> \<not> locked_forever (pool c) \<Longrightarrow>
    pool_step c Call (c\<lparr>pool := close_begin (pool c),
      thr := (cond_broadcast (thr c))(i \<mapsto> Close_join)\<rparr>)"
| call_set_max: "\<not> locked_forever (pool c) \<Longrightarrow> cond_signal (thr c) ts \<Longrightarrow>
    pool_step c Call (c\<lparr>pool := snd (uc_threadpool_set_task_max m (pool c)), thr := ts\<rparr>)"
| spurious: "thr c i = Some w \<Longrightarrow> waiting w \<Longrightarrow>
    pool_step c Spurious (c\<lparr>thr := (thr c)(i \<mapsto> wake w)\<rparr>)"
| add_refused: "thr c i = Some (Add_start j first) \<Longrightarrow> \<not> locked_forever (pool c) \<Longrightarrow>
    shutdown (pool c) \<noteq> 0 \<Longrightarrow>
    pool_step c Own (c\<lparr>thr := (thr c)(i \<mapsto> Add_done (- 0x7d1a4672))\<rparr>)"
| add_blocked: "may_add c i j first \<Longrightarrow> add_waits (pool c) \<Longrightarrow>
    pool_step c Own (c\<lparr>thr := (thr c)(i \<mapsto> Add_wait j first)\<rparr>)"
| add_queued: "may_add c i j first \<Longrightarrow> \<not> add_waits (pool c) \<Longrightarrow> fresh_entry (pool c) addr \<Longrightarrow>
    add_enqueue addr j first (pool c) = (0, p) \<Longrightarrow>
    cond_signal ((thr c)(i \<mapsto> Add_activity)) ts \<Longrightarrow>
    pool_step c Own (c\<lparr>pool := p, thr := ts, accepted := accepted c @ [j],
      jumped := (jumped c \<or> first)\<rparr>)"
| add_no_memory: "may_add c i j first \<Longrightarrow> \<not> add_waits (pool c) \<Longrightarrow> fresh_entry (pool c) addr \<Longrightarrow>
    add_enqueue addr j first (pool c) = (r, p) \<Longrightarrow> r \<noteq> 0 \<Longrightarrow>
    pool_step c Own (c\<lparr>pool := p, thr := (thr c)(i \<mapsto> Add_done r)\<rparr>)"
| activity: "thr c i = Some Add_activity \<Longrightarrow> \<not> locked_forever (pool c) \<Longrightarrow> fresh_spawn c s \<Longrightarrow>
    uc_threadpool_activty_try_do s (pool c) = (r, p, new) \<Longrightarrow>
    pool_step c Own (c\<lparr>pool := p, thr := (case new of
        None \<Rightarrow> (thr c)(i \<mapsto> Add_done 0)
      | Some w \<Rightarrow> (thr c)(i \<mapsto> Add_done 0, w \<mapsto> Worker_top))\<rparr>)"
| work_wait: "thr c i = Some Worker_top \<Longrightarrow> \<not> locked_forever (pool c) \<Longrightarrow> worker_waits (pool c) \<Longrightarrow>
    pool_step c Own (c\<lparr>thr := (thr c)(i \<mapsto> Worker_wait)\<rparr>)"
| work_leave: "thr c i = Some Worker_top \<Longrightarrow> \<not> locked_forever (pool c) \<Longrightarrow> shutdown (pool c) \<noteq> 0 \<Longrightarrow>
    pool_step c Own (c\<lparr>pool := worker_leave (pool c), thr := (thr c)(i \<mapsto> Worker_gone)\<rparr>)"
| work_take: "thr c i = Some Worker_top \<Longrightarrow> \<not> locked_forever (pool c) \<Longrightarrow> shutdown (pool c) = 0 \<Longrightarrow>
    \<not> worker_waits (pool c) \<Longrightarrow> worker_take (pool c) = (Task_node k, p) \<Longrightarrow>
    cond_signal ((thr c)(i \<mapsto> Worker_run k)) ts \<Longrightarrow>
    pool_step c Own (c\<lparr>pool := p, thr := ts, taken := taken c @ [node_job (pool c) (Task_node k)]\<rparr>)"
| work_done: "thr c i = Some (Worker_run k) \<Longrightarrow> \<not> locked_forever (pool c) \<Longrightarrow>
    pool_step c Own (c\<lparr>pool := worker_recycle k (pool c), thr := (thr c)(i \<mapsto> Worker_top)\<rparr>)"
| join_next: "thr c i = Some Close_join \<Longrightarrow> \<not> locked_forever (pool c) \<Longrightarrow>
    close_next (pool c) = Some (Pid_node k, p) \<Longrightarrow>
    pool_step c Own (c\<lparr>pool := p, thr := (thr c)(i \<mapsto> Close_wait k)\<rparr>)"
| joined: "thr c i = Some (Close_wait k) \<Longrightarrow> pids (pool c) k = Some w \<Longrightarrow>
    thr c w = Some Worker_gone \<Longrightarrow>
    pool_step c Own (c\<lparr>pool := (pool c)\<lparr>pids := (pids (pool c))(k := None)\<rparr>,
      thr := (thr c)(i \<mapsto> Close_join)\<rparr>)"
| close_end: "thr c i = Some Close_join \<Longrightarrow> \<not> locked_forever (pool c) \<Longrightarrow>
    close_next (pool c) = None \<Longrightarrow> close_free fuel (pool c) = Some p \<Longrightarrow>
    pool_step c Own (c\<lparr>pool := p, thr := (thr c)(i \<mapsto> Close_done)\<rparr>)"

inductive_cases own_step: "pool_step c Own c'"
inductive_cases any_step: "pool_step c l c'"

inductive pool_run :: "config \<Rightarrow> config \<Rightarrow> bool" where
  stay: "pool_run c c"
| move: "pool_run c c' \<Longrightarrow> pool_step c' l c'' \<Longrightarrow> pool_run c c''"

end
