(* ===== verification/Pool_Inv.thy ===== *)
theory Pool_Inv
  imports Pool_Steps
begin

text \<open>
  The invariant of the thread pool and its preservation by every step: every task entry is in
  exactly one place (queued, recycled, or with one worker), the counters are the sizes of what
  they count, and no accepted task is lost or run twice.
\<close>

section \<open>The invariant\<close>

fun live :: "thread \<Rightarrow> bool" where
  "live Worker_top = True"
| "live Worker_wait = True"
| "live (Worker_run k) = True"
| "live _ = False"

definition lives :: "(nat \<rightharpoonup> thread) \<Rightarrow> nat set" where
  "lives ts = {i. \<exists>w. ts i = Some w \<and> live w}"

definition entries :: "(paddr \<Rightarrow> paddr list) \<Rightarrow> paddr set" where
  "entries L = set (L Task_head) \<union> set (L Free_head)"

definition pool_lists :: "threadpool \<Rightarrow> (paddr \<Rightarrow> paddr list) \<Rightarrow> bool" where
  "pool_lists p L \<longleftrightarrow> lists_rel (plinks p) pool_heads L \<and>
     entries L \<subseteq> Task_node ` dom (tasks p) \<and> set (L Pid_head) \<subseteq> Pid_node ` dom (pids p) \<and>
     (shutdown p = 0 \<longrightarrow> list_task_ttl p = word_of_nat (length (L Task_head)))"

text \<open>Which workers run which entry, and which closers wait for the thread of which entry.\<close>

definition runs :: "(nat \<rightharpoonup> thread) \<Rightarrow> (nat \<times> nat) set" where
  "runs ts = {(i, k). ts i = Some (Worker_run k)}"

definition joins :: "(nat \<rightharpoonup> thread) \<Rightarrow> (nat \<times> nat) set" where
  "joins ts = {(i, k). ts i = Some (Close_wait k)}"

definition entries_ok :: "threadpool \<Rightarrow> (paddr \<Rightarrow> paddr list) \<Rightarrow> (nat \<times> nat) set \<Rightarrow> bool" where
  "entries_ok p L R \<longleftrightarrow>
     (\<forall>k\<in>snd ` R. tasks p k \<noteq> None \<and> Task_node k \<notin> entries L) \<and> inj_on snd R \<and>
     (\<forall>k. tasks p k \<noteq> None \<longrightarrow> Task_node k \<in> entries L \<or> k \<in> snd ` R)"

text \<open>A thread not yet gone is on the list of threads, or a closer waits for it.\<close>

definition threads_ok ::
  "threadpool \<Rightarrow> (paddr \<Rightarrow> paddr list) \<Rightarrow> nat set \<Rightarrow> (nat \<times> nat) set \<Rightarrow> bool" where
  "threads_ok p L V J \<longleftrightarrow> finite V \<and> thread_alive p = int (card V) \<and>
     thread_alive p \<le> max (thread_min p) (thread_max p) \<and>
     (\<forall>i\<in>V. \<exists>k. pids p k = Some i \<and> (Pid_node k \<in> set (L Pid_head) \<or> k \<in> snd ` J)) \<and>
     (\<forall>k\<in>snd ` J. pids p k \<noteq> None \<and> Pid_node k \<notin> set (L Pid_head)) \<and> inj_on snd J"

definition queued :: "threadpool \<Rightarrow> (paddr \<Rightarrow> paddr list) \<Rightarrow> job list" where
  "queued p L = map (node_job p) (L Task_head)"

definition jobs_ok :: "config \<Rightarrow> (paddr \<Rightarrow> paddr list) \<Rightarrow> bool" where
  "jobs_ok c L \<longleftrightarrow>
     (if shutdown (pool c) = 0
      then mset (accepted c) = mset (taken c) + mset (queued (pool c) L) \<and>
        (\<not> jumped c \<longrightarrow> accepted c = taken c @ queued (pool c) L)
      else mset (taken c) \<subseteq># mset (accepted c) \<and>
        (\<not> jumped c \<longrightarrow> (\<exists>rest. accepted c = taken c @ rest)))"

definition inv_on :: "config \<Rightarrow> (paddr \<Rightarrow> paddr list) \<Rightarrow> bool" where
  "inv_on c L \<longleftrightarrow> pool_lists (pool c) L \<and> entries_ok (pool c) L (runs (thr c)) \<and>
     threads_ok (pool c) L (lives (thr c)) (joins (thr c)) \<and> jobs_ok c L"

lemma inv_onD:
  assumes "inv_on c L"
  shows "pool_lists (pool c) L" "entries_ok (pool c) L (runs (thr c))"
    "threads_ok (pool c) L (lives (thr c)) (joins (thr c))" "jobs_ok c L"
  using assms by (simp_all add: inv_on_def)

lemma pool_heads_simps [simp]: "Task_head \<in> pool_heads" "Free_head \<in> pool_heads" "Pid_head \<in> pool_heads"
  by (simp_all add: pool_heads_def)

lemma pool_heads_cases: "a \<in> pool_heads \<longleftrightarrow> a = Task_head \<or> a = Free_head \<or> a = Pid_head"
  by (auto simp: pool_heads_def)

section \<open>What the invariant sees of the threads\<close>

lemma views_upd:
  "lives (ts(i \<mapsto> w)) = (if live w then insert i (lives ts) else lives ts - {i})"
  "runs (ts(i \<mapsto> w)) = {x \<in> runs ts. fst x \<noteq> i} \<union> {(i, k) | k. w = Worker_run k}"
  "joins (ts(i \<mapsto> w)) = {x \<in> joins ts. fst x \<noteq> i} \<union> {(i, k) | k. w = Close_wait k}"
  by (auto simp: lives_def runs_def joins_def split: if_splits)

lemma views_at:
  "ts i = Some w \<Longrightarrow> i \<in> lives ts \<longleftrightarrow> live w" "ts i = None \<Longrightarrow> i \<notin> lives ts"
  "ts i \<notin> Some ` range Worker_run \<Longrightarrow> {x \<in> runs ts. fst x \<noteq> i} = runs ts"
  "ts i \<notin> Some ` range Close_wait \<Longrightarrow> {x \<in> joins ts. fst x \<noteq> i} = joins ts"
  by (auto simp: lives_def runs_def joins_def image_iff)

text \<open>Neither running a task nor joining a thread, as most threads most of the time.\<close>

fun plain :: "thread \<Rightarrow> bool" where
  "plain (Worker_run k) = False"
| "plain (Close_wait k) = False"
| "plain w = True"

lemma plain_upd:
  assumes "ts i = Some v" "plain v" "plain w"
  shows "runs (ts(i \<mapsto> w)) = runs ts" "joins (ts(i \<mapsto> w)) = joins ts"
    "lives (ts(i \<mapsto> w)) = (if live w then insert i (lives ts) else lives ts - {i})"
  using assms by (cases w; auto simp: views_upd runs_def joins_def split: if_splits)+

lemma new_upd:
  assumes "ts i = None" "plain w"
  shows "runs (ts(i \<mapsto> w)) = runs ts" "joins (ts(i \<mapsto> w)) = joins ts"
    "lives (ts(i \<mapsto> w)) = (if live w then insert i (lives ts) else lives ts)"
  using assms by (cases w; auto simp: views_upd runs_def joins_def lives_def split: if_splits)+

definition same_view :: "(nat \<rightharpoonup> thread) \<Rightarrow> (nat \<rightharpoonup> thread) \<Rightarrow> bool" where
  "same_view ts ts' \<longleftrightarrow> lives ts' = lives ts \<and> runs ts' = runs ts \<and> joins ts' = joins ts"

lemma same_viewI: "ts i = Some v \<Longrightarrow> plain v \<Longrightarrow> plain w \<Longrightarrow> live w = live v \<Longrightarrow> same_view ts (ts(i \<mapsto> w))"
  by (auto simp: same_view_def plain_upd lives_def)

lemma same_view_new: "ts i = None \<Longrightarrow> plain w \<Longrightarrow> \<not> live w \<Longrightarrow> same_view ts (ts(i \<mapsto> w))"
  by (simp add: same_view_def new_upd)

lemma wake_facts [simp]: "live (wake w) = live w" "plain (wake w) = plain w"
  by (cases w; simp)+

lemma waiting_plain: "waiting w \<Longrightarrow> plain w"
  by (cases w) simp_all

lemma view_wake: "ts i = Some w \<Longrightarrow> waiting w \<Longrightarrow> same_view ts (ts(i \<mapsto> wake w))"
  by (rule same_viewI) (simp_all add: waiting_plain)

lemma view_signal: "cond_signal ts ts' \<Longrightarrow> same_view ts ts'"
  by (erule cond_signal.cases) (simp_all only: view_wake, simp add: same_view_def)

lemma view_broadcast: "same_view ts (cond_broadcast ts)"
proof -
  have "wake w = Worker_run k \<longleftrightarrow> w = Worker_run k" "wake w = Close_wait k \<longleftrightarrow> w = Close_wait k" for w k
    by (cases w; simp)+
  then show ?thesis
    by (auto simp: same_view_def lives_def runs_def joins_def cond_broadcast_def)
qed

lemma inv_view: "inv_on c L \<Longrightarrow> same_view (thr c) ts \<Longrightarrow> inv_on (c\<lparr>thr := ts\<rparr>) L"
  by (simp add: inv_on_def same_view_def jobs_ok_def)

section \<open>Steps that leave the lists alone\<close>

lemma inv_call_close:
  assumes inv: "inv_on c L" and i: "thr c i = None"
  shows "inv_on (c\<lparr>pool := close_begin (pool c), thr := (cond_broadcast (thr c))(i \<mapsto> Close_join)\<rparr>) L"
proof -
  have "cond_broadcast (thr c) i = None"
    using i by (simp add: cond_broadcast_def)
  note new_upd [where ts = "cond_broadcast (thr c)" and i = i and w = Close_join, OF this]
  then have v: "lives ((cond_broadcast (thr c))(i \<mapsto> Close_join)) = lives (thr c)"
    "runs ((cond_broadcast (thr c))(i \<mapsto> Close_join)) = runs (thr c)"
    "joins ((cond_broadcast (thr c))(i \<mapsto> Close_join)) = joins (thr c)"
    using view_broadcast [of "thr c"] by (simp_all add: same_view_def)
  have "jobs_ok (c\<lparr>pool := close_begin (pool c), thr := ts\<rparr>) L" for ts
    using inv_onD(4) [OF inv] by (auto simp: jobs_ok_def close_begin_def split: if_splits)
  then show ?thesis
    using inv_onD(1-3) [OF inv]
    by (simp add: inv_on_def v pool_lists_def entries_ok_def threads_ok_def close_begin_def)
qed

lemma inv_pool_flags:
  assumes inv: "inv_on c L" and v: "same_view (thr c) ts"
  shows "inv_on (c\<lparr>pool := (pool c)\<lparr>list_task_max := m\<rparr>, thr := ts\<rparr>) L"
    and "inv_on (c\<lparr>pool := (pool c)\<lparr>locked_forever := True\<rparr>, thr := ts\<rparr>) L"
  using inv v
  by (simp_all add: inv_on_def same_view_def jobs_ok_def queued_def pool_lists_def entries_ok_def
      threads_ok_def node_job_def [abs_def])

lemma inv_work_leave:
  assumes inv: "inv_on c L" and i: "thr c i = Some Worker_top"
  shows "inv_on (c\<lparr>pool := worker_leave (pool c), thr := (thr c)(i \<mapsto> Worker_gone)\<rparr>) L"
proof -
  have "i \<in> lives (thr c)"
    using i by (simp add: views_at)
  moreover have t: "finite (lives (thr c))" "thread_alive (pool c) = int (card (lives (thr c)))"
    using inv_onD(3) [OF inv] by (simp_all add: threads_ok_def)
  ultimately have "int (card (lives (thr c) - {i})) = thread_alive (pool c) - 1"
    using card_Suc_Diff1 [of "lives (thr c)" i] by linarith
  then have "threads_ok (worker_leave (pool c)) L (lives (thr c) - {i}) (joins (thr c))"
    using inv_onD(3) [OF inv] by (auto simp: threads_ok_def worker_leave_def)
  then show ?thesis
    using inv_onD(1,2,4) [OF inv]
    by (simp add: inv_on_def plain_upd [where ts = "thr c", OF i] pool_lists_def entries_ok_def jobs_ok_def queued_def
        worker_leave_def node_job_def [abs_def])
qed

lemma joins_upd:
  assumes "ts i = Some (Close_wait k)" "inj_on snd (joins ts)"
  shows "snd ` joins (ts(i \<mapsto> Close_join)) = snd ` joins ts - {k}" "inj_on snd (joins (ts(i \<mapsto> Close_join)))"
proof -
  have m: "(i, k) \<in> joins ts" and e: "joins (ts(i \<mapsto> Close_join)) = joins ts - {(i, k)}"
    using assms(1) by (auto simp: views_upd joins_def split: if_splits)
  show "snd ` joins (ts(i \<mapsto> Close_join)) = snd ` joins ts - {k}"
    unfolding e using inj_on_image_set_diff [OF assms(2), of "joins ts" "{(i, k)}"] m by simp
  show "inj_on snd (joins (ts(i \<mapsto> Close_join)))"
    unfolding e by (rule inj_on_subset [OF assms(2)]) auto
qed

lemma inv_joined:
  assumes inv: "inv_on c L" and i: "thr c i = Some (Close_wait k)"
    and w: "pids (pool c) k = Some w" "thr c w = Some Worker_gone"
  shows "inv_on (c\<lparr>pool := (pool c)\<lparr>pids := (pids (pool c))(k := None)\<rparr>,
    thr := (thr c)(i \<mapsto> Close_join)\<rparr>) L"
proof -
  let ?p = "(pool c)\<lparr>pids := (pids (pool c))(k := None)\<rparr>" and ?ts = "(thr c)(i \<mapsto> Close_join)"
  note t = inv_onD(3) [OF inv, unfolded threads_ok_def]
  have l: "lives ?ts = lives (thr c)" "runs ?ts = runs (thr c)"
    using i by (auto simp: lives_def runs_def split: if_splits)
  have j: "snd ` joins ?ts = snd ` joins (thr c) - {k}" "inj_on snd (joins ?ts)"
    using joins_upd [of "thr c" i k] i t by simp_all
  have "k \<in> snd ` joins (thr c)"
    using i by (force simp: joins_def)
  then have away: "Pid_node k \<notin> set (L Pid_head)"
    using t by blast
  have other: "k' \<noteq> k" if "pids (pool c) k' = Some j" "j \<in> lives (thr c)" for k' j
    using that w by (auto simp: lives_def)
  have "\<exists>k'. pids ?p k' = Some j \<and> (Pid_node k' \<in> set (L Pid_head) \<or> k' \<in> snd ` joins ?ts)"
    if m: "j \<in> lives (thr c)" for j
  proof -
    obtain k' where k': "pids (pool c) k' = Some j"
      "Pid_node k' \<in> set (L Pid_head) \<or> k' \<in> snd ` joins (thr c)"
      using t m by blast
    then show ?thesis
      unfolding j using other [OF k'(1) m] by (intro exI [of _ k']) simp
  qed
  then have "threads_ok ?p L (lives (thr c)) (joins ?ts)"
    using t j by (simp add: threads_ok_def) blast
  moreover have "pool_lists ?p L"
  proof -
    have "set (L Pid_head) \<subseteq> Pid_node ` dom (pids (pool c))"
      using inv_onD(1) [OF inv] by (simp add: pool_lists_def)
    then have "set (L Pid_head) \<subseteq> Pid_node ` (dom (pids (pool c)) - {k})"
      using away by blast
    then show ?thesis
      using inv_onD(1) [OF inv] by (simp add: pool_lists_def)
  qed
  ultimately show ?thesis
    using inv_onD(2,4) [OF inv]
    by (simp add: inv_on_def l jobs_ok_def queued_def entries_ok_def node_job_def [abs_def])
qed

section \<open>Queueing a task\<close>

lemma node_job_frame:
  assumes "tasks p' = (tasks p)(k := t)" "Task_node k \<notin> set xs"
  shows "map (node_job p') xs = map (node_job p) xs"
proof (rule map_cong [OF refl])
  fix n
  assume "n \<in> set xs"
  with assms(2) have "n \<noteq> Task_node k"
    by blast
  then show "node_job p' n = node_job p n"
    by (cases n) (simp_all add: node_job_def assms(1))
qed

lemma pool_listsD:
  assumes "pool_lists p L"
  shows "lists_rel (plinks p) pool_heads L"
    and "a \<in> pool_heads \<Longrightarrow> dlist (plinks p) a (L a)"
    and "shutdown p = 0 \<Longrightarrow> list_task_ttl p = word_of_nat (length (L Task_head))"
    and "Task_node k \<in> entries L \<Longrightarrow> tasks p k \<noteq> None"
    and "Pid_node k \<in> set (L Pid_head) \<Longrightarrow> pids p k \<noteq> None"
  using assms by (auto simp: pool_lists_def intro: lists_rel_dlist)

text \<open>Nodes that hold no task, and nodes of other kinds, are on neither list of tasks.\<close>

lemma unlinked_task:
  assumes "pool_lists p L" "Task_node k \<notin> entries L"
  shows "unlinked pool_heads L (Task_node k)"
  using assms by (auto simp: unlinked_def pool_heads_cases entries_def pool_lists_def)

lemma unlinked_pid:
  assumes "pool_lists p L" "Pid_node k \<notin> set (L Pid_head)"
  shows "unlinked pool_heads L (Pid_node k)"
  using assms by (auto simp: unlinked_def pool_heads_cases entries_def pool_lists_def)

lemma lists_apart:
  assumes "pool_lists p L"
  shows "distinct (L Task_head)" "distinct (L Free_head)" "distinct (L Pid_head)"
    "set (L Task_head) \<inter> set (L Free_head) = {}"
proof -
  have d: "dlist (plinks p) a (L a)" if "a \<in> pool_heads" for a
    using pool_listsD(2) [OF assms that] .
  show "distinct (L Task_head)" "distinct (L Free_head)" "distinct (L Pid_head)"
    using d [of Task_head] d [of Free_head] d [of Pid_head] by (auto simp: dlist_def)
  show "set (L Task_head) \<inter> set (L Free_head) = {}"
    using lists_rel_disjoint [OF pool_listsD(1) [OF assms], of Task_head Free_head] by auto
qed

lemma take_entry_inv:
  assumes lists: "pool_lists p L" and ents: "entries_ok p L R" and fresh: "fresh_entry p addr"
    and "take_entry addr p = Some (k, p')"
  obtains L' where "p' = p\<lparr>plinks := plinks p'\<rparr>" "pool_lists p' L'" "L' Task_head = L Task_head"
    "L' Pid_head = L Pid_head" "Task_node k \<notin> entries L'" "entries L \<subseteq> insert (Task_node k) (entries L')"
    "entries L' \<subseteq> entries L" "k \<notin> snd ` R"
proof (cases "L Free_head")
  case Nil
  then have "list_empty Free_head (plinks p)"
    using pool_listsD(2) [OF lists, of Free_head] by (simp add: list_empty_iff)
  then have k: "addr = Some k" "p' = p"
    using assms(4) by (auto simp: take_entry_def)
  then have "tasks p k = None"
    using fresh by (simp add: fresh_entry_def)
  then have "Task_node k \<notin> entries L" "k \<notin> snd ` R"
    using ents pool_listsD(4) [OF lists, of k] unfolding entries_ok_def by blast+
  then show thesis
    using lists k that [of L] by auto
next
  case (Cons n ys)
  then obtain j where j: "n = Task_node j" "Task_node j \<in> entries L"
    using lists by (auto simp: pool_lists_def entries_def)
  have "lnext (plinks p) Free_head = Task_node j" "\<not> list_empty Free_head (plinks p)"
    using pool_listsD(2) [OF lists, of Free_head] Cons j
    by (simp_all add: list_empty_iff dlist_first)
  then have k: "k = j" "p' = p\<lparr>plinks := list_del (Task_node k) (plinks p)\<rparr>"
    using assms(4) by (auto simp: take_entry_def)
  let ?L = "L(Free_head := ys)"
  have "lists_rel (plinks p') pool_heads ?L"
    using lists_rel_list_del [OF pool_listsD(1) [OF lists], of Free_head "[]" n ys] Cons j k by simp
  moreover have e: "entries L = insert (Task_node k) (entries ?L)" "Task_node k \<notin> entries ?L"
    using lists_apart [OF lists] Cons j k by (auto simp: entries_def)
  ultimately have "pool_lists p' ?L"
    using lists k by (auto simp: pool_lists_def)
  moreover have "k \<notin> snd ` R"
    using ents j k by (auto simp: entries_ok_def)
  ultimately show thesis
    using e k by (intro that [of ?L]) auto
qed

lemma more_jobs: "A \<subseteq># B \<Longrightarrow> A \<subseteq># add_mset j B"
  by (metis add_mset_add_single mset_subset_eq_add_left subset_mset.order_trans)

lemma inv_enqueue:
  assumes inv: "inv_on c L" and fresh: "fresh_entry (pool c) addr"
    and add: "add_enqueue addr j first (pool c) = (0, p)" and v: "same_view (thr c) ts"
  obtains L' where "inv_on (c\<lparr>pool := p, thr := ts, accepted := accepted c @ [j],
    jumped := (jumped c \<or> first)\<rparr>) L'"
proof -
  obtain k p' where take: "take_entry addr (pool c) = Some (k, p')"
    using add by (cases "take_entry addr (pool c)") (auto simp: add_enqueue_def)
  obtain L' where L': "p' = (pool c)\<lparr>plinks := plinks p'\<rparr>" "pool_lists p' L'"
    "L' Task_head = L Task_head" "L' Pid_head = L Pid_head" "Task_node k \<notin> entries L'"
    "entries L \<subseteq> insert (Task_node k) (entries L')" "entries L' \<subseteq> entries L" "k \<notin> snd ` runs (thr c)"
    using take_entry_inv [OF inv_onD(1,2) [OF inv] fresh take] by blast
  define xs where "xs = (if first then Task_node k # L Task_head else L Task_head @ [Task_node k])"
  define L2 where "L2 = L'(Task_head := xs)"
  have p: "p = p'\<lparr>tasks := (tasks p')(k \<mapsto> \<lparr>tk_fun = fst j, tk_arg = snd j\<rparr>),
      plinks := (if first then list_add (Task_node k) Task_head (plinks p')
        else list_add_tail (Task_node k) Task_head (plinks p')),
      list_task_ttl := list_task_ttl p' + 1\<rparr>"
    using add take by (simp add: add_enqueue_def)
  have rel: "lists_rel (plinks p) pool_heads L2"
    using lists_rel_list_add [OF pool_listsD(1) [OF L'(2)] pool_heads_simps(1) unlinked_task [OF L'(2,5)]]
      lists_rel_list_add_tail [OF pool_listsD(1) [OF L'(2)] pool_heads_simps(1) unlinked_task [OF L'(2,5)]]
    by (simp add: p L2_def xs_def L'(3))
  have e: "entries L2 = insert (Task_node k) (entries L')"
    by (auto simp: entries_def L2_def xs_def L'(3))
  have same: "tasks p' = tasks (pool c)" "shutdown p' = shutdown (pool c)"
    "list_task_ttl p' = list_task_ttl (pool c)" "thread_alive p' = thread_alive (pool c)"
    "thread_min p' = thread_min (pool c)" "thread_max p' = thread_max (pool c)" "pids p' = pids (pool c)"
    by (subst L'(1), simp)+
  have flags: "shutdown p = shutdown (pool c)" "thread_alive p = thread_alive (pool c)"
    "thread_min p = thread_min (pool c)" "thread_max p = thread_max (pool c)" "pids p = pids (pool c)"
    "tasks p = (tasks (pool c))(k \<mapsto> \<lparr>tk_fun = fst j, tk_arg = snd j\<rparr>)"
    "list_task_ttl p = list_task_ttl (pool c) + 1"
    by (simp_all add: p same)
  have "length (L2 Task_head) = Suc (length (L Task_head))"
    by (simp add: L2_def xs_def)
  then have "pool_lists p L2"
    using rel L'(2) e flags pool_listsD(3) [OF inv_onD(1) [OF inv]] inv_onD(1) [OF inv]
    by (auto simp: pool_lists_def L2_def L'(4) same)
  moreover have "entries_ok p L2 (runs (thr c))"
  proof -
    note old = inv_onD(2) [OF inv, unfolded entries_ok_def]
    have "tasks p k' \<noteq> None \<and> Task_node k' \<notin> entries L2" if "k' \<in> snd ` runs (thr c)" for k'
    proof -
      have "tasks (pool c) k' \<noteq> None" "Task_node k' \<notin> entries L" "k' \<noteq> k"
        using old that L'(8) by blast+
      then show ?thesis
        using L'(7) by (auto simp: e flags(6))
    qed
    moreover have "Task_node k' \<in> entries L2 \<or> k' \<in> snd ` runs (thr c)" if "tasks p k' \<noteq> None" for k'
    proof (cases "k' = k")
      case False
      then have "Task_node k' \<in> entries L \<or> k' \<in> snd ` runs (thr c)"
        using old that by (simp add: flags(6))
      then show ?thesis
        using L'(6) e by blast
    qed (simp add: e)
    ultimately show ?thesis
      using old by (simp add: entries_ok_def)
  qed
  moreover have "threads_ok p L2 (lives (thr c)) (joins (thr c))"
    using inv_onD(3) [OF inv] flags L'(4) by (simp add: threads_ok_def L2_def)
  moreover have "queued p L2 = (if first then j # queued (pool c) L else queued (pool c) L @ [j])"
    using node_job_frame [OF flags(6), of "L Task_head"] L'(3,5)
    by (auto simp: queued_def L2_def xs_def entries_def node_job_def flags)
  then have "jobs_ok (c\<lparr>pool := p, thr := ts, accepted := accepted c @ [j], jumped := (jumped c \<or> first)\<rparr>) L2"
    using inv_onD(4) [OF inv] flags(1) by (auto simp: jobs_ok_def more_jobs split: if_splits)
  ultimately show thesis
    using v by (intro that [of L2]) (simp add: inv_on_def same_view_def)
qed

lemma inv_no_memory:
  assumes inv: "inv_on c L" and fresh: "fresh_entry (pool c) addr"
    and add: "add_enqueue addr j first (pool c) = (r, p)" "r \<noteq> 0" and v: "same_view (thr c) ts"
  shows "inv_on (c\<lparr>pool := p, thr := ts\<rparr>) L"
proof -
  have "p = (pool c)\<lparr>locked_forever := True\<rparr>"
    using add by (auto simp: add_enqueue_def split: option.splits)
  then show ?thesis
    using inv_pool_flags(2) [OF inv v] by simp
qed

section \<open>Starting another worker\<close>

lemma threads_okI:
  assumes "finite V" "thread_alive p = int (card V)" "thread_alive p \<le> max (thread_min p) (thread_max p)"
    and "\<And>i. i \<in> V \<Longrightarrow> \<exists>k. pids p k = Some i \<and> (Pid_node k \<in> set (L Pid_head) \<or> k \<in> snd ` J)"
    and "\<And>k. k \<in> snd ` J \<Longrightarrow> pids p k \<noteq> None \<and> Pid_node k \<notin> set (L Pid_head)"
    and "inj_on snd J"
  shows "threads_ok p L V J"
  unfolding threads_ok_def by (intro conjI ballI assms)

lemma threads_okD:
  assumes "threads_ok p L V J"
  shows "finite V" "thread_alive p = int (card V)" "thread_alive p \<le> max (thread_min p) (thread_max p)"
    and "i \<in> V \<Longrightarrow> \<exists>k. pids p k = Some i \<and> (Pid_node k \<in> set (L Pid_head) \<or> k \<in> snd ` J)"
    and "k \<in> snd ` J \<Longrightarrow> pids p k \<noteq> None \<and> Pid_node k \<notin> set (L Pid_head)"
    and "inj_on snd J"
  using assms unfolding threads_ok_def by blast+

lemma threads_ok_pid:
  assumes t: "threads_ok p L V J" and k: "pids p k = None"
  shows "threads_ok (p\<lparr>pids := (pids p)(k \<mapsto> pid)\<rparr>) L V J"
proof (rule threads_okI)
  fix i
  assume "i \<in> V"
  from threads_okD(4) [OF t this] obtain k' where k': "pids p k' = Some i"
    "Pid_node k' \<in> set (L Pid_head) \<or> k' \<in> snd ` J"
    by blast
  then have "k' \<noteq> k"
    using k by auto
  then show "\<exists>k'. pids (p\<lparr>pids := (pids p)(k \<mapsto> pid)\<rparr>) k' = Some i \<and>
      (Pid_node k' \<in> set (L Pid_head) \<or> k' \<in> snd ` J)"
    using k' by (intro exI [of _ k']) simp
qed (use threads_okD [OF t] in \<open>auto simp del: ball_simps\<close>)

text \<open>The new worker \<open>pid\<close> whose entry is put on the list of threads.\<close>

lemma threads_ok_spawn:
  assumes t: "threads_ok p L V J" and k: "pids p k = None" and new: "pid \<notin> V"
    and room: "thread_alive p < thread_max p"
    and p': "pids p' = (pids p)(k \<mapsto> pid)" "thread_alive p' = thread_alive p + 1"
      "thread_min p' = thread_min p" "thread_max p' = thread_max p"
  shows "threads_ok p' (L(Pid_head := L Pid_head @ [Pid_node k])) (insert pid V) J"
proof (rule threads_okI)
  fix i
  assume "i \<in> insert pid V"
  then consider "i = pid" | k' where "k' \<noteq> k" "pids p k' = Some i"
      "Pid_node k' \<in> set (L Pid_head) \<or> k' \<in> snd ` J"
    using threads_okD(4) [OF t, of i] k by (metis insertE option.distinct(1))
  then show "\<exists>k'. pids p' k' = Some i \<and>
      (Pid_node k' \<in> set ((L(Pid_head := L Pid_head @ [Pid_node k])) Pid_head) \<or> k' \<in> snd ` J)"
  proof cases
    case 1
    then show ?thesis
      by (intro exI [of _ k]) (simp add: p')
  next
    case (2 k')
    then show ?thesis
      by (intro exI [of _ k']) (auto simp: p')
  qed
next
  fix k'
  assume "k' \<in> snd ` J"
  from threads_okD(5) [OF t this] k
  show "pids p' k' \<noteq> None \<and> Pid_node k' \<notin> set ((L(Pid_head := L Pid_head @ [Pid_node k])) Pid_head)"
    by (auto simp: p')
qed (use threads_okD(1-3,6) [OF t] new room in \<open>simp_all add: p'\<close>)

lemma inv_activity:
  assumes inv: "inv_on c L" and i: "thr c i = Some Add_activity" and fresh: "fresh_spawn c s"
    and act: "uc_threadpool_activty_try_do s (pool c) = (r, p, new)"
  obtains L' where "inv_on (c\<lparr>pool := p, thr := (case new of
        None \<Rightarrow> (thr c)(i \<mapsto> Add_done 0)
      | Some w \<Rightarrow> (thr c)(i \<mapsto> Add_done 0, w \<mapsto> Worker_top))\<rparr>) L'"
proof -
  have v: "same_view (thr c) ((thr c)(i \<mapsto> Add_done 0))"
    by (rule same_viewI [where ts = "thr c", OF i]) simp_all
  have leak: "inv_on (c\<lparr>pool := (pool c)\<lparr>pids := (pids (pool c))(k \<mapsto> pid)\<rparr>, thr := ts\<rparr>) L"
    if "pids (pool c) k = None" "same_view (thr c) ts" for k pid ts
  proof -
    show ?thesis
      using inv_onD(1,2,4) [OF inv] that(2) threads_ok_pid [OF inv_onD(3) [OF inv] that(1)]
      by (auto simp: inv_on_def same_view_def pool_lists_def entries_ok_def jobs_ok_def queued_def
          node_job_def [abs_def])
  qed
  show thesis
  proof (cases "thread_alive (pool c) \<ge> thread_max (pool c) \<or>
      (word_of_int (thread_alive (pool c)) :: u64) > list_task_ttl (pool c)")
    case True
    then have "p = pool c" "new = None"
      using act by (auto simp: uc_threadpool_activty_try_do_def split: if_splits)
    then show thesis
      using inv_view [OF inv v] by (intro that [of L]) simp
  next
    case room: False
    obtain entry ret pid where s: "s = (entry, ret, pid)"
      by (cases s)
    consider (none) "p = pool c" "new = None"
      | (fail) k where "entry = Some k" "p = (pool c)\<lparr>pids := (pids (pool c))(k \<mapsto> pid)\<rparr>" "new = None"
      | (made) k where "entry = Some k" "new = Some pid"
          "p = (pool c)\<lparr>pids := (pids (pool c))(k \<mapsto> pid), thread_alive := thread_alive (pool c) + 1,
             plinks := list_add_tail (Pid_node k) Pid_head (plinks (pool c))\<rparr>"
      using act room
      by (auto simp: uc_threadpool_activty_try_do_def s split: if_splits option.splits)
    then show thesis
    proof cases
      case none
      then show thesis
        using inv_view [OF inv v] by (intro that [of L]) simp
    next
      case fail
      then show thesis
        using leak [OF _ v] fresh s by (intro that [of L]) (simp add: fresh_spawn_def)
    next
      case made
      let ?L = "L(Pid_head := L Pid_head @ [Pid_node k])"
      let ?ts = "(thr c)(i \<mapsto> Add_done 0, pid \<mapsto> Worker_top)"
      have new: "thr c pid = None" "pids (pool c) k = None" "pid \<noteq> i"
        using fresh s made(1) i by (auto simp: fresh_spawn_def)
      then have "Pid_node k \<notin> set (L Pid_head)"
        using pool_listsD(5) [OF inv_onD(1) [OF inv], of k] by blast
      note rel = lists_rel_list_add_tail [OF pool_listsD(1) [OF inv_onD(1) [OF inv]]
          pool_heads_simps(3) unlinked_pid [OF inv_onD(1) [OF inv] this]]
      have views: "lives ?ts = insert pid (lives (thr c))" "runs ?ts = runs (thr c)"
        "joins ?ts = joins (thr c)"
        using v new new_upd [of "(thr c)(i \<mapsto> Add_done 0)" pid Worker_top]
        by (simp_all add: same_view_def)
      have "pid \<notin> lives (thr c)"
        using new by (simp add: lives_def)
      then have "threads_ok p ?L (lives ?ts) (joins ?ts)"
        using threads_ok_spawn [OF inv_onD(3) [OF inv] new(2), of pid p] room
        by (simp add: views made(3))
      moreover have "pool_lists p ?L" "entries_ok p ?L (runs ?ts)"
        using rel inv_onD(1,2) [OF inv]
        by (auto simp: pool_lists_def entries_ok_def entries_def made(3) views)
      moreover have "jobs_ok (c\<lparr>pool := p, thr := ?ts\<rparr>) ?L"
        using inv_onD(4) [OF inv] by (simp add: jobs_ok_def queued_def made(3) node_job_def [abs_def])
      ultimately show thesis
        using made(2) by (intro that [of ?L]) (simp add: inv_on_def)
    qed
  qed
qed

section \<open>Taking and returning a task\<close>

lemma runs_start:
  assumes "ts i = Some Worker_top"
  shows "runs (ts(i \<mapsto> Worker_run k)) = insert (i, k) (runs ts)"
    "lives (ts(i \<mapsto> Worker_run k)) = lives ts" "joins (ts(i \<mapsto> Worker_run k)) = joins ts"
  using assms by (auto simp: runs_def lives_def joins_def split: if_splits)

lemma runs_stop:
  assumes "ts i = Some (Worker_run k)"
  shows "runs (ts(i \<mapsto> Worker_top)) = runs ts - {(i, k)}"
    "lives (ts(i \<mapsto> Worker_top)) = lives ts" "joins (ts(i \<mapsto> Worker_top)) = joins ts"
  using assms by (auto simp: runs_def lives_def joins_def split: if_splits)

lemma inj_snd_insert: "inj_on snd R \<Longrightarrow> k \<notin> snd ` R \<Longrightarrow> inj_on snd (insert (i, k) R)"
  by (auto simp: inj_on_def image_iff)

lemma inj_snd_remove:
  assumes "inj_on snd R" "(i, k) \<in> R"
  shows "snd ` (R - {(i, k)}) = snd ` R - {k}" "inj_on snd (R - {(i, k)})"
  using inj_on_image_set_diff [OF assms(1), of R "{(i, k)}"] assms inj_on_subset [OF assms(1)]
  by auto

lemma entries_okI:
  assumes "\<And>k. k \<in> snd ` R \<Longrightarrow> tasks p k \<noteq> None \<and> Task_node k \<notin> entries L" "inj_on snd R"
    and "\<And>k. tasks p k \<noteq> None \<Longrightarrow> Task_node k \<in> entries L \<or> k \<in> snd ` R"
  shows "entries_ok p L R"
  unfolding entries_ok_def by (intro conjI ballI allI impI assms)

lemma entries_okD:
  assumes "entries_ok p L R"
  shows "k \<in> snd ` R \<Longrightarrow> tasks p k \<noteq> None \<and> Task_node k \<notin> entries L" "inj_on snd R"
    and "tasks p k \<noteq> None \<Longrightarrow> Task_node k \<in> entries L \<or> k \<in> snd ` R"
  using assms unfolding entries_ok_def by blast+

lemma inv_take:
  assumes inv: "inv_on c L" and i: "thr c i = Some Worker_top" and on: "shutdown (pool c) = 0"
    and some: "\<not> worker_waits (pool c)" and take: "worker_take (pool c) = (Task_node k, p)"
    and sig: "cond_signal ((thr c)(i \<mapsto> Worker_run k)) ts"
  obtains L' where "L Task_head = Task_node k # L' Task_head"
    "inv_on (c\<lparr>pool := p, thr := ts, taken := taken c @ [node_job (pool c) (Task_node k)]\<rparr>) L'"
proof -
  note lists = inv_onD(1) [OF inv]
  have "L Task_head \<noteq> []"
    using some on pool_listsD(2) [OF lists, of Task_head] by (simp add: worker_waits_def list_empty_iff)
  then obtain ys where ys: "L Task_head = Task_node k # ys"
    using take pool_listsD(2) [OF lists, of Task_head]
    by (cases "L Task_head") (auto simp: worker_take_def Let_def dlist_first)
  have p: "p = (pool c)\<lparr>plinks := list_del (Task_node k) (plinks (pool c)),
      list_task_ttl := list_task_ttl (pool c) - 1\<rparr>"
    using take pool_listsD(2) [OF lists, of Task_head] ys by (auto simp: worker_take_def Let_def)
  let ?L = "L(Task_head := ys)" and ?ts = "(thr c)(i \<mapsto> Worker_run k)"
  have rel: "lists_rel (plinks p) pool_heads ?L"
    using lists_rel_list_del [OF pool_listsD(1) [OF lists], of Task_head "[]"] ys by (simp add: p)
  have e: "entries L = insert (Task_node k) (entries ?L)" "Task_node k \<notin> entries ?L"
    using lists_apart [OF lists] ys by (auto simp: entries_def)
  have k: "k \<notin> snd ` runs (thr c)" "tasks (pool c) k \<noteq> None"
    using entries_okD(1) [OF inv_onD(2) [OF inv]] pool_listsD(4) [OF lists] e by blast+
  have "pool_lists p ?L"
    using lists rel e(1) pool_listsD(3) [OF lists] ys by (simp add: pool_lists_def p)
  moreover have "entries_ok p ?L (runs ?ts)"
  proof (rule entries_okI)
    show "tasks p j \<noteq> None \<and> Task_node j \<notin> entries ?L" if "j \<in> snd ` runs ?ts" for j
      using that entries_okD(1) [OF inv_onD(2) [OF inv], of j] k e by (auto simp: runs_start [where ts = "thr c", OF i] p)
    show "inj_on snd (runs ?ts)"
      using inj_snd_insert [OF entries_okD(2) [OF inv_onD(2) [OF inv]] k(1)] by (simp add: runs_start [where ts = "thr c", OF i])
    show "Task_node j \<in> entries ?L \<or> j \<in> snd ` runs ?ts" if "tasks p j \<noteq> None" for j
      using that entries_okD(3) [OF inv_onD(2) [OF inv], of j] e by (auto simp: runs_start [where ts = "thr c", OF i] p)
  qed
  moreover have "threads_ok p ?L (lives ?ts) (joins ?ts)"
    using inv_onD(3) [OF inv] by (simp add: threads_ok_def runs_start [where ts = "thr c", OF i] p)
  moreover have "queued (pool c) L = node_job (pool c) (Task_node k) # queued p ?L"
    by (simp add: queued_def ys p node_job_def [abs_def])
  then have "jobs_ok (c\<lparr>pool := p, thr := ts, taken := taken c @ [node_job (pool c) (Task_node k)]\<rparr>) ?L"
    using inv_onD(4) [OF inv] on by (simp add: jobs_ok_def p)
  ultimately show thesis
    using view_signal [OF sig] ys by (intro that [of ?L]) (simp_all add: inv_on_def same_view_def)
qed

lemma inv_recycle:
  assumes inv: "inv_on c L" and i: "thr c i = Some (Worker_run k)"
  shows "inv_on (c\<lparr>pool := worker_recycle k (pool c), thr := (thr c)(i \<mapsto> Worker_top)\<rparr>)
    (L(Free_head := L Free_head @ [Task_node k]))"
proof -
  let ?p = "worker_recycle k (pool c)" and ?L = "L(Free_head := L Free_head @ [Task_node k])"
  let ?ts = "(thr c)(i \<mapsto> Worker_top)"
  note lists = inv_onD(1) [OF inv]
  have m: "(i, k) \<in> runs (thr c)"
    using i by (simp add: runs_def)
  then have k: "tasks (pool c) k \<noteq> None" "Task_node k \<notin> entries L"
    using entries_okD(1) [OF inv_onD(2) [OF inv], of k] by force+
  have rel: "lists_rel (plinks ?p) pool_heads ?L"
    using lists_rel_list_add_tail [OF pool_listsD(1) [OF lists] pool_heads_simps(2) unlinked_task [OF lists k(2)]]
    by (simp add: worker_recycle_def)
  have e: "entries ?L = insert (Task_node k) (entries L)"
    by (auto simp: entries_def)
  have dom: "dom (tasks ?p) = dom (tasks (pool c))"
    using k(1) by (auto simp: worker_recycle_def split: if_splits)
  have "pool_lists ?p ?L"
    using lists rel e dom k(1) by (auto simp: pool_lists_def worker_recycle_def)
  moreover have "entries_ok ?p ?L (runs ?ts)"
  proof (rule entries_okI)
    note r = inj_snd_remove [OF entries_okD(2) [OF inv_onD(2) [OF inv]] m]
    have live: "tasks ?p j \<noteq> None \<longleftrightarrow> tasks (pool c) j \<noteq> None" for j
      using dom by (metis domIff)
    show "tasks ?p j \<noteq> None \<and> Task_node j \<notin> entries ?L" if "j \<in> snd ` runs ?ts" for j
      unfolding live using that entries_okD(1) [OF inv_onD(2) [OF inv], of j] by (simp add: runs_stop [where ts = "thr c", OF i] r e)
    show "inj_on snd (runs ?ts)"
      using r by (simp add: runs_stop [where ts = "thr c", OF i])
    show "Task_node j \<in> entries ?L \<or> j \<in> snd ` runs ?ts" if "tasks ?p j \<noteq> None" for j
      using that entries_okD(3) [OF inv_onD(2) [OF inv], of j] unfolding live
      by (auto simp: runs_stop [where ts = "thr c", OF i] r e)
  qed
  moreover have "threads_ok ?p ?L (lives ?ts) (joins ?ts)"
    using inv_onD(3) [OF inv] by (simp add: threads_ok_def runs_stop [where ts = "thr c", OF i] worker_recycle_def)
  moreover have "queued ?p ?L = queued (pool c) L"
    using node_job_frame [of ?p "pool c" k _ "L Task_head"] k(2)
    by (simp add: queued_def worker_recycle_def entries_def)
  then have "jobs_ok (c\<lparr>pool := ?p, thr := ?ts\<rparr>) ?L"
    using inv_onD(4) [OF inv] by (simp add: jobs_ok_def worker_recycle_def)
  ultimately show ?thesis
    by (simp add: inv_on_def)
qed

section \<open>Closing\<close>

lemma inv_join_next:
  assumes inv: "inv_on c L" and i: "thr c i = Some Close_join"
    and nxt: "close_next (pool c) = Some (Pid_node k, p)"
  obtains L' where "inv_on (c\<lparr>pool := p, thr := (thr c)(i \<mapsto> Close_wait k)\<rparr>) L'"
proof -
  note lists = inv_onD(1) [OF inv] and t = threads_okD [OF inv_onD(3) [OF inv]]
  let ?ts = "(thr c)(i \<mapsto> Close_wait k)"
  have "L Pid_head \<noteq> []" and p: "p = (pool c)\<lparr>plinks := list_del (Pid_node k) (plinks (pool c))\<rparr>"
    and first: "lnext (plinks (pool c)) Pid_head = Pid_node k"
    using nxt pool_listsD(2) [OF lists, of Pid_head]
    by (auto simp: close_next_def Let_def list_empty_iff split: if_splits)
  then obtain ys where ys: "L Pid_head = Pid_node k # ys"
    using pool_listsD(2) [OF lists, of Pid_head] by (cases "L Pid_head") (auto simp: dlist_first)
  let ?L = "L(Pid_head := ys)"
  have rel: "lists_rel (plinks p) pool_heads ?L"
    using lists_rel_list_del [OF pool_listsD(1) [OF lists], of Pid_head "[]"] ys by (simp add: p)
  have l: "lives ?ts = lives (thr c)" "runs ?ts = runs (thr c)"
    and j: "joins ?ts = insert (i, k) (joins (thr c))"
    using i by (auto simp: lives_def runs_def joins_def split: if_splits)
  have k: "k \<notin> snd ` joins (thr c)" "pids (pool c) k \<noteq> None" "Pid_node k \<notin> set ys"
    using t(5) [of k] pool_listsD(5) [OF lists, of k] lists_apart(3) [OF lists] ys by auto
  have "threads_ok p ?L (lives ?ts) (joins ?ts)"
    unfolding l
  proof (rule threads_okI)
    show "\<exists>k'. pids p k' = Some m \<and> (Pid_node k' \<in> set (?L Pid_head) \<or> k' \<in> snd ` joins ?ts)"
      if m: "m \<in> lives (thr c)" for m
    proof -
      obtain k' where "pids (pool c) k' = Some m" "Pid_node k' \<in> set (L Pid_head) \<or> k' \<in> snd ` joins (thr c)"
        using t(4) [OF m] by blast
      then show ?thesis
        by (intro exI [of _ k']) (auto simp: p ys j)
    qed
    show "pids p k' \<noteq> None \<and> Pid_node k' \<notin> set (?L Pid_head)" if "k' \<in> snd ` joins ?ts" for k'
      using that t(5) [of k'] k ys by (auto simp: j p)
    show "inj_on snd (joins ?ts)"
      unfolding j by (rule inj_snd_insert [OF t(6) k(1)])
  qed (use t in \<open>simp_all add: p\<close>)
  moreover have "pool_lists p ?L" "entries_ok p ?L (runs ?ts)"
    using lists rel inv_onD(2) [OF inv] ys by (simp_all add: pool_lists_def entries_ok_def entries_def p l)
  moreover have "jobs_ok (c\<lparr>pool := p, thr := ?ts\<rparr>) ?L"
    using inv_onD(4) [OF inv] by (simp add: jobs_ok_def queued_def p node_job_def [abs_def])
  ultimately show thesis
    by (intro that [of ?L]) (simp add: inv_on_def)
qed

text \<open>The loops that free a list of tasks end, leave it empty, and touch nothing else.\<close>

lemma free_tasks_effect:
  assumes "lists_rel (plinks p) pool_heads L" "head \<in> pool_heads" "set (L head) \<subseteq> range Task_node"
    and "length (L head) < fuel"
  shows "\<exists>h. free_tasks fuel head p = Some (p\<lparr>plinks := h,
      tasks := (\<lambda>k. if Task_node k \<in> set (L head) then None else tasks p k)\<rparr>) \<and>
    lists_rel h pool_heads (L(head := []))"
  using assms
proof (induction fuel arbitrary: p L)
  case (Suc fuel)
  note d = lists_rel_dlist [OF Suc.prems(1,2)]
  show ?case
  proof (cases "L head")
    case Nil
    then have "free_tasks (Suc fuel) head p = Some (p\<lparr>plinks := plinks p, tasks := (\<lambda>k. tasks p k)\<rparr>)"
      using d by (simp add: dlist_first)
    moreover have "L(head := []) = L"
      using Nil by (auto simp: fun_eq_iff)
    ultimately show ?thesis
      using Suc.prems(1) Nil by (intro exI [of _ "plinks p"]) simp
  next
    case (Cons n ys)
    then obtain k where n: "n = Task_node k"
      using Suc.prems(3) by auto
    let ?p = "p\<lparr>plinks := list_del (Task_node k) (plinks p), tasks := (tasks p)(k := None)\<rparr>"
    have "lists_rel (plinks ?p) pool_heads (L(head := ys))"
      using lists_rel_list_del [OF Suc.prems(1,2), of "[]"] Cons n by simp
    moreover have "set ((L(head := ys)) head) \<subseteq> range Task_node" "length ((L(head := ys)) head) < fuel"
      using Suc.prems(3,4) Cons by simp_all
    ultimately obtain h where h: "free_tasks fuel head ?p = Some (?p\<lparr>plinks := h,
        tasks := (\<lambda>k. if Task_node k \<in> set ys then None else tasks ?p k)\<rparr>)"
      "lists_rel h pool_heads (L(head := []))"
      using Suc.IH [of ?p "L(head := ys)"] Suc.prems(2) by (auto simp del: fun_upd_apply simp: fun_upd_same fun_upd_upd)
    have "lnext (plinks p) head = Task_node k" "head \<noteq> Task_node k"
      using d Cons n Suc.prems(2) by (auto simp: dlist_first pool_heads_cases)
    then have "free_tasks (Suc fuel) head p = Some (?p\<lparr>plinks := h,
        tasks := (\<lambda>j. if Task_node j \<in> set ys then None else tasks ?p j)\<rparr>)"
      using h(1) by simp
    also have "\<dots> = Some (p\<lparr>plinks := h,
        tasks := (\<lambda>j. if Task_node j \<in> set (L head) then None else tasks p j)\<rparr>)"
      by (auto simp: Cons n fun_eq_iff)
    finally show ?thesis
      using h(2) by blast
  qed
qed simp

lemma close_free_effect:
  assumes lists: "pool_lists p L" and fuel: "length (L Free_head) < fuel" "length (L Task_head) < fuel"
  obtains h where "close_free fuel p = Some (p\<lparr>plinks := h,
      tasks := (\<lambda>k. if Task_node k \<in> entries L then None else tasks p k)\<rparr>)"
    "lists_rel h pool_heads (L(Free_head := [], Task_head := []))"
proof -
  have r: "set (L Free_head) \<subseteq> range Task_node" "set (L Task_head) \<subseteq> range Task_node"
    using lists by (auto simp: pool_lists_def entries_def)
  obtain h1 where h1: "free_tasks fuel Free_head p = Some (p\<lparr>plinks := h1,
      tasks := (\<lambda>k. if Task_node k \<in> set (L Free_head) then None else tasks p k)\<rparr>)"
    "lists_rel h1 pool_heads (L(Free_head := []))"
    using free_tasks_effect [OF pool_listsD(1) [OF lists] pool_heads_simps(2) r(1) fuel(1)] by blast
  let ?p = "p\<lparr>plinks := h1, tasks := (\<lambda>k. if Task_node k \<in> set (L Free_head) then None else tasks p k)\<rparr>"
  have "lists_rel (plinks ?p) pool_heads (L(Free_head := []))"
    using h1(2) by simp
  from free_tasks_effect [OF this pool_heads_simps(1)] r(2) fuel(2)
  obtain h where h: "free_tasks fuel Task_head ?p = Some (?p\<lparr>plinks := h,
      tasks := (\<lambda>k. if Task_node k \<in> set (L Task_head) then None else tasks ?p k)\<rparr>)"
    "lists_rel h pool_heads (L(Free_head := [], Task_head := []))"
    by auto
  have "close_free fuel p = Some (p\<lparr>plinks := h,
      tasks := (\<lambda>k. if Task_node k \<in> entries L then None else tasks p k)\<rparr>)"
    unfolding close_free_def h1(1) bind.bind_lunit h(1) by (auto simp: entries_def fun_eq_iff)
  then show thesis
    using that h(2) by blast
qed

text \<open>More fuel does not change the result, so any fuel that gives one gives this one.\<close>

lemma free_tasks_more: "free_tasks fuel head p = Some p' \<Longrightarrow> fuel \<le> fuel' \<Longrightarrow> free_tasks fuel' head p = Some p'"
proof (induction fuel arbitrary: fuel' p)
  case (Suc fuel)
  then obtain m where m: "fuel' = Suc m" "fuel \<le> m"
    by (cases fuel') auto
  show ?case
    using Suc.prems(1) Suc.IH [OF _ m(2)] by (auto simp: m(1) split: if_splits paddr.splits)
qed simp

lemma close_free_more: "close_free fuel p = Some p' \<Longrightarrow> fuel \<le> fuel' \<Longrightarrow> close_free fuel' p = Some p'"
  unfolding close_free_def by (auto simp: bind_eq_Some_conv intro: free_tasks_more)

lemma close_free_result:
  assumes lists: "pool_lists p L" and "close_free fuel p = Some p'"
  obtains h where "p' = p\<lparr>plinks := h,
      tasks := (\<lambda>k. if Task_node k \<in> entries L then None else tasks p k)\<rparr>"
    "lists_rel h pool_heads (L(Free_head := [], Task_head := []))"
proof -
  define m where "m = fuel + length (L Free_head) + length (L Task_head) + 1"
  have "close_free m p = Some p'"
    by (rule close_free_more [OF assms(2)]) (simp add: m_def)
  moreover have "length (L Free_head) < m" "length (L Task_head) < m"
    by (simp_all add: m_def)
  from close_free_effect [OF lists this] obtain h where "close_free m p = Some (p\<lparr>plinks := h,
      tasks := (\<lambda>k. if Task_node k \<in> entries L then None else tasks p k)\<rparr>)"
    "lists_rel h pool_heads (L(Free_head := [], Task_head := []))" .
  ultimately show thesis
    by (intro that [of h]) simp_all
qed

lemma inv_close_end:
  assumes inv: "inv_on c L" and i: "thr c i = Some Close_join" and off: "shutdown (pool c) \<noteq> 0"
    and free: "close_free fuel (pool c) = Some p"
  obtains L' where "inv_on (c\<lparr>pool := p, thr := (thr c)(i \<mapsto> Close_done)\<rparr>) L'"
    "entries L' = {}" "L' Pid_head = L Pid_head"
proof -
  note lists = inv_onD(1) [OF inv]
  obtain h where p: "p = (pool c)\<lparr>plinks := h,
      tasks := (\<lambda>k. if Task_node k \<in> entries L then None else tasks (pool c) k)\<rparr>"
    "lists_rel h pool_heads (L(Free_head := [], Task_head := []))"
    using close_free_result [OF lists free] .
  let ?L = "L(Free_head := [], Task_head := [])"
  have e: "entries ?L = {}"
    by (simp add: entries_def)
  have "pool_lists p ?L"
    using lists p off by (simp add: pool_lists_def e)
  moreover have "entries_ok p ?L (runs (thr c))"
  proof (rule entries_okI)
    show "tasks p k \<noteq> None \<and> Task_node k \<notin> entries ?L" if "k \<in> snd ` runs (thr c)" for k
      using entries_okD(1) [OF inv_onD(2) [OF inv] that] by (simp add: p e)
    show "Task_node k \<in> entries ?L \<or> k \<in> snd ` runs (thr c)" if "tasks p k \<noteq> None" for k
      using entries_okD(3) [OF inv_onD(2) [OF inv], of k] that by (auto simp: p split: if_splits)
  qed (rule entries_okD(2) [OF inv_onD(2) [OF inv]])
  moreover have "threads_ok p ?L (lives (thr c)) (joins (thr c))"
    using inv_onD(3) [OF inv] by (simp add: threads_ok_def p)
  moreover have "jobs_ok (c\<lparr>pool := p, thr := (thr c)(i \<mapsto> Close_done)\<rparr>) ?L"
    using inv_onD(4) [OF inv] off by (simp add: jobs_ok_def p)
  moreover have "same_view (thr c) ((thr c)(i \<mapsto> Close_done))"
    by (rule same_viewI [where ts = "thr c", OF i]) simp_all
  ultimately show thesis
    using e by (intro that [of ?L]) (simp_all add: inv_on_def same_view_def)
qed

section \<open>Every step preserves the invariant\<close>

lemmas step_cases [consumes 1, case_names call_add call_close call_set_max spurious add_refused
  add_blocked add_queued add_no_memory activity work_wait work_leave work_take work_done join_next
  joined close_end] = any_step

text \<open>A closer at work has set the flag, which nothing resets.\<close>

fun closing :: "thread \<Rightarrow> bool" where
  "closing Close_join = True"
| "closing (Close_wait k) = True"
| "closing Close_done = True"
| "closing w = False"

definition any_closing :: "(nat \<rightharpoonup> thread) \<Rightarrow> bool" where
  "any_closing ts \<longleftrightarrow> (\<exists>i w. ts i = Some w \<and> closing w)"

definition closers_ok :: "config \<Rightarrow> bool" where
  "closers_ok c \<longleftrightarrow> (any_closing (thr c) \<longrightarrow> shutdown (pool c) \<noteq> 0)"

definition pool_inv :: "config \<Rightarrow> bool" where
  "pool_inv c \<longleftrightarrow> (\<exists>L. inv_on c L) \<and> closers_ok c"

lemma closing_wake [simp]: "closing (wake w) = closing w"
  by (cases w) simp_all

lemma closing_upd: "any_closing (ts(i \<mapsto> w)) \<Longrightarrow> \<not> closing w \<Longrightarrow> any_closing ts"
  by (auto simp: any_closing_def split: if_splits)

lemma any_closingI: "ts i = Some w \<Longrightarrow> closing w \<Longrightarrow> any_closing ts"
  by (auto simp: any_closing_def)

lemma closing_woken: "ts i = Some w \<Longrightarrow> any_closing (ts(i \<mapsto> wake w)) \<Longrightarrow> any_closing ts"
  by (cases "closing w") (auto dest: closing_upd any_closingI)

lemma closing_signal: "cond_signal ts ts' \<Longrightarrow> any_closing ts' \<Longrightarrow> any_closing ts"
  by (auto elim!: cond_signal.cases dest: closing_woken)

lemma free_tasks_shutdown: "free_tasks fuel head p = Some p' \<Longrightarrow> shutdown p' = shutdown p"
  by (induction fuel arbitrary: p) (auto split: if_splits paddr.splits)

lemma shutdown_simps [simp]:
  "shutdown (close_begin p) = 1"
  "shutdown (worker_leave p) = shutdown p"
  "shutdown (worker_recycle k p) = shutdown p"
  "shutdown (snd (uc_threadpool_set_task_max m p)) = shutdown p"
  by (simp_all add: close_begin_def worker_leave_def worker_recycle_def uc_threadpool_set_task_max_def)

lemma shutdown_kept:
  "add_enqueue addr j first p = (r, p') \<Longrightarrow> shutdown p' = shutdown p"
  "uc_threadpool_activty_try_do s p = (r, p', new) \<Longrightarrow> shutdown p' = shutdown p"
  "worker_take p = (n, p') \<Longrightarrow> shutdown p' = shutdown p"
  "close_next p = Some (n, p') \<Longrightarrow> shutdown p' = shutdown p"
  "close_free fuel p = Some p' \<Longrightarrow> shutdown p' = shutdown p"
  by (auto simp: add_enqueue_def take_entry_def uc_threadpool_activty_try_do_def worker_take_def Let_def
      close_next_def close_free_def bind_eq_Some_conv
      split: option.splits if_splits paddr.splits prod.splits dest!: free_tasks_shutdown)

lemma pool_step_closers:
  assumes "pool_step c l c'" "closers_ok c"
  shows "closers_ok c'"
  using assms(1)
proof (cases rule: step_cases)
  case (activity i s r p new)
  then show ?thesis
    using assms(2) shutdown_kept(2) [OF activity(6)]
    by (cases new) (auto simp: closers_ok_def dest!: closing_upd)
next
  case (call_set_max ts m)
  then show ?thesis
    using assms(2) by (auto simp: closers_ok_def dest: closing_signal)
next
  case (add_queued i j first addr p ts)
  then show ?thesis
    using assms(2) shutdown_kept(1) [OF add_queued(6)]
    by (auto simp: closers_ok_def dest!: closing_signal closing_upd)
next
  case (work_take i k p ts)
  then show ?thesis
    using assms(2) shutdown_kept(3) [OF work_take(7)]
    by (auto simp: closers_ok_def dest!: closing_signal closing_upd)
next
  case (spurious i w)
  then show ?thesis
    using assms(2) by (auto simp: closers_ok_def dest: closing_woken)
next
  case (joined i k w)
  then show ?thesis
    using assms(2) any_closingI [of "thr c" i] by (simp add: closers_ok_def)
next
  case (join_next i k p)
  then show ?thesis
    using assms(2) shutdown_kept(4) [OF join_next(5)] any_closingI [of "thr c" i] by (simp add: closers_ok_def)
next
  case (close_end i fuel p)
  then show ?thesis
    using assms(2) shutdown_kept(5) [OF close_end(6)] any_closingI [of "thr c" i] by (simp add: closers_ok_def)
next
  case (add_no_memory i j first addr r p)
  then show ?thesis
    using assms(2) shutdown_kept(1) [OF add_no_memory(6)] by (auto simp: closers_ok_def dest!: closing_upd)
qed (use assms(2) in \<open>auto simp: closers_ok_def dest!: closing_upd\<close>)

lemma inv_swap:
  "inv_on c L \<Longrightarrow> thr c i = Some v \<Longrightarrow> plain v \<Longrightarrow> plain w \<Longrightarrow> live w = live v \<Longrightarrow>
   \<exists>L'. inv_on (c\<lparr>thr := (thr c)(i \<mapsto> w)\<rparr>) L'"
  using inv_view same_viewI [where ts = "thr c"] by blast

lemma pool_step_inv_on:
  assumes "pool_step c l c'" "inv_on c L" "closers_ok c"
  shows "\<exists>L'. inv_on c' L'"
  using assms(1)
proof (cases rule: step_cases)
  case (call_add i j first)
  then show ?thesis
    using inv_view [OF assms(2) same_view_new [where ts = "thr c"], of i "Add_start j first"] by auto
next
  case (call_close i)
  then show ?thesis
    using inv_call_close [OF assms(2)] by blast
next
  case (call_set_max ts m)
  then show ?thesis
    using inv_pool_flags(1) [OF assms(2) view_signal] by (auto simp: uc_threadpool_set_task_max_def)
next
  case (spurious i w)
  then show ?thesis
    using inv_view [OF assms(2) view_wake] by blast
next
  case (add_refused i j first)
  then show ?thesis
    using inv_swap [OF assms(2) add_refused(3)] by simp
next
  case (add_blocked i j first)
  then show ?thesis
    using inv_swap [OF assms(2), of i _ "Add_wait j first"] by (auto simp: may_add_def)
next
  case (add_queued i j first addr p ts)
  have "same_view (thr c) ((thr c)(i \<mapsto> Add_activity))"
    using add_queued(3) by (auto simp: may_add_def intro: same_viewI)
  then have "same_view (thr c) ts"
    using view_signal [OF add_queued(7)] by (simp add: same_view_def)
  from inv_enqueue [OF assms(2) add_queued(5,6) this] show ?thesis
    using add_queued(2) by blast
next
  case (add_no_memory i j first addr r p)
  have "same_view (thr c) ((thr c)(i \<mapsto> Add_done r))"
    using add_no_memory(3) by (auto simp: may_add_def intro: same_viewI)
  from inv_no_memory [OF assms(2) add_no_memory(5-7) this] show ?thesis
    using add_no_memory(2) by blast
next
  case (activity i s r p new)
  from inv_activity [OF assms(2) activity(3,5,6)] show ?thesis
    using activity(2) by blast
next
  case (work_wait i)
  then show ?thesis
    using inv_swap [OF assms(2) work_wait(3)] by simp
next
  case (work_leave i)
  then show ?thesis
    using inv_work_leave [OF assms(2)] by blast
next
  case (work_take i k p ts)
  from inv_take [OF assms(2) work_take(3,5-8)] show ?thesis
    using work_take(2) by metis
next
  case (work_done i k)
  then show ?thesis
    using inv_recycle [OF assms(2)] by blast
next
  case (join_next i k p)
  from inv_join_next [OF assms(2) join_next(3,5)] show ?thesis
    using join_next(2) by blast
next
  case (joined i k w)
  then show ?thesis
    using inv_joined [OF assms(2)] by blast
next
  case (close_end i fuel p)
  have "shutdown (pool c) \<noteq> 0"
    using assms(3) any_closingI [where ts = "thr c", OF close_end(3)] by (simp add: closers_ok_def)
  from inv_close_end [OF assms(2) close_end(3) this close_end(6)] show ?thesis
    using close_end(2) by metis
qed

lemma pool_step_inv: "pool_step c l c' \<Longrightarrow> pool_inv c \<Longrightarrow> pool_inv c'"
  using pool_step_inv_on pool_step_closers unfolding pool_inv_def by blast

lemma pool_run_inv: "pool_run c c' \<Longrightarrow> pool_inv c \<Longrightarrow> pool_inv c'"
  by (induction rule: pool_run.induct) (auto intro: pool_step_inv)

end
