(* ===== verification/Pool_Service.thy ===== *)
theory Pool_Service
  imports Pool_Inv
begin

text \<open>
  The thread pool from \<open>uc_threadpool_create\<close> on: the new pool satisfies the invariant, so every
  run of callers and workers does, and the guarantees of the pool follow. Two runs that get stuck
  show where the pool falls short of them.
\<close>

section \<open>A new pool\<close>

definition spawn_entries :: "spawn list \<Rightarrow> nat list" where
  "spawn_entries ss = List.map_filter fst ss"

definition spawn_pids :: "spawn list \<Rightarrow> nat list" where
  "spawn_pids ss = map (snd \<circ> snd) ss"

lemma spawn_simps [simp]:
  "spawn_entries [] = []" "spawn_entries ((None, ret, pid) # ss) = spawn_entries ss"
  "spawn_entries ((Some k, ret, pid) # ss) = k # spawn_entries ss"
  "spawn_pids [] = []" "spawn_pids ((e, ret, pid) # ss) = pid # spawn_pids ss"
  by (simp_all add: spawn_entries_def spawn_pids_def List.map_filter_simps)

text \<open>The pool with the threads it has started, each about to take the lock.\<close>

definition start_config :: "threadpool \<Rightarrow> nat \<Rightarrow> spawn list \<Rightarrow> config" where
  "start_config p n ss = \<lparr>pool = p,
     thr = map_of (map (\<lambda>(k, pid). (pid, Worker_top)) (started n ss)),
     accepted = [], taken = [], jumped = False\<rparr>"

lemma start_threads_inv:
  assumes "pool_lists p L" "threads_ok p L V {}"
    and "distinct (spawn_entries ss)" "\<And>k. k \<in> set (spawn_entries ss) \<Longrightarrow> pids p k = None"
    and "distinct (spawn_pids ss)" "set (spawn_pids ss) \<inter> V = {}"
    and "thread_alive p + int n \<le> thread_max p"
  shows "\<exists>L'. pool_lists (start_threads n ss p) L' \<and>
    threads_ok (start_threads n ss p) L' (V \<union> snd ` set (started n ss)) {} \<and>
    entries L' = entries L \<and> L' Task_head = L Task_head \<and>
    tasks (start_threads n ss p) = tasks p \<and> shutdown (start_threads n ss p) = shutdown p \<and>
    thread_max (start_threads n ss p) = thread_max p \<and>
    locked_forever (start_threads n ss p) = locked_forever p"
  using assms
proof (induction n ss p arbitrary: L V rule: start_threads.induct)
  case (3 n entry ret pid ss p)
  show ?case
  proof (cases entry)
    case None
    then show ?thesis
      using "3.prems"(1,2) by auto
  next
    case (Some k)
    have k: "pids p k = None" "pid \<notin> V"
      using "3.prems"(4,6) Some by auto
    show ?thesis
    proof (cases "ret = 0")
      case False
      have "pool_lists (p\<lparr>pids := (pids p)(k \<mapsto> pid)\<rparr>) L"
        using "3.prems"(1) by (auto simp: pool_lists_def)
      then show ?thesis
        using threads_ok_pid [OF "3.prems"(2) k(1)] False Some by auto
    next
      case True
      let ?p = "p\<lparr>pids := (pids p)(k \<mapsto> pid), thread_alive := thread_alive p + 1,
        plinks := list_add_tail (Pid_node k) Pid_head (plinks p)\<rparr>"
      let ?L = "L(Pid_head := L Pid_head @ [Pid_node k])"
      have "Pid_node k \<notin> set (L Pid_head)"
        using pool_listsD(5) [OF "3.prems"(1), of k] k by blast
      note rel = lists_rel_list_add_tail [OF pool_listsD(1) [OF "3.prems"(1)]
          pool_heads_simps(3) unlinked_pid [OF "3.prems"(1) this]]
      then have "pool_lists ?p ?L"
        using "3.prems"(1) by (auto simp: pool_lists_def entries_def)
      moreover have "threads_ok ?p ?L (insert pid V) {}"
        using threads_ok_spawn [OF "3.prems"(2) k, of ?p] "3.prems"(7) by simp
      moreover have "pids ?p j = None" if "j \<in> set (spawn_entries ss)" for j
        using that "3.prems"(3,4) Some by auto
      ultimately have "\<exists>L'. pool_lists (start_threads n ss ?p) L' \<and>
          threads_ok (start_threads n ss ?p) L' (insert pid V \<union> snd ` set (started n ss)) {} \<and>
          entries L' = entries ?L \<and> L' Task_head = ?L Task_head \<and>
          tasks (start_threads n ss ?p) = tasks ?p \<and> shutdown (start_threads n ss ?p) = shutdown ?p \<and>
          thread_max (start_threads n ss ?p) = thread_max ?p \<and>
          locked_forever (start_threads n ss ?p) = locked_forever ?p"
        using True "3.prems"(3,5-7) Some
        by (intro "3.IH" [OF Some, where L = "?L" and V = "insert pid V"]) (simp_all add: fun_upd_def)
      moreover have "entries ?L = entries L"
        by (simp add: entries_def)
      ultimately show ?thesis
        using True Some by simp
    qed
  qed
qed auto

lemma empty_lists_rel: "lists_rel empty_lists pool_heads (\<lambda>a. [])"
  by (auto simp: lists_rel_def pool_heads_def empty_lists_def dlist_def list_init_def)

text \<open>What the callers of \<open>create\<close> rely on: distinct addresses from \<open>malloc\<close>, distinct thread ids.\<close>

definition fresh_spawns :: "spawn list \<Rightarrow> bool" where
  "fresh_spawns ss \<longleftrightarrow> distinct (spawn_entries ss) \<and> distinct (spawn_pids ss)"

lemma create_inv:
  assumes "uc_threadpool_create True True True lo hi ss = Some (Some p)" "hi < 2 ^ 31" "fresh_spawns ss"
  shows "pool_inv (start_config p lo ss)"
    and "thread_max p = int hi" "shutdown p = 0" "\<not> locked_forever p"
proof -
  let ?p = "\<lparr>plinks = empty_lists, tasks = Map.empty, pids = Map.empty, list_task_ttl = 0,
         list_task_max = 0, thread_min = wrap_s32 (int lo),
         thread_max = wrap_s32 (int hi), thread_alive = 0, shutdown = 0,
         locked_forever = False\<rparr>"
  have p: "p = start_threads lo ss ?p" and m: "0 < hi" "lo \<le> hi"
    using assms(1) by (auto simp: uc_threadpool_create_def split: if_splits)
  have w: "wrap_s32 (int hi) = int hi" "wrap_s32 (int lo) = int lo"
    using assms(2) m by simp_all
  have "pool_lists ?p (\<lambda>a. [])"
    using empty_lists_rel by (simp add: pool_lists_def entries_def)
  moreover have "threads_ok ?p (\<lambda>a. []) {} {}"
    by (rule threads_okI) (simp_all add: w)
  ultimately obtain L where L: "pool_lists p L" "threads_ok p L (snd ` set (started lo ss)) {}"
    "entries L = {}" "L Task_head = []" "tasks p = Map.empty" "shutdown p = 0" "thread_max p = int hi"
    "\<not> locked_forever p"
    using start_threads_inv [of ?p "\<lambda>a. []" "{}" ss lo] assms(3) m
    by (auto simp: p fresh_spawns_def w entries_def)
  let ?ts = "map_of (map (\<lambda>(k, pid). (pid, Worker_top)) (started lo ss))"
  have "map_of (map (\<lambda>(k, pid). (pid, Worker_top)) xs) i = Some w \<longleftrightarrow>
      i \<in> snd ` set xs \<and> w = Worker_top" for xs :: "(nat \<times> nat) list" and i w
    by (induction xs) (auto split: prod.splits)
  note top = this [of "started lo ss"]
  have "lives ?ts = snd ` set (started lo ss)" "runs ?ts = {}" "joins ?ts = {}" "\<not> any_closing ?ts"
    by (auto simp: lives_def runs_def joins_def any_closing_def top)
  then have "inv_on (start_config p lo ss) L" "closers_ok (start_config p lo ss)"
    using L by (simp_all add: inv_on_def start_config_def entries_ok_def jobs_ok_def queued_def closers_ok_def)
  then show "pool_inv (start_config p lo ss)"
    by (auto simp: pool_inv_def)
  show "thread_max p = int hi" "shutdown p = 0" "\<not> locked_forever p"
    using L by simp_all
qed

text \<open>The states a created pool can get into.\<close>

definition pool_reach :: "nat \<Rightarrow> nat \<Rightarrow> spawn list \<Rightarrow> config \<Rightarrow> bool" where
  "pool_reach lo hi ss c \<longleftrightarrow> hi < 2 ^ 31 \<and> fresh_spawns ss \<and>
     (\<exists>p. uc_threadpool_create True True True lo hi ss = Some (Some p) \<and>
        pool_run (start_config p lo ss) c)"

lemma pool_reach_inv: "pool_reach lo hi ss c \<Longrightarrow> pool_inv c"
  unfolding pool_reach_def using create_inv(1) pool_run_inv by blast

section \<open>A run with two workers and a short queue\<close>

text \<open>
  Both workers wait; the queue is limited to one task; caller 10 adds a task, which wakes worker 1;
  caller 11 finds the queue full and waits; worker 1 takes the task, and its signal goes to
  worker 2 instead of caller 11. Worker 2 finds nothing and waits again, and so does worker 1 once
  its task is done.
\<close>

definition demo_spawns :: "spawn list" where
  "demo_spawns = [(Some 0, 0, 1), (Some 1, 0, 2)]"

definition demo_job :: "nat \<Rightarrow> job" where
  "demo_job n = (Some 7, Some n)"

definition demo_pool :: threadpool where
  "demo_pool = start_threads 2 demo_spawns
     \<lparr>plinks = empty_lists, tasks = Map.empty, pids = Map.empty, list_task_ttl = 0,
      list_task_max = 0, thread_min = 2, thread_max = 2, thread_alive = 0, shutdown = 0,
      locked_forever = False\<rparr>"

definition "demo0 = start_config demo_pool 2 demo_spawns"
definition "demo1 = demo0\<lparr>thr := (thr demo0)(1 \<mapsto> Worker_wait, 2 \<mapsto> Worker_wait)\<rparr>"
definition "demo2 = demo1\<lparr>pool := snd (uc_threadpool_set_task_max 1 (pool demo1)),
  thr := (thr demo1)(1 \<mapsto> Worker_top)\<rparr>"
definition "demo3 = demo2\<lparr>thr := (thr demo2)(1 \<mapsto> Worker_wait, 10 \<mapsto> Add_start (demo_job 0) False)\<rparr>"
definition "demo4 = demo3\<lparr>pool := snd (add_enqueue (Some 0) (demo_job 0) False (pool demo3)),
  thr := (thr demo3)(10 \<mapsto> Add_activity, 1 \<mapsto> Worker_top), accepted := [demo_job 0]\<rparr>"
definition "demo5 = demo4\<lparr>thr := (thr demo4)(10 \<mapsto> Add_done 0, 11 \<mapsto> Add_wait (demo_job 1) False)\<rparr>"
definition "demo6 = demo5\<lparr>pool := snd (worker_take (pool demo5)),
  thr := (thr demo5)(1 \<mapsto> Worker_run 0, 2 \<mapsto> Worker_top), taken := [demo_job 0]\<rparr>"
definition "demo7 = demo6\<lparr>pool := worker_recycle 0 (pool demo6),
  thr := (thr demo6)(2 \<mapsto> Worker_wait, 1 \<mapsto> Worker_wait)\<rparr>"

lemmas demo_defs = demo0_def demo1_def demo2_def demo3_def demo4_def demo5_def demo6_def demo7_def
  demo_pool_def start_config_def demo_spawns_def

lemmas link_defs = list_empty_def list_add_tail_def list_add_raw_def list_add_def list_del_def
  list_del_raw_def empty_lists_def list_init_def

lemma demo_thr:
  "thr demo0 = [2 \<mapsto> Worker_top, 1 \<mapsto> Worker_top]"
  "thr demo7 = [1 \<mapsto> Worker_wait, 2 \<mapsto> Worker_wait, 10 \<mapsto> Add_done 0, 11 \<mapsto> Add_wait (demo_job 1) False]"
  by (auto simp: demo_defs numeral_2_eq_2 fun_eq_iff)

lemma two_moves: "pool_run c d \<Longrightarrow> pool_step d l e \<Longrightarrow> pool_step e l' f \<Longrightarrow> pool_run c f"
  by (meson pool_run.move)

lemma demo_pools:
  "shutdown (pool demo0) = 0" "\<not> locked_forever (pool demo0)" "list_empty Task_head (plinks (pool demo0))"
  "thread_max (pool demo0) = 2" "thread_alive (pool demo0) = 2" "list_task_ttl (pool demo0) = 0"
  "list_task_max (pool demo0) = 0" "tasks (pool demo0) = Map.empty"
  "lnext (plinks (pool demo0)) Free_head = Free_head" "lprev (plinks (pool demo0)) Free_head = Free_head"
  "lprev (plinks (pool demo0)) Task_head = Task_head"
  by (simp_all add: demo_defs numeral_2_eq_2 link_defs)

lemma demo_pools2:
  "pool demo1 = pool demo0" "pool demo2 = (pool demo0)\<lparr>list_task_max := 1\<rparr>" "pool demo3 = pool demo2"
  by (simp_all add: demo1_def demo2_def demo3_def uc_threadpool_set_task_max_def)

lemma demo_pools4:
  "pool demo4 = (pool demo0)\<lparr>list_task_max := 1, tasks := [0 \<mapsto> \<lparr>tk_fun = Some 7, tk_arg = Some 0\<rparr>],
     plinks := list_add_tail (Task_node 0) Task_head (plinks (pool demo0)), list_task_ttl := 1\<rparr>"
  "fst (add_enqueue (Some 0) (demo_job 0) False (pool demo3)) = 0"
  "pool demo5 = pool demo4"
  using demo_pools
  by (simp_all add: demo4_def demo5_def demo_pools2 add_enqueue_def take_entry_def list_empty_def demo_job_def)

lemma demo_first: "lnext (plinks (pool demo4)) Task_head = Task_node 0"
  using demo_pools by (simp add: demo_pools4 list_add_tail_def list_add_raw_def list_empty_def)

lemma demo_pools6:
  "pool demo6 = (pool demo4)\<lparr>plinks := list_del (Task_node 0) (plinks (pool demo4)), list_task_ttl := 0\<rparr>"
  "worker_take (pool demo5) = (Task_node 0, pool demo6)"
  "list_empty Task_head (plinks (pool demo6))"
  using demo_pools demo_first
  by (simp_all add: demo6_def worker_take_def demo_pools4 Let_def list_empty_def list_add_tail_def
      list_add_raw_def list_del_def list_del_raw_def)

lemma demo_pools7: "list_empty Task_head (plinks (pool demo7))" "list_task_ttl (pool demo7) = 0"
  "shutdown (pool demo7) = 0" "list_task_max (pool demo7) = 1" "\<not> locked_forever (pool demo7)"
  using demo_pools6(3) demo_pools
  by (simp_all add: demo7_def worker_recycle_def link_defs demo_pools6(1) demo_pools4)

lemma demo_run1: "pool_run demo0 demo1"
proof -
  let ?c = "demo0\<lparr>thr := (thr demo0)(1 \<mapsto> Worker_wait)\<rparr>"
  have "pool_step demo0 Own ?c"
    by (rule work_wait) (simp_all add: demo_thr demo_pools worker_waits_def)
  moreover have "pool_step ?c Own (?c\<lparr>thr := (thr ?c)(2 \<mapsto> Worker_wait)\<rparr>)"
    by (rule work_wait) (simp_all add: demo_thr demo_pools worker_waits_def)
  ultimately show ?thesis
    using two_moves [OF pool_run.stay] by (simp add: demo1_def)
qed

lemma demo_run3: "pool_run demo0 demo3"
proof -
  let ?c = "demo2\<lparr>thr := (thr demo2)(1 \<mapsto> Worker_wait)\<rparr>"
  have t: "thr demo1 = (thr demo0)(1 \<mapsto> Worker_wait, 2 \<mapsto> Worker_wait)" "thr demo2 = (thr demo1)(1 \<mapsto> Worker_top)"
    by (simp_all add: demo1_def demo2_def)
  have "cond_signal (thr demo1) ((thr demo1)(1 \<mapsto> wake Worker_wait))"
    by (rule cond_signal.somebody) (simp_all add: t)
  then have "pool_step demo1 Call demo2"
    unfolding demo2_def by (intro call_set_max) (simp_all add: demo_pools demo_pools2)
  moreover have "pool_step demo2 Own ?c"
    by (rule work_wait) (simp_all add: t demo_pools demo_pools2 worker_waits_def)
  moreover have "pool_step ?c Call (?c\<lparr>thr := (thr ?c)(10 \<mapsto> Add_start (demo_job 0) False)\<rparr>)"
    by (rule call_add) (simp add: t demo_thr)
  ultimately show ?thesis
    using two_moves [OF pool_run.move [OF demo_run1]] by (simp add: demo3_def)
qed

lemma demo_thr3:
  "thr demo3 = [1 \<mapsto> Worker_wait, 2 \<mapsto> Worker_wait, 10 \<mapsto> Add_start (demo_job 0) False]"
  "accepted demo3 = []" "taken demo3 = []" "jumped demo3 = False"
  by (auto simp: demo3_def demo2_def demo1_def demo_thr fun_eq_iff)
    (simp_all add: demo0_def start_config_def)

lemma demo_step4: "pool_step demo3 Own demo4"
proof -
  have "cond_signal ((thr demo3)(10 \<mapsto> Add_activity)) ((thr demo3)(10 \<mapsto> Add_activity, 1 \<mapsto> wake Worker_wait))"
    by (rule cond_signal.somebody) (simp_all add: demo_thr3)
  moreover have "add_enqueue (Some 0) (demo_job 0) False (pool demo3) = (0, pool demo4)"
    using demo_pools4(2) by (simp add: demo4_def prod_eq_iff)
  ultimately have "pool_step demo3 Own (demo3\<lparr>pool := pool demo4,
      thr := (thr demo3)(10 \<mapsto> Add_activity, 1 \<mapsto> Worker_top), accepted := accepted demo3 @ [demo_job 0],
      jumped := jumped demo3 \<or> False\<rparr>)"
    by (intro add_queued [where i = 10 and first = False and addr = "Some 0"])
      (simp_all add: may_add_def demo_thr3 demo_pools2 demo_pools add_waits_def fresh_entry_def)
  moreover have "demo3\<lparr>pool := pool demo4,
      thr := (thr demo3)(10 \<mapsto> Add_activity, 1 \<mapsto> Worker_top), accepted := accepted demo3 @ [demo_job 0],
      jumped := jumped demo3 \<or> False\<rparr> = demo4"
    by (simp add: demo4_def demo_thr3)
  ultimately show ?thesis
    by simp
qed

lemma demo_run5: "pool_run demo0 demo5"
proof -
  let ?c = "demo4\<lparr>thr := (thr demo4)(10 \<mapsto> Add_done 0)\<rparr>"
  let ?d = "?c\<lparr>thr := (thr ?c)(11 \<mapsto> Add_start (demo_job 1) False)\<rparr>"
  have t: "thr demo4 = [1 \<mapsto> Worker_top, 2 \<mapsto> Worker_wait, 10 \<mapsto> Add_activity]"
    by (auto simp: demo4_def demo_thr3)
  have "uc_threadpool_activty_try_do (None, 0, 3) (pool demo4) = (0, pool demo4, None)"
    by (simp add: uc_threadpool_activty_try_do_def demo_pools4 demo_pools)
  then have "pool_step demo4 Own (demo4\<lparr>pool := pool demo4, thr := (case None of
      None \<Rightarrow> (thr demo4)(10 \<mapsto> Add_done 0)
    | Some w \<Rightarrow> (thr demo4)(10 \<mapsto> Add_done 0, w \<mapsto> Worker_top))\<rparr>)"
    by (intro activity [where s = "(None, 0, 3)" and r = 0])
      (simp_all add: t demo_pools4 demo_pools fresh_spawn_def)
  then have "pool_step demo4 Own ?c"
    by simp
  moreover have "pool_step ?c Call ?d"
    by (rule call_add) (simp add: t)
  moreover have "pool_step ?d Own (?d\<lparr>thr := (thr ?d)(11 \<mapsto> Add_wait (demo_job 1) False)\<rparr>)"
    by (rule add_blocked)
      (simp_all add: may_add_def add_waits_def demo_pools4(1) demo_pools demo_pools2)
  ultimately show ?thesis
    using two_moves [OF pool_run.move [OF pool_run.move [OF demo_run3 demo_step4]]]
    by (simp add: demo5_def)
qed

lemma demo_step6: "pool_step demo5 Own demo6"
proof -
  have t: "thr demo5 = [1 \<mapsto> Worker_top, 2 \<mapsto> Worker_wait, 10 \<mapsto> Add_done 0, 11 \<mapsto> Add_wait (demo_job 1) False]"
    by (auto simp: demo5_def demo4_def demo_thr3)
  have j: "node_job (pool demo5) (Task_node 0) = demo_job 0" "taken demo5 = []"
    by (simp_all add: node_job_def demo_pools4 demo_job_def)
      (simp add: demo5_def demo4_def demo_thr3)
  have "\<not> list_empty Task_head (plinks (pool demo5))"
    using demo_first by (simp add: list_empty_def demo_pools4(3))
  moreover have "cond_signal ((thr demo5)(1 \<mapsto> Worker_run 0)) ((thr demo5)(1 \<mapsto> Worker_run 0, 2 \<mapsto> wake Worker_wait))"
    by (rule cond_signal.somebody) (simp_all add: t)
  ultimately have "pool_step demo5 Own (demo5\<lparr>pool := pool demo6,
      thr := (thr demo5)(1 \<mapsto> Worker_run 0, 2 \<mapsto> Worker_top),
      taken := taken demo5 @ [node_job (pool demo5) (Task_node 0)]\<rparr>)"
    by (intro work_take [where i = 1, OF _ _ _ _ demo_pools6(2)])
      (simp_all add: t worker_waits_def demo_pools4(1,3) demo_pools)
  then show ?thesis
    by (simp add: demo6_def j)
qed

lemma demo_run7: "pool_run demo0 demo7"
proof -
  let ?c = "demo6\<lparr>thr := (thr demo6)(2 \<mapsto> Worker_wait)\<rparr>"
  let ?d = "?c\<lparr>pool := worker_recycle 0 (pool ?c), thr := (thr ?c)(1 \<mapsto> Worker_top)\<rparr>"
  have t: "thr demo6 1 = Some (Worker_run 0)" "thr demo6 2 = Some Worker_top"
    by (simp_all add: demo6_def)
  have p: "shutdown (pool demo6) = 0" "\<not> locked_forever (pool demo6)"
    by (simp_all add: demo_pools6(1) demo_pools4(1) demo_pools)
  have "pool_step demo6 Own ?c"
    by (rule work_wait) (simp_all add: t p worker_waits_def demo_pools6(3))
  moreover have "pool_step ?c Own ?d"
    by (rule work_done) (simp_all add: t p del: One_nat_def)
  moreover have "pool_step ?d Own (?d\<lparr>thr := (thr ?d)(1 \<mapsto> Worker_wait)\<rparr>)"
    using demo_pools7 by (intro work_wait) (simp_all add: worker_waits_def demo7_def)
  ultimately show ?thesis
    using two_moves [OF pool_run.move [OF pool_run.move [OF demo_run5 demo_step6]]]
    by (simp add: demo7_def)
qed

lemma demo_reach: "pool_run demo0 c \<Longrightarrow> pool_reach 2 2 demo_spawns c"
  unfolding pool_reach_def demo0_def
  by (intro conjI exI [of _ demo_pool])
    (simp_all add: fresh_spawns_def demo_spawns_def uc_threadpool_create_def demo_pool_def)

text \<open>A run that closes the pool: the workers leave and are joined in turn.\<close>

definition "shut1 = demo0\<lparr>pool := close_begin (pool demo0), thr := (thr demo0)(20 \<mapsto> Close_join)\<rparr>"
definition "shut2 = shut1\<lparr>pool := worker_leave (worker_leave (pool shut1)),
  thr := (thr shut1)(1 \<mapsto> Worker_gone, 2 \<mapsto> Worker_gone)\<rparr>"
definition "shut3 = shut2\<lparr>pool := (pool shut2)\<lparr>plinks := list_del (Pid_node 0) (plinks (pool shut2)),
  pids := (pids (pool shut2))(0 := None)\<rparr>\<rparr>"
definition "shut4 = shut3\<lparr>pool := (pool shut3)\<lparr>plinks := list_del (Pid_node 1) (plinks (pool shut3)),
  pids := (pids (pool shut3))(1 := None)\<rparr>\<rparr>"

lemma shut_thr:
  "thr shut1 = [2 \<mapsto> Worker_top, 1 \<mapsto> Worker_top, 20 \<mapsto> Close_join]"
  "thr shut2 = [2 \<mapsto> Worker_gone, 1 \<mapsto> Worker_gone, 20 \<mapsto> Close_join]"
  "thr shut3 = thr shut2" "thr shut4 = thr shut2"
  by (auto simp: shut1_def shut2_def shut3_def shut4_def demo_thr fun_eq_iff)

lemma shut_pools:
  "lnext (plinks (pool demo0)) Pid_head = Pid_node 0" "lnext (plinks (pool demo0)) (Pid_node 0) = Pid_node 1"
  "lnext (plinks (pool demo0)) (Pid_node 1) = Pid_head" "lprev (plinks (pool demo0)) (Pid_node 0) = Pid_head"
  "lprev (plinks (pool demo0)) (Pid_node 1) = Pid_node 0" "pids (pool demo0) = [0 \<mapsto> 1, 1 \<mapsto> 2]"
  by (auto simp: demo_defs numeral_2_eq_2 link_defs)

lemma shut_run1: "pool_run demo0 shut1"
proof -
  have "cond_broadcast (thr demo0) = thr demo0"
    by (auto simp: cond_broadcast_def demo_thr fun_eq_iff)
  then have "pool_step demo0 Call shut1"
    using call_close [of demo0 20] by (simp add: shut1_def demo_thr demo_pools)
  then show ?thesis
    using pool_run.move [OF pool_run.stay] by blast
qed

lemma shut_run2: "pool_run demo0 shut2"
proof -
  let ?c = "shut1\<lparr>pool := worker_leave (pool shut1), thr := (thr shut1)(1 \<mapsto> Worker_gone)\<rparr>"
  have p: "shutdown (pool shut1) = 1" "\<not> locked_forever (pool shut1)"
    by (simp_all add: shut1_def close_begin_def demo_pools)
  have "pool_step shut1 Own ?c"
    by (rule work_leave) (simp_all add: shut_thr p)
  moreover have "pool_step ?c Own (?c\<lparr>pool := worker_leave (pool ?c), thr := (thr ?c)(2 \<mapsto> Worker_gone)\<rparr>)"
    by (rule work_leave) (simp_all add: shut_thr p worker_leave_def)
  ultimately show ?thesis
    using two_moves [OF shut_run1] by (simp add: shut2_def)
qed

lemma shut_join:
  assumes "thr c 20 = Some Close_join" "\<not> locked_forever (pool c)"
    and "lnext (plinks (pool c)) Pid_head = Pid_node k" "pids (pool c) k = Some w" "thr c w = Some Worker_gone"
    and "pool_run demo0 c"
  shows "pool_run demo0 (c\<lparr>pool := (pool c)\<lparr>plinks := list_del (Pid_node k) (plinks (pool c)),
    pids := (pids (pool c))(k := None)\<rparr>\<rparr>)"
proof -
  let ?p = "(pool c)\<lparr>plinks := list_del (Pid_node k) (plinks (pool c))\<rparr>"
  let ?c = "c\<lparr>pool := ?p, thr := (thr c)(20 \<mapsto> Close_wait k)\<rparr>"
  have "w \<noteq> 20"
    using assms(1,5) by auto
  have "pool_step c Own ?c"
    using assms by (intro join_next) (simp_all add: close_next_def list_empty_def Let_def)
  moreover have "pool_step ?c Own (?c\<lparr>pool := (pool ?c)\<lparr>pids := (pids (pool ?c))(k := None)\<rparr>,
      thr := (thr ?c)(20 \<mapsto> Close_join)\<rparr>)"
    using assms \<open>w \<noteq> 20\<close> by (intro joined [where w = w]) simp_all
  moreover have "(thr ?c)(20 \<mapsto> Close_join) = thr c"
    using assms(1) by auto
  ultimately show ?thesis
    using two_moves [OF assms(6)] by simp
qed

lemma shut_run4: "pool_run demo0 shut4"
proof -
  have p: "plinks (pool shut2) = plinks (pool demo0)" "pids (pool shut2) = pids (pool demo0)"
    "\<not> locked_forever (pool shut2)"
    by (simp_all add: shut2_def shut1_def close_begin_def worker_leave_def demo_pools)
  have "pool_run demo0 shut3"
    using shut_join [of shut2 0 1] shut_run2 unfolding shut3_def
    by (simp add: shut_thr p shut_pools)
  then show ?thesis
    using shut_join [of shut3 1 2] unfolding shut4_def
    by (simp add: shut_thr p shut_pools shut3_def list_del_def list_del_raw_def)
qed

lemma shut_end: "close_next (pool shut4) = None" "joins (thr shut4) = {}"
proof -
  show "joins (thr shut4) = {}"
    by (auto simp: joins_def shut_thr split: if_splits)
  have "plinks (pool shut2) = plinks (pool demo0)"
    by (simp add: shut2_def shut1_def close_begin_def worker_leave_def)
  then show "close_next (pool shut4) = None"
    by (simp add: close_next_def list_empty_def shut4_def shut3_def shut_pools list_del_def
        list_del_raw_def del: One_nat_def)
qed

section \<open>What no step changes\<close>

lemma limits_kept:
  "add_enqueue addr j first p = (r, p') \<Longrightarrow> thread_max p' = thread_max p \<and> thread_min p' = thread_min p"
  "uc_threadpool_activty_try_do s p = (r, p', new) \<Longrightarrow> thread_max p' = thread_max p \<and> thread_min p' = thread_min p"
  "worker_take p = (n, p') \<Longrightarrow> thread_max p' = thread_max p \<and> thread_min p' = thread_min p"
  "close_next p = Some (n, p') \<Longrightarrow> thread_max p' = thread_max p \<and> thread_min p' = thread_min p"
  by (auto simp: add_enqueue_def take_entry_def uc_threadpool_activty_try_do_def worker_take_def Let_def
      close_next_def split: option.splits if_splits paddr.splits prod.splits)

lemma limits_free:
  "free_tasks fuel head p = Some p' \<Longrightarrow> thread_max p' = thread_max p \<and> thread_min p' = thread_min p"
  by (induction fuel arbitrary: p) (auto split: if_splits paddr.splits)

lemma limits_step:
  "pool_step c l c' \<Longrightarrow> thread_max (pool c') = thread_max (pool c) \<and> thread_min (pool c') = thread_min (pool c)"
  by (erule pool_step.cases)
    (auto simp: close_begin_def uc_threadpool_set_task_max_def worker_leave_def worker_recycle_def
      close_free_def bind_eq_Some_conv dest!: limits_kept limits_free)

lemma limits_run:
  "pool_run c c' \<Longrightarrow> thread_max (pool c') = thread_max (pool c) \<and> thread_min (pool c') = thread_min (pool c)"
  by (induction rule: pool_run.induct) (auto dest: limits_step)

lemma limits_start: "thread_max (start_threads n ss p) = thread_max p \<and> thread_min (start_threads n ss p) = thread_min p"
  by (induction n ss p rule: start_threads.induct) (auto split: option.splits)

lemma reach_limits:
  assumes "pool_reach lo hi ss c"
  shows "thread_max (pool c) = int hi" "thread_min (pool c) \<le> int hi"
proof -
  obtain p where p: "uc_threadpool_create True True True lo hi ss = Some (Some p)"
    "pool_run (start_config p lo ss) c" "hi < 2 ^ 31"
    using assms by (auto simp: pool_reach_def)
  then have "thread_max p = int hi \<and> thread_min p \<le> int hi"
    by (auto simp: uc_threadpool_create_def limits_start split: if_splits)
  then show "thread_max (pool c) = int hi" "thread_min (pool c) \<le> int hi"
    using limits_run [OF p(2)] by (simp_all add: start_config_def)
qed

text \<open>Once the pool is closed no worker sleeps: the broadcast woke them, and none goes back.\<close>

definition no_sleeper :: "config \<Rightarrow> bool" where
  "no_sleeper c \<longleftrightarrow> (shutdown (pool c) \<noteq> 0 \<longrightarrow> (\<forall>i. thr c i \<noteq> Some Worker_wait))"

lemma wake_not_sleeping [simp]: "wake w \<noteq> Worker_wait"
  by (cases w) simp_all

lemma sleeper_signal: "cond_signal ts ts' \<Longrightarrow> ts' i = Some Worker_wait \<Longrightarrow> ts i = Some Worker_wait"
  by (erule cond_signal.cases) (auto split: if_splits)

lemma no_sleeper_step:
  assumes "pool_step c l c'" "no_sleeper c"
  shows "no_sleeper c'"
  using assms(1)
proof (cases rule: step_cases)
  case (call_close i)
  then show ?thesis
    by (auto simp: no_sleeper_def cond_broadcast_def)
next
  case (activity i s r p new)
  then show ?thesis
    using assms(2) shutdown_kept(2) [OF activity(6)] by (cases new) (auto simp: no_sleeper_def)
next
  case (add_queued i j first addr p ts)
  then show ?thesis
    using assms(2) shutdown_kept(1) [OF add_queued(6)] sleeper_signal [OF add_queued(7)]
    by (fastforce simp: no_sleeper_def split: if_splits)
next
  case (add_no_memory i j first addr r p)
  then show ?thesis
    using assms(2) shutdown_kept(1) [OF add_no_memory(6)] by (auto simp: no_sleeper_def)
next
  case (work_take i k p ts)
  then show ?thesis
    using assms(2) shutdown_kept(3) [OF work_take(7)] sleeper_signal [OF work_take(8)]
    by (fastforce simp: no_sleeper_def split: if_splits)
next
  case (join_next i k p)
  then show ?thesis
    using assms(2) shutdown_kept(4) [OF join_next(5)] by (auto simp: no_sleeper_def)
next
  case (close_end i fuel p)
  then show ?thesis
    using assms(2) shutdown_kept(5) [OF close_end(6)] by (auto simp: no_sleeper_def)
qed (use assms(2) in \<open>auto simp: no_sleeper_def worker_waits_def dest: sleeper_signal\<close>)

lemma no_sleeper_reach:
  assumes "pool_reach lo hi ss c"
  shows "no_sleeper c"
proof -
  have "pool_run d e \<Longrightarrow> no_sleeper d \<Longrightarrow> no_sleeper e" for d e
    by (induction rule: pool_run.induct) (auto intro: no_sleeper_step)
  then show ?thesis
    using assms create_inv(3) unfolding pool_reach_def
    by (metis no_sleeper_def select_convs(1) start_config_def)
qed

text \<open>
  How many steps of its own a worker of a closed pool has left: to go out of the wait, to finish its task,
  to leave.
\<close>

fun steps_left :: "thread \<Rightarrow> nat" where
  "steps_left Worker_wait = 3"
| "steps_left (Worker_run k) = 2"
| "steps_left Worker_top = 1"
| "steps_left _ = 0"

fun is_worker :: "thread \<Rightarrow> bool" where
  "is_worker Worker_gone = True"
| "is_worker w = live w"

text \<open>The thread stays as it is, or gets closer to its end.\<close>

definition nearer :: "(nat \<rightharpoonup> thread) \<Rightarrow> (nat \<rightharpoonup> thread) \<Rightarrow> nat \<Rightarrow> bool" where
  "nearer ts ts' i \<longleftrightarrow> (\<exists>w w'. ts i = Some w \<and> ts' i = Some w' \<and> is_worker w' \<and>
     (w' = w \<or> steps_left w' < steps_left w))"

lemma nearer_same: "ts i = Some w \<Longrightarrow> is_worker w \<Longrightarrow> ts' i = Some w \<Longrightarrow> nearer ts ts' i"
  by (simp add: nearer_def)

lemma nearer_other:
  "ts j = Some w \<Longrightarrow> is_worker w \<Longrightarrow> (\<And>v. ts i = Some v \<Longrightarrow> \<not> is_worker v) \<Longrightarrow> nearer ts (ts(i \<mapsto> x)) j"
  by (cases "j = i") (auto simp: nearer_def)

lemma nearer_trans: "nearer ts ts' i \<Longrightarrow> nearer ts' ts'' i \<Longrightarrow> nearer ts ts'' i"
  by (auto simp: nearer_def)

lemma waiting_worker: "waiting w \<Longrightarrow> is_worker w \<Longrightarrow> w = Worker_wait"
  by (cases w) simp_all

lemma signal_worker:
  "cond_signal ts ts' \<Longrightarrow> ts i = Some w \<Longrightarrow> is_worker w \<Longrightarrow> w \<noteq> Worker_wait \<Longrightarrow> ts' i = Some w"
  by (erule cond_signal.cases) (auto dest: waiting_worker)

lemma spawn_new: "uc_threadpool_activty_try_do s p = (r, p', Some w) \<Longrightarrow> fresh_spawn c s \<Longrightarrow> thr c w = None"
  by (auto simp: uc_threadpool_activty_try_do_def fresh_spawn_def split: if_splits option.splits prod.splits)

lemma closed_step:
  assumes "pool_step c l c'" "shutdown (pool c) \<noteq> 0" "no_sleeper c"
  shows "shutdown (pool c') \<noteq> 0 \<and> taken c' = taken c \<and> (\<forall>i w. thr c i = Some w \<and> is_worker w \<longrightarrow> nearer (thr c) (thr c') i)"
proof -
  have awake: "thr c i = Some w \<Longrightarrow> w \<noteq> Worker_wait" for i w
    using assms(2,3) by (auto simp: no_sleeper_def)
  show ?thesis
    using assms(1)
  proof (cases rule: step_cases)
    case (call_close i)
    moreover have "is_worker w \<Longrightarrow> w \<noteq> Worker_wait \<Longrightarrow> wake w = w" for w
      by (cases w) simp_all
    ultimately show ?thesis
      using awake by (auto simp: cond_broadcast_def nearer_def)
  next
    case (spurious i w)
    then have "\<not> is_worker w"
      using awake [of i w] waiting_worker [of w] by blast
    then have "thr c' x = Some v" if "thr c x = Some v" "is_worker v" for x v
      using that spurious by (cases "x = i") auto
    then show ?thesis
      using spurious(2) assms(2) by (auto intro: nearer_same)
  next
    case (call_set_max m ts)
    then show ?thesis
      using assms(2) awake signal_worker [OF call_set_max(4)] by (auto intro: nearer_same)
  next
    case (add_queued i j first addr p ts)
    have "\<not> is_worker w" if "thr c i = Some w" for w
      using that add_queued(3) by (auto simp: may_add_def)
    then have "ts x = Some w" if "thr c x = Some w" "is_worker w" for x w
      using that awake signal_worker [OF add_queued(7), of x w] by (cases "x = i") auto
    then show ?thesis
      using add_queued(2) assms(2) shutdown_kept(1) [OF add_queued(6)] by (auto intro: nearer_same)
  next
    case (add_no_memory i j first addr r p)
    then show ?thesis
      using assms(2) shutdown_kept(1) [OF add_no_memory(6)] by (auto simp: may_add_def intro: nearer_other)
  next
    case (activity i s r p new)
    have "thr c' x = Some w" if "thr c x = Some w" "is_worker w" for x w
      using that activity spawn_new [of s "pool c" r p _ c] by (cases new) auto
    then show ?thesis
      using activity(2) assms(2) shutdown_kept(2) [OF activity(6)] by (auto intro: nearer_same)
  next
    case (join_next i k p)
    then show ?thesis
      using assms(2) shutdown_kept(4) [OF join_next(5)] by (auto intro: nearer_other)
  next
    case (close_end i fuel p)
    then show ?thesis
      using assms(2) shutdown_kept(5) [OF close_end(6)] by (auto intro: nearer_other)
  next
    case (add_blocked i j first)
    then show ?thesis
      using assms(2) by (auto simp: may_add_def intro: nearer_other)
  next
    case (work_leave i)
    then show ?thesis
      using assms(2) by (auto simp: nearer_def)
  next
    case (work_done i k)
    then show ?thesis
      using assms(2) by (auto simp: nearer_def)
  qed (use assms(2) in \<open>auto simp: worker_waits_def intro: nearer_other\<close>)
qed

lemma closed_run:
  assumes "pool_run c c'" "shutdown (pool c) \<noteq> 0" "no_sleeper c" "thr c i = Some w" "is_worker w"
  shows "shutdown (pool c') \<noteq> 0 \<and> no_sleeper c' \<and> taken c' = taken c \<and> nearer (thr c) (thr c') i"
  using assms
proof (induction rule: pool_run.induct)
  case (stay c)
  then show ?case
    by (simp add: nearer_def)
next
  case (move c d l e)
  then have d: "shutdown (pool d) \<noteq> 0" "no_sleeper d" "taken d = taken c" "nearer (thr c) (thr d) i"
    by blast+
  then obtain v where "thr d i = Some v" "is_worker v"
    by (auto simp: nearer_def)
  with closed_step [OF move.hyps(2) d(1,2)] d show ?case
    using no_sleeper_step [OF move.hyps(2) d(2)] nearer_trans by metis
qed

text \<open>A step of the thread \<open>i\<close> alone.\<close>

definition moves :: "nat \<Rightarrow> config \<Rightarrow> config \<Rightarrow> bool" where
  "moves i c c' \<longleftrightarrow> pool_step c Own c' \<and> thr c' i \<noteq> thr c i \<and> (\<forall>j. j \<noteq> i \<longrightarrow> thr c' j = thr c j)"

lemma worker_leaves:
  assumes "thr c i = Some Worker_top" "shutdown (pool c) \<noteq> 0" "\<not> locked_forever (pool c)"
  shows "\<exists>c'. moves i c c' \<and> thr c' i = Some Worker_gone"
  using work_leave [OF assms(1,3,2)] assms(1)
  by (intro exI [of _ "c\<lparr>pool := worker_leave (pool c), thr := (thr c)(i \<mapsto> Worker_gone)\<rparr>"]) (simp add: moves_def)

lemma worker_finishes:
  assumes "thr c i = Some (Worker_run k)" "\<not> locked_forever (pool c)"
  shows "\<exists>c'. moves i c c' \<and> thr c' i = Some Worker_top \<and> shutdown (pool c') = shutdown (pool c) \<and> \<not> locked_forever (pool c')"
  using work_done [OF assms] assms
  by (intro exI [of _ "c\<lparr>pool := worker_recycle k (pool c), thr := (thr c)(i \<mapsto> Worker_top)\<rparr>"])
    (simp add: moves_def worker_recycle_def)

text \<open>A lock never released: only joins of threads already gone go on.\<close>

lemma locked_step:
  "pool_step c l c' \<Longrightarrow> locked_forever (pool c) \<Longrightarrow>
   locked_forever (pool c') \<and> plinks (pool c') = plinks (pool c) \<and> accepted c' = accepted c \<and> taken c' = taken c"
  by (erule pool_step.cases) (auto simp: may_add_def)

lemma locked_run:
  "pool_run c c' \<Longrightarrow> locked_forever (pool c) \<Longrightarrow>
   locked_forever (pool c') \<and> plinks (pool c') = plinks (pool c) \<and> accepted c' = accepted c \<and> taken c' = taken c"
  by (induction rule: pool_run.induct) (auto dest: locked_step)

lemma runs_lives: "fst ` runs ts \<subseteq> lives ts"
  by (auto simp: runs_def lives_def)

section \<open>What the pool guarantees\<close>

text \<open>C21: However callers and workers interleave, every task entry is in exactly one place: queued,
  kept for reuse, or with one worker; while the pool is open \<open>list_task_ttl\<close> is the length of the
  queue; and \<open>thread_alive\<close> counts the workers not yet gone, never more than the maximum.\<close>

theorem uc_threadpool_consistent:
  assumes "pool_reach lo hi ss c"
  shows "\<exists>L. lists_rel (plinks (pool c)) pool_heads L \<and>
    Task_node ` dom (tasks (pool c)) = entries L \<union> Task_node ` snd ` runs (thr c) \<and>
    set (L Task_head) \<inter> set (L Free_head) = {} \<and>
    entries L \<inter> Task_node ` snd ` runs (thr c) = {} \<and> inj_on snd (runs (thr c)) \<and>
    (shutdown (pool c) = 0 \<longrightarrow> list_task_ttl (pool c) = word_of_nat (length (L Task_head))) \<and>
    thread_alive (pool c) = int (card (lives (thr c))) \<and> thread_alive (pool c) \<le> int hi"
proof -
  obtain L where L: "inv_on c L"
    using pool_reach_inv [OF assms] by (auto simp: pool_inv_def)
  note e = entries_okD [OF inv_onD(2) [OF L]] and p = inv_onD(1) [OF L]
  have "Task_node ` dom (tasks (pool c)) = entries L \<union> Task_node ` snd ` runs (thr c)"
  proof -
    have "k \<in> dom (tasks (pool c)) \<longleftrightarrow> Task_node k \<in> entries L \<or> k \<in> snd ` runs (thr c)" for k
      using e(1,3) [of k] pool_listsD(4) [OF p, of k] by blast
    then have "dom (tasks (pool c)) = Task_node -` entries L \<union> snd ` runs (thr c)"
      by (auto simp: set_eq_iff)
    moreover have "Task_node ` (Task_node -` entries L) = entries L"
      using p by (intro image_vimage_eq [THEN trans]) (auto simp: pool_lists_def)
    ultimately show ?thesis
      by (simp only: image_Un)
  qed
  moreover have "entries L \<inter> Task_node ` snd ` runs (thr c) = {}"
    using e(1) by auto
  ultimately show ?thesis
    using e(2) p lists_apart(4) [OF p] threads_okD(2,3) [OF inv_onD(3) [OF L]] reach_limits [OF assms]
    by (intro exI [of _ L]) (simp add: pool_lists_def)
qed

lemma uc_threadpool_consistent_witness:
  "pool_reach 2 2 demo_spawns demo7 \<and> thread_alive (pool demo7) \<le> 2"
  using demo_reach [OF demo_run7] uc_threadpool_consistent [OF demo_reach [OF demo_run7]] by auto

lemma accepted_accounted:
  assumes "pool_reach lo hi ss c"
  shows "\<exists>queue. dlist (plinks (pool c)) Task_head queue \<and>
    mset (taken c) \<subseteq># mset (accepted c) \<and>
    (shutdown (pool c) = 0 \<longrightarrow>
      mset (accepted c) = mset (taken c) + mset (map (node_job (pool c)) queue) \<and>
      (\<not> jumped c \<longrightarrow> accepted c = taken c @ map (node_job (pool c)) queue))"
proof -
  obtain L where L: "inv_on c L"
    using pool_reach_inv [OF assms] by (auto simp: pool_inv_def)
  have "mset (taken c) \<subseteq># mset (accepted c)"
    using inv_onD(4) [OF L] by (auto simp: jobs_ok_def split: if_splits)
  then show ?thesis
    using inv_onD(4) [OF L] pool_listsD(2) [OF inv_onD(1) [OF L], of Task_head]
    by (intro exI [of _ "L Task_head"]) (simp add: jobs_ok_def queued_def split: if_splits)
qed

text \<open>C22: No accepted task is lost or run twice: the accepted tasks are those taken by workers and
  those queued, and if none was put first, the workers take them in the order of acceptance. After
  the shutdown no task runs that was not accepted, and none twice.\<close>

theorem uc_threadpool_no_task_lost:
  assumes "pool_reach lo hi ss c"
  shows "\<exists>queue. dlist (plinks (pool c)) Task_head queue \<and>
    mset (taken c) \<subseteq># mset (accepted c) \<and>
    (shutdown (pool c) = 0 \<longrightarrow>
      mset (accepted c) = mset (taken c) + mset (map (node_job (pool c)) queue) \<and>
      (\<not> jumped c \<longrightarrow> accepted c = taken c @ map (node_job (pool c)) queue))"
  by (rule accepted_accounted [OF assms])

lemma uc_threadpool_no_task_lost_witness:
  "pool_reach 2 2 demo_spawns demo7 \<and> mset (taken demo7) \<subseteq># mset (accepted demo7)"
  using demo_reach [OF demo_run7] uc_threadpool_no_task_lost [OF demo_reach [OF demo_run7]] by blast

text \<open>C23: When the only closer finds the list of threads empty, no worker is left, and the rest of
  \<open>uc_threadpool_close\<close> ends and frees every task entry, used or not.\<close>

theorem uc_threadpool_close_complete:
  assumes "pool_reach lo hi ss c" "thr c i = Some Close_join" "close_next (pool c) = None"
    and "joins (thr c) = {}"
  shows "\<exists>fuel p. close_free fuel (pool c) = Some p \<and> tasks p = Map.empty \<and> thread_alive p = 0 \<and>
    dlist (plinks p) Task_head [] \<and> dlist (plinks p) Free_head [] \<and> dlist (plinks p) Pid_head [] \<and>
    lives (thr c) = {}"
proof -
  obtain L where L: "inv_on c L"
    using pool_reach_inv [OF assms(1)] by (auto simp: pool_inv_def)
  note lists = inv_onD(1) [OF L]
  have none: "L Pid_head = []"
    using assms(3) pool_listsD(2) [OF lists, of Pid_head]
    by (auto simp: close_next_def Let_def list_empty_iff split: if_splits)
  then have v: "lives (thr c) = {}"
    using threads_okD(4) [OF inv_onD(3) [OF L]] assms(4) by auto
  then have r: "runs (thr c) = {}"
    using runs_lives by blast
  define fuel where "fuel = length (L Free_head) + length (L Task_head) + 1"
  obtain h where h: "close_free fuel (pool c) = Some ((pool c)\<lparr>plinks := h,
      tasks := (\<lambda>k. if Task_node k \<in> entries L then None else tasks (pool c) k)\<rparr>)"
    "lists_rel h pool_heads (L(Free_head := [], Task_head := []))"
    using close_free_effect [OF lists, of fuel] by (auto simp: fuel_def)
  have "dlist h Task_head []" "dlist h Free_head []" "dlist h Pid_head []"
    using lists_rel_dlist [OF h(2), of Task_head] lists_rel_dlist [OF h(2), of Free_head]
      lists_rel_dlist [OF h(2), of Pid_head] none by simp_all
  moreover have "(\<lambda>k. if Task_node k \<in> entries L then None else tasks (pool c) k) = Map.empty"
    using entries_okD(3) [OF inv_onD(2) [OF L]] r by (fastforce simp: fun_eq_iff)
  ultimately show ?thesis
    using h(1) v threads_okD(2) [OF inv_onD(3) [OF L]]
    by (intro exI [of _ fuel] exI [of _ "(pool c)\<lparr>plinks := h, tasks := Map.empty\<rparr>"]) simp
qed

lemma uc_threadpool_close_complete_witness:
  "\<exists>fuel p. close_free fuel (pool shut4) = Some p \<and> tasks p = Map.empty \<and> thread_alive p = 0"
  using uc_threadpool_close_complete [OF demo_reach [OF shut_run4] _ shut_end, of 20]
  by (auto simp: shut_thr)

text \<open>C24: once the pool is closed no worker sleeps. A worker that is not gone leaves by steps of its own, one if
  it runs no task and two (to finish the task and to leave) if it runs one, which need no other thread and
  no spurious wake-up as long as the lock is not held for ever. And whatever the threads do from then on, no
  task is taken from the queue any more, the worker does not wait again, and every change of its state
  brings it nearer to its end.\<close>

theorem uc_threadpool_close_ends_workers:
  assumes "pool_reach lo hi ss c" "shutdown (pool c) \<noteq> 0" "i \<in> lives (thr c)"
  shows "\<exists>w. thr c i = Some w \<and> (w = Worker_top \<or> (\<exists>k. w = Worker_run k)) \<and>
    (\<not> locked_forever (pool c) \<longrightarrow> (\<exists>c'. (moves i ^^ steps_left w) c c' \<and> thr c' i = Some Worker_gone)) \<and>
    (\<forall>c' l c''. pool_run c c' \<and> pool_step c' l c'' \<longrightarrow> taken c'' = taken c \<and> thr c'' i \<noteq> Some Worker_wait \<and>
      (thr c'' i = thr c' i \<or> steps_left (the (thr c'' i)) < steps_left (the (thr c' i))))"
proof -
  have sleep: "no_sleeper c"
    by (rule no_sleeper_reach [OF assms(1)])
  obtain w where w: "thr c i = Some w" "live w"
    using assms(3) by (auto simp: lives_def)
  then have worker: "is_worker w" and awake: "w = Worker_top \<or> (\<exists>k. w = Worker_run k)"
    using sleep assms(2) by (cases w; auto simp: no_sleeper_def)+
  have "\<exists>c'. (moves i ^^ steps_left w) c c' \<and> thr c' i = Some Worker_gone" if free: "\<not> locked_forever (pool c)"
    using awake
  proof (elim disjE exE)
    assume top: "w = Worker_top"
    then show ?thesis
      using worker_leaves [of c i] w(1) assms(2) free by (auto simp: relpowp_1)
  next
    fix k
    assume run: "w = Worker_run k"
    then obtain d where d: "moves i c d" "thr d i = Some Worker_top" "shutdown (pool d) \<noteq> 0" "\<not> locked_forever (pool d)"
      using worker_finishes [of c i k] w(1) assms(2) free by auto
    from worker_leaves [OF d(2-4)] d(1) show ?thesis
      using run by (auto simp: numeral_2_eq_2)
  qed
  moreover have "taken c'' = taken c \<and> thr c'' i \<noteq> Some Worker_wait \<and>
      (thr c'' i = thr c' i \<or> steps_left (the (thr c'' i)) < steps_left (the (thr c' i)))"
    if c': "pool_run c c'" and c'': "pool_step c' l c''" for c' l c''
  proof -
    have d: "shutdown (pool c') \<noteq> 0" "no_sleeper c'" "taken c' = taken c" "nearer (thr c) (thr c') i"
      using closed_run [OF c' assms(2) sleep w(1) worker] by blast+
    then obtain v where "thr c' i = Some v" "is_worker v"
      by (auto simp: nearer_def)
    then have "shutdown (pool c'') \<noteq> 0" "taken c'' = taken c'" "nearer (thr c') (thr c'') i"
      using closed_step [OF c'' d(1,2)] by blast+
    then show ?thesis
      using no_sleeper_step [OF c'' d(2)] d(3) by (auto simp: nearer_def no_sleeper_def)
  qed
  ultimately show ?thesis
    using w(1) awake by blast
qed

lemma uc_threadpool_close_ends_workers_witness:
  "\<exists>c'. moves 1 shut1 c' \<and> thr c' 1 = Some Worker_gone"
proof -
  have "shutdown (pool shut1) \<noteq> 0" "\<not> locked_forever (pool shut1)"
    by (simp_all add: shut1_def close_begin_def demo_pools)
  moreover have "1 \<in> lives (thr shut1)" "thr shut1 1 = Some Worker_top"
    by (simp_all add: lives_def shut_thr)
  ultimately show ?thesis
    using uc_threadpool_close_ends_workers [OF demo_reach [OF shut_run1]] by force
qed

text \<open>C25: With one condition variable for workers and callers a wake-up gets lost: two workers and a
  limit of one queued task reach a state in which the queue is empty and a caller still waits for
  room in it, and no thread has a step of its own any more.\<close>

theorem uc_threadpool_lost_wakeup:
  "\<exists>c. pool_reach 2 2 demo_spawns c \<and> thr c 11 = Some (Add_wait (demo_job 1) False) \<and>
     list_empty Task_head (plinks (pool c)) \<and> \<not> add_waits (pool c) \<and>
     {c'. pool_step c Own c'} = {}"
proof -
  have "\<not> pool_step demo7 Own c'" for c'
    by (auto elim!: own_step simp: demo_thr(2) may_add_def split: if_splits)
  then have "{c'. pool_step demo7 Own c'} = {}"
    by blast
  then show ?thesis
    using demo_reach [OF demo_run7] demo_pools7 by (intro exI [of _ demo7]) (simp add: demo_thr add_waits_def)
qed

text \<open>C26: When there is no memory for a task entry the caller gets the error code but the lock is never
  released: from then on nothing is accepted, taken, or linked, whatever the threads do.\<close>

theorem uc_threadpool_add_oom_locks:
  assumes "list_empty Free_head (plinks (pool c))" "add_enqueue None j first (pool c) = (r, p)"
    and "pool_run (c\<lparr>pool := p, thr := (thr c)(i \<mapsto> Add_done r)\<rparr>) c'"
  shows "r = - 0x18aa3f60 \<and> accepted c' = accepted c \<and> taken c' = taken c \<and>
    plinks (pool c') = plinks (pool c)"
proof -
  have "r = - 0x18aa3f60" "p = (pool c)\<lparr>locked_forever := True\<rparr>"
    using assms(1,2) by (simp_all add: add_enqueue_def take_entry_def)
  then show ?thesis
    using locked_run [OF assms(3)] by simp
qed

lemma uc_threadpool_add_oom_locks_witness:
  "fst (add_enqueue None (demo_job 0) False (pool demo0)) = - 0x18aa3f60"
  using uc_threadpool_add_oom_locks [OF _ _ pool_run.stay, of demo0 "demo_job 0" False]
  by (cases "add_enqueue None (demo_job 0) False (pool demo0)") (simp add: list_empty_def demo_pools)

text \<open>As long as the limit on the queue is not changed, no step takes an open pool over it: callers
  wait while the queue is full. (Task entries are fewer than \<open>2 ^ 64\<close>, as memory is finite.)\<close>

theorem uc_threadpool_queue_bounded:
  assumes "pool_reach lo hi ss c" "pool_step c l c'" "shutdown (pool c) = 0"
    and "list_task_max (pool c) \<noteq> 0" "list_task_max (pool c') = list_task_max (pool c)"
    and "card (dom (tasks (pool c))) < 2 ^ 64" "finite (dom (tasks (pool c)))"
    and "list_task_ttl (pool c) \<le> list_task_max (pool c)"
  shows "list_task_ttl (pool c') \<le> list_task_max (pool c')"
proof -
  obtain L where L: "inv_on c L"
    using pool_reach_inv [OF assms(1)] by (auto simp: pool_inv_def)
  note lists = inv_onD(1) [OF L]
  have ttl: "list_task_ttl (pool c) \<noteq> 0" if "L Task_head \<noteq> []"
  proof -
    have "length (L Task_head) = card (set (L Task_head))"
      using lists_apart(1) [OF lists] by (simp add: distinct_card)
    also have "\<dots> \<le> card (Task_node ` dom (tasks (pool c)))"
      using lists assms(7) by (intro card_mono) (auto simp: pool_lists_def entries_def)
    also have "\<dots> \<le> card (dom (tasks (pool c)))"
      using assms(7) by (rule card_image_le)
    finally have "length (L Task_head) < 2 ^ 64"
      using assms(6) by simp
    then have "unat (word_of_nat (length (L Task_head)) :: u64) = length (L Task_head)"
      by (simp add: unat_of_nat)
    moreover have "list_task_ttl (pool c) = word_of_nat (length (L Task_head))"
      using pool_listsD(3) [OF lists assms(3)] .
    ultimately show ?thesis
      using that by (metis length_0_conv unat_0)
  qed
  show ?thesis
    using assms(2)
  proof (cases rule: step_cases)
    case (add_queued i j first addr p ts)
    then have "list_task_ttl (pool c) < list_task_max (pool c)"
      using assms(4) by (simp add: add_waits_def)
    moreover have "list_task_ttl p = list_task_ttl (pool c) + 1"
      using add_queued(6) by (auto simp: add_enqueue_def take_entry_def split: option.splits if_splits paddr.splits)
    ultimately show ?thesis
      using assms(5) add_queued(2) by (simp add: inc_le)
  next
    case (work_take i k p ts)
    then have "list_task_ttl (pool c) \<noteq> 0"
      using ttl pool_listsD(2) [OF lists, of Task_head] assms(3) by (simp add: worker_waits_def list_empty_iff)
    then have "list_task_ttl (pool c) - 1 \<le> list_task_max (pool c)"
      using assms(8) by uint_arith
    then show ?thesis
      using work_take(2,7) assms(5) by (auto simp: worker_take_def Let_def)
  next
    case (close_end i fuel p)
    have "shutdown (pool c) \<noteq> 0"
      using pool_reach_inv [OF assms(1)] any_closingI [where ts = "thr c", OF close_end(3)]
      by (simp add: pool_inv_def closers_ok_def)
    then show ?thesis
      using assms(3) by simp
  next
    case (activity i s r p new)
    then show ?thesis
      using assms(8) by (auto simp: uc_threadpool_activty_try_do_def split: if_splits option.splits prod.splits)
  next
    case (add_no_memory i j first addr r p)
    then show ?thesis
      using assms(8) by (auto simp: add_enqueue_def split: option.splits)
  next
    case (join_next i k p)
    then show ?thesis
      using assms(8) by (auto simp: close_next_def Let_def split: if_splits)
  qed (use assms(5,8) in \<open>auto simp: close_begin_def worker_leave_def worker_recycle_def
      uc_threadpool_set_task_max_def\<close>)
qed

lemma uc_threadpool_queue_bounded_witness:
  "list_task_ttl (pool demo4) \<le> list_task_max (pool demo4)"
proof -
  have "shutdown (pool demo3) = 0" "list_task_max (pool demo3) = 1" "list_task_ttl (pool demo3) = 0"
    "dom (tasks (pool demo3)) = {}" "list_task_max (pool demo4) = 1"
    by (simp_all add: demo_pools demo_pools2 demo_pools4(1))
  then show ?thesis
    by (intro uc_threadpool_queue_bounded [OF demo_reach [OF demo_run3] demo_step4]) simp_all
qed

end
