(* ===== verification/Ipc_Wire.thy ===== *)
theory Ipc_Wire
  imports Hash_Map
begin

text \<open>
  What goes over the IPC connection and how it gets there: the packed message header of
  \<^verbatim>\<open>ipc/uc_ipc_common.h\<close> as its 28 bytes, the read and write loops of \<^verbatim>\<open>ipc/uc_ipc_io.c\<close>, and
  the random bytes of \<^verbatim>\<open>random/uc_random.c\<close>, which use the same kind of loop. The kernel's part
  is an argument: what arrives at a descriptor, in which pieces, with which interruptions.
\<close>

section \<open>The message header\<close>

record uc_ipc_proto_header =
  head_ttl :: u64
  head_msg_type :: u32
  head_seq_id :: u64
  head_ack_id :: u64

type_synonym packet = "uc_ipc_proto_header \<times> u8 list"

text \<open>\<^verbatim>\<open>uc_ipc_msg_type_t\<close>; on the wire any 32-bit number may come.\<close>

definition uc_ipc_msg_type_heartbeat :: u32 where "uc_ipc_msg_type_heartbeat = 1"
definition uc_ipc_msg_type_void :: u32 where "uc_ipc_msg_type_void = 2"
definition uc_ipc_msg_type_async_send :: u32 where "uc_ipc_msg_type_async_send = 3"
definition uc_ipc_msg_type_async_ack :: u32 where "uc_ipc_msg_type_async_ack = 4"
definition uc_ipc_msg_type_sync_send :: u32 where "uc_ipc_msg_type_sync_send = 5"
definition uc_ipc_msg_type_sync_ack :: u32 where "uc_ipc_msg_type_sync_ack = 6"

lemmas msg_types = uc_ipc_msg_type_heartbeat_def uc_ipc_msg_type_void_def
  uc_ipc_msg_type_async_send_def uc_ipc_msg_type_async_ack_def uc_ipc_msg_type_sync_send_def
  uc_ipc_msg_type_sync_ack_def

definition UC_IPC_SEQ_ID_MIN :: u64 where "UC_IPC_SEQ_ID_MIN = 10000"
definition UC_IPC_MSG_READ_BLOCK_LEN_MAX :: nat where "UC_IPC_MSG_READ_BLOCK_LEN_MAX = 1024 * 8"

text \<open>\<^verbatim>\<open>sizeof(uc_ipc_proto_header_t)\<close>: the struct is packed.\<close>

definition HEAD_LEN :: nat where "HEAD_LEN = 28"

text \<open>The header's bytes in memory, and the header some bytes in memory stand for.\<close>

definition head_bytes :: "uc_ipc_proto_header \<Rightarrow> u8 list" where
  "head_bytes h = le_bytes 8 (unat (head_ttl h)) @ le_bytes 4 (unat (head_msg_type h)) @
     le_bytes 8 (unat (head_seq_id h)) @ le_bytes 8 (unat (head_ack_id h))"

definition bytes_head :: "u8 list \<Rightarrow> uc_ipc_proto_header" where
  "bytes_head bs = \<lparr>head_ttl = word_of_nat (le_nat (take 8 bs)),
     head_msg_type = word_of_nat (le_nat (take 4 (drop 8 bs))),
     head_seq_id = word_of_nat (le_nat (take 8 (drop 12 bs))),
     head_ack_id = word_of_nat (le_nat (take 8 (drop 20 bs)))\<rparr>"

definition packet_bytes :: "packet \<Rightarrow> u8 list" where
  "packet_bytes p = head_bytes (fst p) @ snd p"

text \<open>A packet as a sender builds it: the length in its header is the length of the payload.\<close>

definition packet_ok :: "packet \<Rightarrow> bool" where
  "packet_ok p \<longleftrightarrow> length (snd p) = unat (head_ttl (fst p))"

lemma length_head_bytes [simp]: "length (head_bytes h) = HEAD_LEN"
  by (simp add: head_bytes_def HEAD_LEN_def)

lemma word_le_bytes:
  "(256 :: nat) ^ n = 2 ^ LENGTH('a) \<Longrightarrow> word_of_nat (le_nat (le_bytes n (unat w))) = (w :: 'a :: len word)"
  using unsigned_less [of w] by (simp add: le_nat_le_bytes)

lemma bytes_head_bytes [simp]: "bytes_head (head_bytes h) = h"
  by (simp add: bytes_head_def head_bytes_def word_le_bytes)

lemma bytes_head_app [simp]: "bytes_head (head_bytes h @ bs) = h"
proof -
  have "bytes_head (take HEAD_LEN xs) = bytes_head xs" for xs :: "u8 list"
    by (simp add: bytes_head_def HEAD_LEN_def drop_take min_def)
  from this [of "head_bytes h @ bs"] show ?thesis
    by simp
qed

lemma head_bytes_bytes_head:
  assumes "length bs = HEAD_LEN"
  shows "head_bytes (bytes_head bs) = bs"
proof -
  have part: "le_bytes n (unat (word_of_nat (le_nat xs) :: 'a :: len word)) = xs"
    if "length xs = n" "(256 :: nat) ^ n = 2 ^ LENGTH('a)" for n and xs :: "u8 list"
    using that le_nat_less [of xs] le_bytes_le_nat [of xs] by (simp add: unat_of_nat)
  have "head_bytes (bytes_head bs) = take 8 bs @ take 4 (drop 8 bs) @ take 8 (drop 12 bs) @ take 8 (drop 20 bs)"
    using assms by (simp add: head_bytes_def bytes_head_def HEAD_LEN_def part)
  also have "\<dots> = bs"
  proof -
    have "bs = take 8 bs @ drop 8 bs" "drop 8 bs = take 4 (drop 8 bs) @ drop 12 bs"
      "drop 12 bs = take 8 (drop 12 bs) @ drop 20 bs" "drop 20 bs = take 8 (drop 20 bs)"
      using assms append_take_drop_id [of 4 "drop 8 bs"] append_take_drop_id [of 8 "drop 12 bs"]
      by (simp_all add: HEAD_LEN_def)
    then show ?thesis
      by metis
  qed
  finally show ?thesis .
qed

section \<open>Reading\<close>

text \<open>\<open>EWOULDBLOCK\<close> is \<open>EAGAIN\<close> on the target.\<close>

datatype errno = EINTR | EAGAIN | EOTHER int

text \<open>What comes in at a descriptor: bytes, its end, a failing call.\<close>

datatype arrival = Data "u8 list" | Closed | Failed errno

datatype reading = Got "u8 list" | Fail errno

text \<open>
  \<^verbatim>\<open>read(fd, buf, want)\<close>: at most \<open>want\<close> of the bytes that came first; the others stay. \<open>None\<close>
  is a call for which nothing has arrived.
\<close>

fun sys_read :: "nat \<Rightarrow> arrival list \<Rightarrow> (reading \<times> arrival list) option" where
  "sys_read want [] = None"
| "sys_read want (Data bs # as) =
     (if length bs \<le> want then Some (Got bs, as) else Some (Got (take want bs), Data (drop want bs) # as))"
| "sys_read want (Closed # as) = Some (Got [], as)"
| "sys_read want (Failed e # as) = Some (Fail e, as)"

text \<open>Every call uses up an arrival, or leaves a smaller one.\<close>

lemma sys_read_measure:
  assumes "sys_read want as = Some (r, as')" "0 < want"
  shows "r = Fail e \<Longrightarrow> length as' < length as"
    and "r = Got bs \<Longrightarrow> length bs \<le> want \<and> want - length bs + length as' < want + length as"
  using assms by (cases "(want, as)" rule: sys_read.cases; auto split: if_splits)+

text \<open>
  \<open>uc_io_read\<close>: the bytes read so far, the arrivals, and in the result the return value, the bytes
  in the buffer and the \<open>closed\<close> flag. \<open>None\<close> is a call still waiting.
\<close>

function uc_io_read ::
  "nat \<Rightarrow> u8 list \<Rightarrow> arrival list \<Rightarrow> ((int \<times> u8 list \<times> bool) \<times> arrival list) option" where
  "uc_io_read left got as =
     (if left = 0 then Some ((0, got, False), as)
      else case sys_read left as of
        None \<Rightarrow> None
      | Some (Got bs, as') \<Rightarrow>
          if bs \<noteq> [] then uc_io_read (left - length bs) (got @ bs) as'
          else Some ((wrap_s32 (int left), got, True), as')
      | Some (Fail EINTR, as') \<Rightarrow> uc_io_read left got as'
      | Some (Fail EAGAIN, as') \<Rightarrow> Some ((wrap_s32 (int left), got, False), as')
      | Some (Fail (EOTHER e), as') \<Rightarrow> Some ((- 0x09ae5c0e, got, False), as'))"
  by pat_completeness auto
termination
  by (relation "measure (\<lambda>(left, got, as). left + length as)")
    (auto dest: sys_read_measure)

declare uc_io_read.simps [simp del]

text \<open>Bytes that come in pieces, possibly with interrupted calls between them.\<close>

fun calm :: "arrival \<Rightarrow> bool" where
  "calm (Data bs) = (bs \<noteq> [])"
| "calm (Failed e) = (e = EINTR)"
| "calm Closed = False"

fun stream_of :: "arrival list \<Rightarrow> u8 list" where
  "stream_of [] = []"
| "stream_of (Data bs # as) = bs @ stream_of as"
| "stream_of (a # as) = stream_of as"

lemma sys_read_calm:
  assumes "list_all calm as" "as \<noteq> []" "0 < want"
  obtains (got) bs as' where "sys_read want as = Some (Got bs, as')" "bs \<noteq> []" "length bs \<le> want"
      "stream_of as = bs @ stream_of as'" "list_all calm as'" "length as' \<le> length as"
      "want - length bs + length as' < want + length as"
    | (intr) as' where "sys_read want as = Some (Fail EINTR, as')" "stream_of as = stream_of as'"
      "list_all calm as'" "length as' < length as"
proof (cases as)
  case (Cons a rest)
  then show thesis
  proof (cases a)
    case (Data bs)
    show thesis
    proof (cases "length bs \<le> want")
      case True
      then show thesis
        using got [of bs rest] Cons Data assms by auto
    next
      case False
      then show thesis
        using got [of "take want bs" "Data (drop want bs) # rest"] Cons Data assms by auto
    qed
  next
    case (Failed e)
    then show thesis
      using intr [of rest] Cons assms(1) by auto
  qed (use Cons assms in auto)
qed (use assms in simp)

lemma uc_io_read_calm:
  assumes "list_all calm as" "left \<le> length (stream_of as)"
  shows "\<exists>as'. uc_io_read left got as = Some ((0, got @ take left (stream_of as), False), as') \<and>
    list_all calm as' \<and> stream_of as' = drop left (stream_of as)"
  using assms
proof (induction left got as rule: uc_io_read.induct)
  case (1 left got as)
  show ?case
  proof (cases "left = 0")
    case True
    then show ?thesis
      using "1.prems" by (simp add: uc_io_read.simps)
  next
    case False
    then have "as \<noteq> []"
      using "1.prems"(2) by auto
    from \<open>left \<noteq> 0\<close> have "0 < left"
      by simp
    from "1.prems"(1) \<open>as \<noteq> []\<close> this show ?thesis
    proof (cases rule: sys_read_calm)
      case (got bs as')
      have "\<exists>as2. uc_io_read (left - length bs) (got @ bs) as' =
          Some ((0, (got @ bs) @ take (left - length bs) (stream_of as'), False), as2) \<and>
          list_all calm as2 \<and> stream_of as2 = drop (left - length bs) (stream_of as')"
        using False got "1.prems"(2) by (intro "1.IH"(1) [OF _ got(1)]) auto
      then show ?thesis
        using False got by (simp add: uc_io_read.simps [of left])
    next
      case (intr as')
      then show ?thesis
        using False "1.IH"(2) [OF _ intr(1)] "1.prems"(2) by (simp add: uc_io_read.simps [of left])
    qed
  qed
qed

section \<open>Writing\<close>

text \<open>What \<^verbatim>\<open>write\<close> returns: how many of the bytes it took, or why it failed.\<close>

datatype wrote = Wrote nat | Wfailed errno

text \<open>\<open>uc_io_write\<close>: the bytes left, those written so far; \<open>None\<close> is a call still trying.\<close>

fun uc_io_write :: "u8 list \<Rightarrow> u8 list \<Rightarrow> wrote list \<Rightarrow> (int \<times> u8 list) option" where
  "uc_io_write left sent [] = (if left = [] then Some (0, sent) else None)"
| "uc_io_write left sent (w # ws) =
     (if left = [] then Some (0, sent)
      else case w of
        Wrote n \<Rightarrow>
          if n > 0 then uc_io_write (drop n left) (sent @ take n left) ws
          else Some (wrap_s32 (int (length left)), sent)
      | Wfailed EINTR \<Rightarrow> uc_io_write left sent ws
      | Wfailed EAGAIN \<Rightarrow> uc_io_write left sent ws
      | Wfailed (EOTHER e) \<Rightarrow> Some (- 0x11b0ae4f, sent))"

lemma uc_io_write_prefix:
  "uc_io_write left sent ws = Some (r, out) \<Longrightarrow> \<exists>rest. sent @ left = out @ rest \<and>
     (length left < 2 ^ 31 \<longrightarrow> r = 0 \<longleftrightarrow> rest = [])"
proof (induction left sent ws rule: uc_io_write.induct)
  case (2 left sent w ws)
  show ?case
  proof (cases "left = []")
    case True
    then show ?thesis
      using "2.prems" by simp
  next
    case False
    show ?thesis
    proof (cases w)
      case (Wrote n)
      show ?thesis
      proof (cases "n > 0")
        case True
        then show ?thesis
          using "2.IH"(1) [OF False Wrote True] "2.prems" False Wrote by fastforce
      next
        case 0: False
        then show ?thesis
          using "2.prems" False Wrote by auto
      qed
    next
      case (Wfailed e)
      then show ?thesis
        using "2.IH"(2,3) "2.prems" False by (cases e) auto
    qed
  qed
qed (auto split: if_splits)

section \<open>Random bytes\<close>

text \<open>
  \<open>uc_random\<close> and \<open>uc_urandom\<close>, which differ in the device they open: the loop goes on after an
  empty read too, and every call of it uses up an arrival.
\<close>

function random_loop :: "nat \<Rightarrow> u8 list \<Rightarrow> arrival list \<Rightarrow> u8 list option" where
  "random_loop left got as =
     (if left = 0 then Some got
      else case sys_read left as of
        None \<Rightarrow> None
      | Some (Got bs, as') \<Rightarrow> random_loop (left - length bs) (got @ bs) as'
      | Some (Fail (EOTHER e), as') \<Rightarrow> Some got
      | Some (Fail e, as') \<Rightarrow> random_loop left got as')"
  by pat_completeness auto
termination
  by (relation "measure (\<lambda>(left, got, as). left + length as)")
    (auto dest: sys_read_measure)

definition uc_random :: "bool \<Rightarrow> nat \<Rightarrow> arrival list \<Rightarrow> (int \<times> u8 list) option" where
  "uc_random open_ok len as =
     (if \<not> open_ok then Some (- 0x0fe3a13d, replicate len 0)
      else map_option (\<lambda>got. (if length got < len then - 0x5d4a2a08 else 0,
             got @ replicate (len - length got) 0)) (random_loop len [] as))"

definition uc_urandom :: "bool \<Rightarrow> nat \<Rightarrow> arrival list \<Rightarrow> (int \<times> u8 list) option" where
  "uc_urandom open_ok len as =
     (if \<not> open_ok then Some (- 0x0fe3a13d, replicate len 0)
      else map_option (\<lambda>got. (if length got < len then - 0x5d4a2a08 else 0,
             got @ replicate (len - length got) 0)) (random_loop len [] as))"

declare random_loop.simps [simp del]

lemma random_loop_length: "random_loop left got as = Some out \<Longrightarrow> length out \<le> left + length got"
proof (induction left got as rule: random_loop.induct)
  case (1 left got as)
  note unfold = random_loop.simps [of left got as]
  show ?case
  proof (cases "left = 0 \<or> sys_read left as = None")
    case True
    then show ?thesis
      using "1.prems" by (auto simp: unfold split: if_splits)
  next
    case False
    then obtain r as' where r: "left \<noteq> 0" "sys_read left as = Some (r, as')"
      by auto
    show ?thesis
    proof (cases r)
      case (Got bs)
      then have "length bs \<le> left" "random_loop (left - length bs) (got @ bs) as' = Some out"
        using r "1.prems" sys_read_measure(2) [OF r(2), of bs] by (simp_all add: unfold)
      then show ?thesis
        using "1.IH"(1) [OF r refl Got] Got by simp
    next
      case (Fail e)
      then show ?thesis
        using "1.IH"(2,3) r "1.prems" by (cases e) (auto simp: unfold)
    qed
  qed
qed

text \<open>The buffer is always filled to its length, with zeros where reading failed.\<close>

lemma uc_random_fills: "uc_random ok len as = Some (r, buf) \<Longrightarrow> length buf = len"
  by (auto simp: uc_random_def dest: random_loop_length split: if_splits)

end
