(* ===== verification/Ipc_Server.thy ===== *)
theory Ipc_Server
  imports Ipc_Wire
begin

text \<open>
  The IPC server (\<^verbatim>\<open>ipc/uc_ipc_server.c\<close>): the connections, the reassembly of messages from the
  pieces the socket delivers, the dispatch of complete messages, the callback's side of the pipe,
  and the replies. The handler is one record; the two hash tables are tables of \<open>Hash_Table\<close>, and
  a connection struct is looked up in \<open>clients\<close> by its address, so that a stale pointer shows.
\<close>

section \<open>State\<close>

text \<open>How a function can fail to return: a crash, or a write that is tried again and again.\<close>

datatype stop = Crashed crash | Spinning

definition no_crash :: "crash + 'a \<Rightarrow> stop + 'a" where
  "no_crash m = (case m of Inl e \<Rightarrow> Inl (Crashed e) | Inr x \<Rightarrow> Inr x)"

lemma no_crash_simps [simp]: "no_crash (Inr x) = Inr x" "no_crash (Inl e) = Inl (Crashed e)"
  by (simp_all add: no_crash_def)

record uc_ipc_cli =
  cli_fd :: int
  cli_uuid :: u64
  has_read :: u64
  head_done :: bool
  buf_done :: bool
  ipc_head :: "u8 list"
  cli_buf :: "u8 list option"

record uc_ipc_pipe_data =
  pd_uuid :: u64
  pd_head :: uc_ipc_proto_header
  pd_buf :: "u8 list option"
  return_addr :: "u8 list option"
  return_len :: u64

record uc_ipc_server_handler =
  clients :: "nat \<rightharpoonup> uc_ipc_cli"
  epoll_set :: "int \<rightharpoonup> nat"
  cli_info_hash :: "nat uc_hash_table"
  cli_fd_hash :: "int uc_hash_table"
  srv_seq_id :: u64
  pipe_msgs :: "uc_ipc_pipe_data list"
  incoming :: "int \<Rightarrow> arrival list"
  sent_to :: "int \<Rightarrow> u8 list"

text \<open>\<open>malloc\<close>: the memory it gives for a size, with whatever it holds.\<close>

type_synonym mallocs = "u64 \<Rightarrow> u8 list option"

text \<open>Writing to memory at an offset; outside the block it is undefined.\<close>

definition store_at :: "nat \<Rightarrow> u8 list \<Rightarrow> u8 list \<Rightarrow> crash + u8 list" where
  "store_at off mem bs =
     (if off + length bs \<le> length mem then Inr (take off mem @ bs @ drop (off + length bs) mem)
      else Inl Undefined_behaviour)"

section \<open>Sequence numbers, connections\<close>

definition uc_ipc_server_next_seq_id :: "uc_ipc_server_handler \<Rightarrow> u64 \<times> uc_ipc_server_handler" where
  "uc_ipc_server_next_seq_id hdl =
     (srv_seq_id hdl, hdl\<lparr>srv_seq_id := (let s = srv_seq_id hdl + 1 in
        if s < UC_IPC_SEQ_ID_MIN then UC_IPC_SEQ_ID_MIN else s)\<rparr>)"

definition uc_ipc_server_reset_cli_proto :: "uc_ipc_cli \<Rightarrow> uc_ipc_cli" where
  "uc_ipc_server_reset_cli_proto cli =
     cli\<lparr>has_read := 0, head_done := False, buf_done := False,
       ipc_head := replicate HEAD_LEN 0, cli_buf := None\<rparr>"

text \<open>Closing the descriptor takes it out of the \<open>epoll\<close> set; the deletion after it finds nothing.\<close>

definition uc_ipc_server_close_cli ::
  "uc_ipc_server_handler \<Rightarrow> nat \<Rightarrow> stop + uc_ipc_server_handler" where
  "uc_ipc_server_close_cli hdl ptr =
     (case clients hdl ptr of
        None \<Rightarrow> Inl (Crashed Undefined_behaviour)
      | Some cli \<Rightarrow>
          run_bind (no_crash (uc_hash_delete (cli_fd_hash hdl) (key_u64 (cli_uuid cli)))) (\<lambda>(r1, fdh, fds).
          run_bind (no_crash (uc_hash_delete (cli_info_hash hdl) (key_u64 (cli_uuid cli)))) (\<lambda>(r2, infoh, freed).
            let wiped = (uc_ipc_server_reset_cli_proto cli)\<lparr>cli_fd := - 1, cli_uuid := 0\<rparr>
            in Inr (hdl\<lparr>cli_fd_hash := fdh, cli_info_hash := infoh,
                 clients := (\<lambda>p. if p \<in> set freed then None
                   else if p = ptr then Some wiped else clients hdl p),
                 epoll_set := (epoll_set hdl)(cli_fd cli := None)\<rparr>))))"

section \<open>Reading\<close>

text \<open>The header's fields as they are in the partly read struct.\<close>

definition cli_head :: "uc_ipc_cli \<Rightarrow> uc_ipc_proto_header" where
  "cli_head cli = bytes_head (ipc_head cli)"

definition SIZEOF_HEAD :: u64 where "SIZEOF_HEAD = 28"

text \<open>How much the next \<open>read\<close> asks for; \<open>None\<close> when header and payload are complete.\<close>

definition read_want :: "uc_ipc_cli \<Rightarrow> nat option" where
  "read_want cli =
     (if \<not> head_done cli then Some (unat (SIZEOF_HEAD - has_read cli))
      else if \<not> buf_done cli then
        Some (min (unat (head_ttl (cli_head cli) - (has_read cli - SIZEOF_HEAD))) UC_IPC_MSG_READ_BLOCK_LEN_MAX)
      else None)"

text \<open>Where the bytes go.\<close>

definition read_store :: "uc_ipc_cli \<Rightarrow> u8 list \<Rightarrow> crash + uc_ipc_cli" where
  "read_store cli bs =
     (if \<not> head_done cli then
        run_bind (store_at (unat (has_read cli)) (ipc_head cli) bs) (\<lambda>m. Inr (cli\<lparr>ipc_head := m\<rparr>))
      else (case cli_buf cli of
        None \<Rightarrow> Inl Undefined_behaviour
      | Some mem \<Rightarrow>
          run_bind (store_at (unat (has_read cli - SIZEOF_HEAD)) mem bs) (\<lambda>m. Inr (cli\<lparr>cli_buf := Some m\<rparr>))))"

text \<open>
  What follows a successful read; no return value means another round of the loop. Before it returns a
  negative value the code closes the connection and prints, which is left to \<open>uc_ipc_server_read_client\<close>.
\<close>

definition read_end :: "nat \<Rightarrow> nat \<Rightarrow> uc_ipc_cli \<Rightarrow> int option \<times> uc_ipc_cli" where
  "read_end want n cli =
     (if buf_done cli then (Some 1, cli) else if n < want then (Some 0, cli) else (None, cli))"

definition read_account :: "mallocs \<Rightarrow> nat \<Rightarrow> nat \<Rightarrow> uc_ipc_cli \<Rightarrow> int option \<times> uc_ipc_cli" where
  "read_account mal want n cli0 =
     (let cli = cli0\<lparr>has_read := has_read cli0 + word_of_nat n\<rparr>; ttl = head_ttl (cli_head cli)
      in if \<not> head_done cli then
           if has_read cli = SIZEOF_HEAD then
             if has_read cli = SIZEOF_HEAD + ttl then
               read_end want n (cli\<lparr>head_done := True, cli_buf := None, buf_done := True\<rparr>)
             else (case mal ttl of
               None \<Rightarrow> (Some (- 0x48a6af21), cli\<lparr>head_done := True, cli_buf := None\<rparr>)
             | Some mem \<Rightarrow> read_end want n (cli\<lparr>head_done := True, cli_buf := Some mem\<rparr>))
           else if has_read cli > SIZEOF_HEAD then (Some (- 0x4a9e0f3d), cli)
           else (Some 0, cli)
         else if \<not> buf_done cli then
           if has_read cli = SIZEOF_HEAD + ttl then read_end want n (cli\<lparr>buf_done := True\<rparr>)
           else if has_read cli > SIZEOF_HEAD + ttl then (Some (- 0x73978bc5), cli)
           else (Some 0, cli)
         else read_end want n cli)"

text \<open>Each round uses up part of what has arrived.\<close>

fun weight :: "arrival list \<Rightarrow> nat" where
  "weight [] = 0"
| "weight (Data bs # as) = Suc (length bs + weight as)"
| "weight (a # as) = Suc (weight as)"

lemma sys_read_weight:
  "sys_read want as = Some (Got bs, as') \<Longrightarrow> bs \<noteq> [] \<Longrightarrow> weight as' < weight as"
  "sys_read want as = Some (Fail e, as') \<Longrightarrow> weight as' < weight as"
  by (cases "(want, as)" rule: sys_read.cases; auto split: if_splits)+

text \<open>
  The loop of \<open>uc_ipc_server_read_client\<close> on the connection's struct, up to the point where the function
  ends. Where the result is negative the function closes the connection and prints before it returns:
  that is done by \<open>uc_ipc_server_read_client\<close> below, on the handler. The socket does not block.
\<close>

function cli_read :: "mallocs \<Rightarrow> uc_ipc_cli \<Rightarrow> arrival list \<Rightarrow> crash + int \<times> uc_ipc_cli \<times> arrival list" where
  "cli_read mal cli as =
     (case read_want cli of
        None \<Rightarrow> Inr (- 0x34a82f5c, cli, as)
      | Some want \<Rightarrow>
          (case sys_read want as of
             None \<Rightarrow> Inr (0, cli, as)
           | Some (Got bs, as') \<Rightarrow>
               if bs = [] then Inr (- 0x46dd3fd2, cli, as')
               else run_bind (read_store cli bs) (\<lambda>cli1.
                 case read_account mal want (length bs) cli1 of
                   (Some ret, cli2) \<Rightarrow> Inr (ret, cli2, as')
                 | (None, cli2) \<Rightarrow> cli_read mal cli2 as')
           | Some (Fail EINTR, as') \<Rightarrow> cli_read mal cli as'
           | Some (Fail EAGAIN, as') \<Rightarrow> Inr (0, cli, as')
           | Some (Fail (EOTHER e), as') \<Rightarrow> Inr (- 0x31ecfc83, cli, as')))"
  by pat_completeness auto
termination
  by (relation "measure (\<lambda>(mal, cli, as). weight as)") (auto dest: sys_read_weight)

declare cli_read.simps [simp del]

text \<open>The results before which the function prints fields of the struct, after the connection is closed.\<close>

definition prints_cli :: "int \<Rightarrow> bool" where
  "prints_cli ret \<longleftrightarrow> ret = - 0x48a6af21 \<or> ret = - 0x4a9e0f3d \<or> ret = - 0x73978bc5"

text \<open>
  What has arrived at the descriptor is read; the rest stays with the kernel. Closing frees the struct when
  it is found in \<open>cli_info_hash\<close>; printing its fields then is undefined.
\<close>

definition uc_ipc_server_read_client ::
  "mallocs \<Rightarrow> uc_ipc_server_handler \<Rightarrow> nat \<Rightarrow> stop + int \<times> uc_ipc_server_handler" where
  "uc_ipc_server_read_client mal hdl ptr =
     (case clients hdl ptr of
        None \<Rightarrow> Inl (Crashed Undefined_behaviour)
      | Some cli \<Rightarrow>
          run_bind (no_crash (cli_read mal cli (incoming hdl (cli_fd cli)))) (\<lambda>(ret, cli', as').
            let hdl' = hdl\<lparr>clients := (clients hdl)(ptr \<mapsto> cli'),
                  incoming := (incoming hdl)(cli_fd cli := as')\<rparr>
            in if ret < 0 then run_bind (uc_ipc_server_close_cli hdl' ptr) (\<lambda>h.
                 if prints_cli ret \<and> clients h ptr = None then Inl (Crashed Undefined_behaviour) else Inr (ret, h))
               else Inr (ret, hdl')))"

section \<open>Sending\<close>

text \<open>The packet in freshly allocated memory; without a payload to copy its end stays as it was.\<close>

definition build_packet ::
  "u8 list \<Rightarrow> uc_ipc_proto_header \<Rightarrow> u8 list option \<Rightarrow> u64 \<Rightarrow> crash + u8 list" where
  "build_packet mem head buf len =
     run_bind (store_at 0 mem (head_bytes head)) (\<lambda>mem1.
       case buf of
         None \<Rightarrow> Inr mem1
       | Some b \<Rightarrow>
           if len = 0 then Inr mem1
           else if length b < unat len then Inl Undefined_behaviour
           else store_at HEAD_LEN mem1 (take (unat len) b))"

text \<open>The write is done under the lock of the descriptors; \<open>Spinning\<close> is one still trying.\<close>

definition uc_ipc_server_send_msg ::
  "mallocs \<Rightarrow> wrote list \<Rightarrow> uc_ipc_server_handler \<Rightarrow> u64 \<Rightarrow> u64 \<Rightarrow> u32 \<Rightarrow> u8 list option \<Rightarrow> u64 \<Rightarrow>
   stop + int \<times> uc_ipc_server_handler" where
  "uc_ipc_server_send_msg mal ws hdl uuid ack_id mtype buf len =
     (let (seq_id, hdl1) = uc_ipc_server_next_seq_id hdl
      in case mal (SIZEOF_HEAD + len) of
           None \<Rightarrow> Inr (- 0x1f9385ca, hdl1)
         | Some mem \<Rightarrow>
             run_bind (no_crash (build_packet mem
               \<lparr>head_ttl = len, head_msg_type = mtype, head_seq_id = seq_id, head_ack_id = ack_id\<rparr> buf len))
               (\<lambda>data. run_bind (no_crash (uc_hash_find (cli_fd_hash hdl1) (key_u64 uuid))) (\<lambda>node.
                 case node of
                   None \<Rightarrow> Inr (- 0x5e8ef49f, hdl1)
                 | Some n \<Rightarrow>
                     (case uc_hash_node_val (cli_fd_hash hdl1) n of
                        None \<Rightarrow> Inl (Crashed Undefined_behaviour)
                      | Some fd \<Rightarrow>
                          (case uc_io_write data [] ws of
                             None \<Rightarrow> Inl Spinning
                           | Some (ret, out) \<Rightarrow>
                               Inr (ret, hdl1\<lparr>sent_to := (sent_to hdl1)(fd := sent_to hdl1 fd @ out)\<rparr>))))))"

definition uc_ipc_server_send_ack ::
  "mallocs \<Rightarrow> wrote list \<Rightarrow> uc_ipc_server_handler \<Rightarrow> u64 \<Rightarrow> u64 \<Rightarrow> stop + int \<times> uc_ipc_server_handler" where
  "uc_ipc_server_send_ack mal ws hdl uuid ack_id =
     run_bind (uc_ipc_server_send_msg mal ws hdl uuid ack_id uc_ipc_msg_type_async_ack None 0)
       (\<lambda>(ret, h). Inr (if ret \<noteq> 0 then - 0x274ceea5 else ret, h))"

section \<open>Handling a message\<close>

text \<open>A pointer to a message, \<open>None\<close> once it is freed; using it then is undefined.\<close>

definition msg_at :: "uc_ipc_pipe_data option \<Rightarrow> stop + uc_ipc_pipe_data" where
  "msg_at m = (case m of None \<Rightarrow> Inl (Crashed Undefined_behaviour) | Some pd \<Rightarrow> Inr pd)"

lemma msg_at_simps [simp]: "msg_at (Some pd) = Inr pd" "msg_at None = Inl (Crashed Undefined_behaviour)"
  by (simp_all add: msg_at_def)

definition uc_ipc_server_free_pipe_msg :: "uc_ipc_pipe_data option \<Rightarrow> stop + uc_ipc_pipe_data option" where
  "uc_ipc_server_free_pipe_msg m = run_bind (msg_at m) (\<lambda>pd. Inr None)"

definition uc_ipc_server_heartbeat_cb ::
  "mallocs \<Rightarrow> wrote list \<Rightarrow> uc_ipc_server_handler \<Rightarrow> uc_ipc_pipe_data \<Rightarrow>
   stop + uc_ipc_pipe_data \<times> uc_ipc_server_handler" where
  "uc_ipc_server_heartbeat_cb mal ws hdl pd0 =
     (let pd = pd0\<lparr>return_len := head_ttl (pd_head pd0)\<rparr>
      in run_bind
        (if return_len pd \<noteq> 0 then
           case mal (return_len pd) of
             None \<Rightarrow> Inr None
           | Some mem \<Rightarrow>
               (case pd_buf pd of
                  None \<Rightarrow> Inl (Crashed Undefined_behaviour)
                | Some b \<Rightarrow>
                    if length b < unat (return_len pd) then Inl (Crashed Undefined_behaviour)
                    else run_bind (no_crash (store_at 0 mem (take (unat (return_len pd)) b)))
                      (\<lambda>m. Inr (Some (pd\<lparr>return_addr := Some m\<rparr>))))
         else Inr (Some pd))
        (\<lambda>r. case r of
           None \<Rightarrow> Inr (pd, hdl)
         | Some pd2 \<Rightarrow>
             run_bind (uc_ipc_server_send_msg mal ws hdl (pd_uuid pd2) (head_seq_id (pd_head pd2))
               uc_ipc_msg_type_heartbeat (return_addr pd2) (return_len pd2))
               (\<lambda>(ret, h). Inr (pd2, h))))"

text \<open>
  Handing the pointer over to the callback's thread: 8 bytes into the pipe. \<open>pw\<close> is what the
  kernel makes of the write.
\<close>

definition pipe_write :: "wrote list \<Rightarrow> uc_ipc_server_handler \<Rightarrow> uc_ipc_pipe_data \<Rightarrow> stop + int \<times> uc_ipc_server_handler" where
  "pipe_write pw hdl pd =
     (case uc_io_write (replicate 8 0) [] pw of
        None \<Rightarrow> Inl Spinning
      | Some (ret, out) \<Rightarrow>
          Inr (ret, if ret = 0 then hdl\<lparr>pipe_msgs := pipe_msgs hdl @ [pd]\<rparr> else hdl))"

text \<open>
  The dispatch. The build defines \<open>IPC_DEBUG_IO\<close>, so messages of type void are counted and freed;
  the invalid message is freed before its type is printed.
\<close>

definition uc_ipc_server_handle_client_msg ::
  "mallocs \<Rightarrow> bool \<Rightarrow> wrote list \<Rightarrow> wrote list \<Rightarrow> uc_ipc_server_handler \<Rightarrow> nat \<Rightarrow>
   stop + int \<times> uc_ipc_server_handler" where
  "uc_ipc_server_handle_client_msg mal mem_ok ws pw hdl ptr =
     (case clients hdl ptr of
        None \<Rightarrow> Inl (Crashed Undefined_behaviour)
      | Some cli \<Rightarrow>
          if \<not> buf_done cli then Inr (- 0x33a51be5, hdl)
          else
            let reset = hdl\<lparr>clients := (clients hdl)(ptr \<mapsto> uc_ipc_server_reset_cli_proto cli)\<rparr>
            in if \<not> mem_ok then Inr (- 0x19171e01, reset)
               else
                 let pd = \<lparr>pd_uuid = cli_uuid cli, pd_head = cli_head cli, pd_buf = cli_buf cli,
                       return_addr = None, return_len = 0\<rparr>;
                     mtype = head_msg_type (pd_head pd)
                 in if mtype = uc_ipc_msg_type_heartbeat then
                      run_bind (uc_ipc_server_heartbeat_cb mal ws reset pd) (\<lambda>(pd2, h).
                      run_bind (uc_ipc_server_free_pipe_msg (Some pd2)) (\<lambda>m. Inr (0, h)))
                    else if mtype = uc_ipc_msg_type_void then
                      run_bind (uc_ipc_server_free_pipe_msg (Some pd)) (\<lambda>m. Inr (0, reset))
                    else if mtype = uc_ipc_msg_type_async_send then
                      run_bind (uc_ipc_server_send_ack mal ws reset (cli_uuid cli) (head_seq_id (pd_head pd)))
                        (\<lambda>(r, h). run_bind (pipe_write pw h pd) (\<lambda>(ret, h2).
                          if ret \<noteq> 0 then run_bind (uc_ipc_server_free_pipe_msg (Some pd)) (\<lambda>m. Inr (0, h2))
                          else Inr (0, h2)))
                    else if mtype = uc_ipc_msg_type_sync_send then
                      run_bind (pipe_write pw reset pd) (\<lambda>(ret, h).
                        if ret \<noteq> 0 then
                          run_bind (uc_ipc_server_free_pipe_msg (Some pd)) (\<lambda>m. Inr (- 0x5afb2312, h))
                        else Inr (0, h))
                    else
                      run_bind (uc_ipc_server_free_pipe_msg (Some pd)) (\<lambda>m.
                      run_bind (msg_at m) (\<lambda>pd2. Inr (- 0x0421a96f, reset))))"

section \<open>The callback's thread\<close>

text \<open>The user's callback: what it puts into the return fields.\<close>

type_synonym callback = "u32 \<Rightarrow> u8 list option \<Rightarrow> u64 \<Rightarrow> u8 list option \<times> u64"

definition uc_ipc_server_loop_callback ::
  "mallocs \<Rightarrow> wrote list \<Rightarrow> callback \<Rightarrow> uc_ipc_server_handler \<Rightarrow> stop + uc_ipc_server_handler" where
  "uc_ipc_server_loop_callback mal ws cb hdl0 =
     (case pipe_msgs hdl0 of
        [] \<Rightarrow> Inr hdl0
      | pd # rest \<Rightarrow>
          let hdl = hdl0\<lparr>pipe_msgs := rest\<rparr>; mtype = head_msg_type (pd_head pd)
          in run_bind
            (if mtype = uc_ipc_msg_type_void \<or> mtype = uc_ipc_msg_type_async_send then
               let (addr, len) = cb mtype (pd_buf pd) (head_ttl (pd_head pd))
               in Inr (pd\<lparr>return_addr := addr, return_len := len\<rparr>, hdl)
             else if mtype = uc_ipc_msg_type_sync_send then
               let (addr, len) = cb mtype (pd_buf pd) (head_ttl (pd_head pd))
               in run_bind (uc_ipc_server_send_msg mal ws hdl (pd_uuid pd) (head_seq_id (pd_head pd))
                    uc_ipc_msg_type_sync_ack addr len)
                  (\<lambda>(r, h). Inr (pd\<lparr>return_addr := addr, return_len := len\<rparr>, h))
             else Inr (pd, hdl))
            (\<lambda>(pd2, h). run_bind (uc_ipc_server_free_pipe_msg (Some pd2)) (\<lambda>m. Inr h)))"

section \<open>Accepting a connection, the event loop\<close>

text \<open>
  What the calls of \<open>uc_ipc_server_accept_client\<close> give: the descriptor and the peer's address and
  port, the address of the new struct, whether \<open>/dev/urandom\<close> opens and what it holds, whether the
  registration and the second allocation succeed, and the nodes of the two tables.
\<close>

record accept_env =
  ac_fd :: "(int \<times> u32 \<times> u16) option"
  ac_cli :: "nat option"
  ac_open :: bool
  ac_random :: "arrival list"
  ac_epoll :: bool
  ac_fd_mem :: bool
  ac_node_fd :: node_alloc
  ac_node_info :: node_alloc

text \<open>The fallback shifts by 16 plus the port: \<open>+\<close> binds tighter than \<open><<\<close>.\<close>

definition fallback_uuid :: "u32 \<Rightarrow> u16 \<Rightarrow> crash + u64" where
  "fallback_uuid addr port =
     (if 16 + unat port \<ge> 32 then Inl Undefined_behaviour
      else Inr (ucast (push_bit (16 + unat port) addr)))"

definition uc_ipc_server_accept_client ::
  "accept_env \<Rightarrow> uc_ipc_server_handler \<Rightarrow> stop + int \<times> uc_ipc_server_handler" where
  "uc_ipc_server_accept_client e hdl =
     (case ac_fd e of
        None \<Rightarrow> Inr (- 0x4f5d7da6, hdl)
      | Some (fd, addr, port) \<Rightarrow>
          (case ac_cli e of
             None \<Rightarrow> Inr (- 0x1d008be0, hdl)
           | Some ptr \<Rightarrow>
               run_bind
                 (case uc_urandom (ac_open e) 8 (ac_random e) of
                    None \<Rightarrow> Inl Spinning
                  | Some (ret, buf) \<Rightarrow>
                      if ret \<noteq> 0 then no_crash (fallback_uuid addr port) else Inr (word_of_nat (le_nat buf)))
                 (\<lambda>uuid.
                   let cli = \<lparr>cli_fd = fd, cli_uuid = uuid, has_read = 0, head_done = False,
                         buf_done = False, ipc_head = replicate HEAD_LEN 0, cli_buf = None\<rparr>;
                       reg = hdl\<lparr>clients := (clients hdl)(ptr \<mapsto> cli), epoll_set := (epoll_set hdl)(fd \<mapsto> ptr)\<rparr>
                   in if \<not> ac_epoll e then Inr (- 0x59f07af6, hdl)
                      else if \<not> ac_fd_mem e then Inr (- 0x70a1fdb5, hdl)
                      else run_bind (no_crash (uc_hash_insert (ac_node_fd e) (cli_fd_hash reg) (key_u64 uuid) (Some fd)))
                        (\<lambda>(r1, fdh, f1).
                          run_bind (no_crash (uc_hash_insert (ac_node_info e) (cli_info_hash reg) (key_u64 uuid) (Some ptr)))
                            (\<lambda>(r2, infoh, f2).
                              Inr (if r2 \<noteq> 0 then - 0x59b70e22 else 0,
                                reg\<lparr>cli_fd_hash := fdh, cli_info_hash := infoh,
                                  clients := (\<lambda>p. if p \<in> set f2 \<and> p \<noteq> ptr then None else clients reg p)\<rparr>))))))"

text \<open>
  What \<open>uc_ipc_server_loop_rcv\<close> sees: the listening socket is ready, a client's is; and between its
  rounds more input arrives at a descriptor.
\<close>

datatype event = Listening accept_env | Ready nat bool "wrote list" "wrote list" | Arrive int arrival

definition loop_rcv_event :: "mallocs \<Rightarrow> uc_ipc_server_handler \<Rightarrow> event \<Rightarrow> stop + uc_ipc_server_handler" where
  "loop_rcv_event mal hdl ev =
     (case ev of
        Listening e \<Rightarrow> run_bind (uc_ipc_server_accept_client e hdl) (\<lambda>(r, h). Inr h)
      | Ready ptr mem_ok ws pw \<Rightarrow>
          run_bind (uc_ipc_server_read_client mal hdl ptr) (\<lambda>(ret, h).
            if ret > 0 then
              run_bind (uc_ipc_server_handle_client_msg mal mem_ok ws pw h ptr) (\<lambda>(r, h2). Inr h2)
            else Inr h)
      | Arrive fd a \<Rightarrow> Inr (hdl\<lparr>incoming := (incoming hdl)(fd := incoming hdl fd @ [a])\<rparr>))"

fun uc_ipc_server_loop_rcv :: "mallocs \<Rightarrow> uc_ipc_server_handler \<Rightarrow> event list \<Rightarrow> stop + uc_ipc_server_handler" where
  "uc_ipc_server_loop_rcv mal hdl [] = Inr hdl"
| "uc_ipc_server_loop_rcv mal hdl (ev # evs) =
     run_bind (loop_rcv_event mal hdl ev) (\<lambda>h. uc_ipc_server_loop_rcv mal h evs)"

end
