(* ===== verification/Ipc_Reader.thy ===== *)
theory Ipc_Reader
  imports Ipc_Server
begin

text \<open>
  The server's reader: a connection's struct stays well formed whatever arrives, no byte is stored
  outside its buffers, and however the kernel cuts the stream into pieces, the messages come out
  as they went in.
\<close>

section \<open>Well-formed connections\<close>

text \<open>Memory from \<open>malloc\<close> has the size asked for, and no request above \<open>PTRDIFF_MAX\<close> is served.\<close>

definition mallocs_ok :: "mallocs \<Rightarrow> bool" where
  "mallocs_ok mal \<longleftrightarrow> (\<forall>n mem. mal n = Some mem \<longrightarrow> length mem = unat n \<and> unat n < 2 ^ 63)"

definition buf_bytes :: "u8 list option \<Rightarrow> u8 list" where
  "buf_bytes b = (case b of None \<Rightarrow> [] | Some mem \<Rightarrow> mem)"

lemma buf_bytes_simps [simp]: "buf_bytes None = []" "buf_bytes (Some mem) = mem"
  by (simp_all add: buf_bytes_def)

text \<open>The bytes of the current message read so far.\<close>

definition sofar :: "uc_ipc_cli \<Rightarrow> u8 list" where
  "sofar cli = take (unat (has_read cli)) (ipc_head cli @ buf_bytes (cli_buf cli))"

abbreviation cli_ttl :: "uc_ipc_cli \<Rightarrow> nat" where
  "cli_ttl cli \<equiv> unat (head_ttl (cli_head cli))"

definition head_phase :: "uc_ipc_cli \<Rightarrow> bool" where
  "head_phase cli \<longleftrightarrow> \<not> head_done cli \<and> \<not> buf_done cli \<and> cli_buf cli = None \<and> unat (has_read cli) < HEAD_LEN"

definition buf_phase :: "uc_ipc_cli \<Rightarrow> bool" where
  "buf_phase cli \<longleftrightarrow> head_done cli \<and> \<not> buf_done cli \<and> cli_ttl cli < 2 ^ 63 \<and>
     HEAD_LEN \<le> unat (has_read cli) \<and> unat (has_read cli) < HEAD_LEN + cli_ttl cli \<and>
     (\<exists>mem. cli_buf cli = Some mem \<and> length mem = cli_ttl cli)"

definition full_phase :: "uc_ipc_cli \<Rightarrow> bool" where
  "full_phase cli \<longleftrightarrow> head_done cli \<and> buf_done cli \<and> cli_ttl cli < 2 ^ 63 \<and>
     unat (has_read cli) = HEAD_LEN + cli_ttl cli \<and> length (buf_bytes (cli_buf cli)) = cli_ttl cli \<and>
     (cli_ttl cli \<noteq> 0 \<longrightarrow> cli_buf cli \<noteq> None)"

definition cli_ok :: "uc_ipc_cli \<Rightarrow> bool" where
  "cli_ok cli \<longleftrightarrow> length (ipc_head cli) = HEAD_LEN \<and> (head_phase cli \<or> buf_phase cli \<or> full_phase cli)"

lemma cli_ok_phases:
  assumes "cli_ok cli" "\<not> buf_done cli"
  shows "length (ipc_head cli) = HEAD_LEN" "head_phase cli \<or> buf_phase cli"
  using assms by (auto simp: cli_ok_def full_phase_def)

lemma cli_ok_reset [simp]: "cli_ok (uc_ipc_server_reset_cli_proto cli)"
  by (simp add: cli_ok_def head_phase_def uc_ipc_server_reset_cli_proto_def HEAD_LEN_def)

lemma sofar_reset [simp]: "sofar (uc_ipc_server_reset_cli_proto cli) = []"
  by (simp add: sofar_def uc_ipc_server_reset_cli_proto_def)

lemma unat_SIZEOF_HEAD: "unat SIZEOF_HEAD = HEAD_LEN"
  by (simp add: SIZEOF_HEAD_def HEAD_LEN_def)

lemma read_want_head: "head_phase cli \<Longrightarrow> read_want cli = Some (HEAD_LEN - unat (has_read cli))"
  using unat_sub [of "has_read cli" SIZEOF_HEAD]
  by (simp add: head_phase_def read_want_def word_le_nat_alt unat_SIZEOF_HEAD)

lemma read_off_buf: "buf_phase cli \<Longrightarrow> unat (has_read cli - SIZEOF_HEAD) = unat (has_read cli) - HEAD_LEN"
  using unat_sub [of SIZEOF_HEAD "has_read cli"]
  by (simp add: buf_phase_def word_le_nat_alt unat_SIZEOF_HEAD)

lemma read_want_buf:
  assumes "buf_phase cli"
  shows "read_want cli = Some (min (cli_ttl cli - (unat (has_read cli) - HEAD_LEN)) UC_IPC_MSG_READ_BLOCK_LEN_MAX)"
proof -
  have "has_read cli - SIZEOF_HEAD \<le> head_ttl (cli_head cli)"
    using assms read_off_buf [OF assms] unfolding word_le_nat_alt buf_phase_def by linarith
  then show ?thesis
    using assms read_off_buf [OF assms] by (simp add: read_want_def buf_phase_def unat_sub)
qed

lemma read_want_pos:
  assumes "cli_ok cli" "\<not> buf_done cli"
  obtains want where "read_want cli = Some want" "0 < want"
proof -
  from cli_ok_phases(2) [OF assms] show thesis
  proof
    assume "head_phase cli"
    then show thesis
      using that read_want_head by (simp add: head_phase_def)
  next
    assume "buf_phase cli"
    then show thesis
      using that read_want_buf [of cli] by (auto simp: buf_phase_def UC_IPC_MSG_READ_BLOCK_LEN_MAX_def)
  qed
qed

lemma store_at_ok:
  "off + length bs \<le> length mem \<Longrightarrow>
   \<exists>m. store_at off mem bs = Inr m \<and> length m = length mem \<and> take (off + length bs) m = take off mem @ bs"
  by (simp add: store_at_def)

lemma has_read_add:
  assumes "unat (has_read cli) + n < 2 ^ 64"
  shows "unat (has_read cli + word_of_nat n) = unat (has_read cli) + n"
proof -
  have "unat (word_of_nat n :: u64) = n"
    using assms by (simp add: unat_of_nat)
  then show ?thesis
    using assms by (simp add: unat_plus_if')
qed

section \<open>One read\<close>

text \<open>How the loop goes on after bytes have come: the connection's next state, and what is returned.\<close>

definition read_step :: "mallocs \<Rightarrow> nat \<Rightarrow> uc_ipc_cli \<Rightarrow> u8 list \<Rightarrow> crash + int option \<times> uc_ipc_cli" where
  "read_step mal want cli bs = run_bind (read_store cli bs) (\<lambda>cli1. Inr (read_account mal want (length bs) cli1))"

definition step_ok :: "mallocs \<Rightarrow> uc_ipc_cli \<Rightarrow> u8 list \<Rightarrow> int option \<Rightarrow> uc_ipc_cli \<Rightarrow> bool" where
  "step_ok mal cli bs r cli' \<longleftrightarrow> cli_fd cli' = cli_fd cli \<and> cli_uuid cli' = cli_uuid cli \<and>
     (sofar cli' = sofar cli @ bs \<and> cli_ok cli' \<and>
      (r = None \<and> \<not> buf_done cli' \<or> r = Some 0 \<and> \<not> buf_done cli' \<or> r = Some 1 \<and> buf_done cli') \<or>
      r = Some (- 0x48a6af21) \<and> mal (head_ttl (bytes_head (sofar cli @ bs))) = None \<and>
      length (sofar cli @ bs) = HEAD_LEN \<and> head_ttl (bytes_head (sofar cli @ bs)) \<noteq> 0)"

lemma read_step_head:
  assumes len: "length (ipc_head cli) = HEAD_LEN" and ph: "head_phase cli" and mal: "mallocs_ok mal"
    and bs: "bs \<noteq> []" "length bs \<le> HEAD_LEN - unat (has_read cli)"
  shows "\<exists>r cli'. read_step mal (HEAD_LEN - unat (has_read cli)) cli bs = Inr (r, cli') \<and> step_ok mal cli bs r cli'"
proof -
  let ?R = "unat (has_read cli)"
  have R: "?R < HEAD_LEN" and flags: "\<not> head_done cli" "\<not> buf_done cli" "cli_buf cli = None"
    using ph by (simp_all add: head_phase_def)
  have le: "?R + length bs \<le> length (ipc_head cli)"
    using bs(2) R len by linarith
  then obtain m where m: "store_at ?R (ipc_head cli) bs = Inr m" "length m = HEAD_LEN"
    "take (?R + length bs) m = take ?R (ipc_head cli) @ bs"
    using store_at_ok len by metis
  define c1 where "c1 = cli\<lparr>ipc_head := m, has_read := has_read cli + word_of_nat (length bs)\<rparr>"
  have h: "unat (has_read c1) = ?R + length bs"
    using has_read_add [of cli "length bs"] bs(2) R by (simp add: c1_def HEAD_LEN_def)
  have step: "read_step mal w cli bs = Inr (read_account mal w (length bs) (cli\<lparr>ipc_head := m\<rparr>))" for w
    using m(1) flags by (simp add: read_step_def read_store_def)
  have sofar: "sofar cli = take ?R (ipc_head cli)"
    by (simp add: sofar_def flags)
  show ?thesis
  proof (cases "?R + length bs = HEAD_LEN")
    case False
    then have "has_read c1 \<noteq> SIZEOF_HEAD" "\<not> SIZEOF_HEAD < has_read c1"
      using h le len by (auto simp: word_less_nat_alt unat_SIZEOF_HEAD)
    then have "read_account mal w (length bs) (cli\<lparr>ipc_head := m\<rparr>) = (Some 0, c1)" for w
      using flags by (simp add: read_account_def c1_def Let_def)
    moreover have "cli_ok c1" "sofar c1 = sofar cli @ bs" "\<not> buf_done c1" "cli_fd c1 = cli_fd cli" "cli_uuid c1 = cli_uuid cli"
      using m h False le len flags sofar
      by (simp_all add: cli_ok_def head_phase_def sofar_def) (simp_all add: c1_def)
    ultimately show ?thesis
      unfolding step by (auto simp: step_ok_def)
  next
    case True
    then have full: "has_read c1 = SIZEOF_HEAD" and all: "m = sofar cli @ bs"
      using h m(2,3) sofar by (simp_all add: word_unat_eq_iff unat_SIZEOF_HEAD)
    let ?ttl = "head_ttl (bytes_head m)"
    consider (none) "?ttl = 0" | (fail) "?ttl \<noteq> 0" "mal ?ttl = None"
      | (some) mem where "?ttl \<noteq> 0" "mal ?ttl = Some mem" "length mem = unat ?ttl" "unat ?ttl < 2 ^ 63"
      using mal unfolding mallocs_ok_def by fastforce
    then show ?thesis
    proof cases
      case none
      let ?c = "c1\<lparr>head_done := True, cli_buf := None, buf_done := True\<rparr>"
      have "read_account mal w (length bs) (cli\<lparr>ipc_head := m\<rparr>) = (Some 1, ?c)" for w
        using flags full none by (simp add: read_account_def c1_def Let_def cli_head_def read_end_def)
      moreover have "cli_ok ?c" "sofar ?c = sofar cli @ bs"
        using m(2) h True all none by (simp_all add: cli_ok_def full_phase_def cli_head_def c1_def sofar_def)
      ultimately show ?thesis
        unfolding step by (auto simp: step_ok_def c1_def)
    next
      case fail
      have "\<exists>c. read_account mal w (length bs) (cli\<lparr>ipc_head := m\<rparr>) = (Some (- 0x48a6af21), c) \<and>
          cli_fd c = cli_fd cli \<and> cli_uuid c = cli_uuid cli" for w
        using flags full fail by (simp add: read_account_def c1_def Let_def cli_head_def)
      then show ?thesis
        unfolding step using fail all m(2) by (fastforce simp: step_ok_def)
    next
      case some
      let ?c = "c1\<lparr>head_done := True, cli_buf := Some mem\<rparr>"
      have "read_account mal (HEAD_LEN - ?R) (length bs) (cli\<lparr>ipc_head := m\<rparr>) = (None, ?c)"
        using flags full some True
        by (simp add: read_account_def c1_def Let_def cli_head_def read_end_def)
      moreover have "unat ?ttl \<noteq> 0"
        using some(1) by (simp add: unat_eq_zero)
      then have "cli_ok ?c" "sofar ?c = sofar cli @ bs"
        using m(2) h True all some flags by (simp_all add: cli_ok_def buf_phase_def cli_head_def c1_def sofar_def)
      ultimately show ?thesis
        unfolding step using flags by (auto simp: step_ok_def c1_def)
    qed
  qed
qed

lemma read_step_buf:
  assumes len: "length (ipc_head cli) = HEAD_LEN" and ph: "buf_phase cli"
    and bs: "bs \<noteq> []" "length bs \<le> cli_ttl cli - (unat (has_read cli) - HEAD_LEN)"
  shows "\<exists>r cli'. read_step mal want cli bs = Inr (r, cli') \<and> r \<noteq> None \<and> step_ok mal cli bs r cli'"
proof -
  let ?R = "unat (has_read cli)" and ?T = "cli_ttl cli"
  obtain mem where mem: "cli_buf cli = Some mem" "length mem = ?T"
    and R: "HEAD_LEN \<le> ?R" "?R < HEAD_LEN + ?T" "?T < 2 ^ 63" and flags: "head_done cli" "\<not> buf_done cli"
    using ph by (auto simp: buf_phase_def)
  have "?R - HEAD_LEN + length bs \<le> length mem"
    using bs(2) R mem(2) by linarith
  then obtain m where m: "store_at (?R - HEAD_LEN) mem bs = Inr m" "length m = ?T"
    "take (?R - HEAD_LEN + length bs) m = take (?R - HEAD_LEN) mem @ bs"
    using store_at_ok mem(2) by metis
  define c1 where "c1 = cli\<lparr>cli_buf := Some m, has_read := has_read cli + word_of_nat (length bs)\<rparr>"
  have le: "?R + length bs \<le> HEAD_LEN + ?T"
    using bs(2) R by linarith
  then have h: "unat (has_read c1) = ?R + length bs"
    using has_read_add [of cli "length bs"] R(3) by (simp add: c1_def HEAD_LEN_def)
  have tot: "unat (SIZEOF_HEAD + head_ttl (cli_head cli)) = HEAD_LEN + ?T"
    using R(3) by (simp add: unat_plus_if' unat_SIZEOF_HEAD HEAD_LEN_def)
  have hd: "cli_head c1 = cli_head cli"
    by (simp add: cli_head_def c1_def)
  have step: "read_step mal want cli bs = Inr (read_account mal want (length bs) (cli\<lparr>cli_buf := Some m\<rparr>))"
    using m(1) flags mem(1) read_off_buf [OF ph] by (simp add: read_step_def read_store_def)
  have ext: "sofar c = sofar cli @ bs" if "cli_buf c = Some m" "ipc_head c = ipc_head cli" "has_read c = has_read c1" for c
  proof -
    have "?R = HEAD_LEN + (?R - HEAD_LEN)" "?R - HEAD_LEN + length bs = ?R + length bs - HEAD_LEN"
      using R(1) by simp_all
    then show ?thesis
      using that h m(3) mem(1) len by (simp add: sofar_def)
  qed
  show ?thesis
  proof (cases "?R + length bs = HEAD_LEN + ?T")
    case True
    let ?c = "c1\<lparr>buf_done := True\<rparr>"
    have "has_read c1 = SIZEOF_HEAD + head_ttl (cli_head cli)"
      using True h tot by (simp add: word_unat_eq_iff)
    then have "read_account mal want (length bs) (cli\<lparr>cli_buf := Some m\<rparr>) = (Some 1, ?c)"
      using flags by (simp add: read_account_def c1_def Let_def cli_head_def read_end_def)
    moreover have "cli_ok ?c"
      using len h True m(2) R(3) flags by (simp add: cli_ok_def full_phase_def c1_def cli_head_def)
    moreover have "sofar ?c = sofar cli @ bs"
      by (rule ext) (simp_all add: c1_def)
    ultimately show ?thesis
      unfolding step by (auto simp: step_ok_def c1_def)
  next
    case False
    then have "has_read c1 \<noteq> SIZEOF_HEAD + head_ttl (cli_head cli)"
      "\<not> SIZEOF_HEAD + head_ttl (cli_head cli) < has_read c1"
      using h tot le by (auto simp: word_unat_eq_iff word_less_nat_alt)
    then have "read_account mal want (length bs) (cli\<lparr>cli_buf := Some m\<rparr>) = (Some 0, c1)"
      using flags by (simp add: read_account_def c1_def Let_def cli_head_def)
    moreover have "cli_ok c1"
      using len h False le m(2) R flags by (simp add: cli_ok_def buf_phase_def c1_def cli_head_def)
    moreover have "sofar c1 = sofar cli @ bs"
      by (rule ext) (simp_all add: c1_def)
    ultimately show ?thesis
      unfolding step using flags by (auto simp: step_ok_def c1_def)
  qed
qed

lemma read_step_ok:
  assumes "cli_ok cli" "\<not> buf_done cli" "mallocs_ok mal" "read_want cli = Some want" "bs \<noteq> []" "length bs \<le> want"
  shows "\<exists>r cli'. read_step mal want cli bs = Inr (r, cli') \<and> step_ok mal cli bs r cli'"
  using cli_ok_phases(2) [OF assms(1,2)]
proof
  assume h: "head_phase cli"
  then show ?thesis
    using read_step_head [OF cli_ok_phases(1) [OF assms(1,2)] h assms(3,5)] assms(4,6) read_want_head [OF h]
    by simp
next
  assume b: "buf_phase cli"
  then show ?thesis
    using read_step_buf [OF cli_ok_phases(1) [OF assms(1,2)] b assms(5)] assms(4,6) read_want_buf [OF b]
    by fastforce
qed

lemma sys_read_stream:
  "sys_read want as = Some (Got bs, as') \<Longrightarrow> stream_of as = bs @ stream_of as' \<and> length bs \<le> want"
  "sys_read want as = Some (Fail e, as') \<Longrightarrow> stream_of as = stream_of as'"
  by (cases "(want, as)" rule: sys_read.cases; auto split: if_splits)+

lemma sys_read_calm_left:
  "sys_read want as = Some (r, as') \<Longrightarrow> list_all calm as \<Longrightarrow> 0 < want \<Longrightarrow>
   list_all calm as' \<and> r \<noteq> Got [] \<and> (\<forall>e. r = Fail e \<longrightarrow> e = EINTR)"
  by (cases "(want, as)" rule: sys_read.cases) (auto split: if_splits)

section \<open>One call\<close>

text \<open>The message so far has grown by what was taken from the stream.\<close>

definition fed :: "u8 list \<Rightarrow> arrival list \<Rightarrow> u8 list \<Rightarrow> arrival list \<Rightarrow> bool" where
  "fed xs as ys as' \<longleftrightarrow> (\<exists>bs. ys = xs @ bs \<and> stream_of as = bs @ stream_of as')"

lemma fed_first: "stream_of as = bs @ stream_of as' \<Longrightarrow> fed xs as (xs @ bs) as'"
  by (simp add: fed_def)

lemma fed_more: "stream_of as = bs @ stream_of as1 \<Longrightarrow> fed (xs @ bs) as1 ys as' \<Longrightarrow> fed xs as ys as'"
  by (auto simp: fed_def)

definition read_ok :: "mallocs \<Rightarrow> uc_ipc_cli \<Rightarrow> arrival list \<Rightarrow> int \<Rightarrow> uc_ipc_cli \<Rightarrow> arrival list \<Rightarrow> bool" where
  "read_ok mal cli as ret cli' as' \<longleftrightarrow> cli_fd cli' = cli_fd cli \<and> cli_uuid cli' = cli_uuid cli \<and>
     (list_all calm as \<longrightarrow> list_all calm as') \<and>
     (fed (sofar cli) as (sofar cli') as' \<and> cli_ok cli' \<and>
        (ret = 0 \<and> \<not> buf_done cli' \<or> ret = 1 \<and> buf_done cli') \<or>
      (\<exists>h. ret = - 0x48a6af21 \<and> fed (sofar cli) as h as' \<and> length h = HEAD_LEN \<and>
         head_ttl (bytes_head h) \<noteq> 0 \<and> mal (head_ttl (bytes_head h)) = None) \<or>
      ret \<in> {- 0x46dd3fd2, - 0x31ecfc83} \<and> \<not> list_all calm as)"

lemma read_ok_more:
  assumes "stream_of as = bs @ stream_of as1" "list_all calm as \<longrightarrow> list_all calm as1"
    and "sofar cli1 = sofar cli @ bs" "cli_fd cli1 = cli_fd cli" "cli_uuid cli1 = cli_uuid cli"
    and "read_ok mal cli1 as1 ret cli' as'"
  shows "read_ok mal cli as ret cli' as'"
  using assms(2-6) fed_more [OF assms(1), of "sofar cli"] unfolding read_ok_def by auto

lemma cli_read_ok:
  assumes "cli_ok cli" "\<not> buf_done cli" "mallocs_ok mal"
  shows "\<exists>ret cli' as'. cli_read mal cli as = Inr (ret, cli', as') \<and> read_ok mal cli as ret cli' as' \<and>
    (as \<noteq> [] \<longrightarrow> weight as' < weight as)"
  using assms
proof (induction mal cli as rule: cli_read.induct)
  case (1 mal cli as)
  obtain want where w: "read_want cli = Some want" "0 < want"
    using read_want_pos [OF "1.prems"(1,2)] .
  note unfold = cli_read.simps [of mal cli as]
  show ?case
  proof (cases "sys_read want as")
    case None
    then have "as = []"
      by (cases "(want, as)" rule: sys_read.cases) (auto split: if_splits)
    moreover have "cli_read mal cli as = Inr (0, cli, as)"
      using None w by (simp add: unfold)
    ultimately show ?thesis
      using "1.prems" by (simp add: read_ok_def fed_def)
  next
    case (Some p)
    then obtain r as1 where r: "sys_read want as = Some (r, as1)"
      by (cases p) auto
    have cl: "list_all calm as \<longrightarrow> list_all calm as1"
      using sys_read_calm_left [OF r _ w(2)] by blast
    show ?thesis
    proof (cases r)
      case (Got bs)
      note st = sys_read_stream(1) [OF r [unfolded Got]]
      show ?thesis
      proof (cases "bs = []")
        case True
        then have "\<not> list_all calm as" "weight as1 < weight as"
          using sys_read_calm_left [OF r _ w(2)] r Got w(2)
          by (auto, cases "(want, as)" rule: sys_read.cases) (auto split: if_splits)
        then show ?thesis
          using w r Got True by (simp add: unfold read_ok_def)
      next
        case False
        have less: "weight as1 < weight as"
          using sys_read_weight(1) [OF r [unfolded Got] False] .
        obtain q cli1 where q: "read_step mal want cli bs = Inr (q, cli1)" "step_ok mal cli bs q cli1"
          using read_step_ok [OF "1.prems" w(1) False] st by blast
        then obtain cli0 where c0: "read_store cli bs = Inr cli0" "read_account mal want (length bs) cli0 = (q, cli1)"
          by (auto simp: read_step_def run_bind_eq_Inr_iff)
        show ?thesis
        proof (cases q)
          case None
          then have ok: "sofar cli1 = sofar cli @ bs" "cli_ok cli1" "\<not> buf_done cli1" "cli_fd cli1 = cli_fd cli"
            "cli_uuid cli1 = cli_uuid cli"
            using q(2) by (auto simp: step_ok_def)
          obtain ret cli' as' where "cli_read mal cli1 as1 = Inr (ret, cli', as')"
            "read_ok mal cli1 as1 ret cli' as'" "as1 \<noteq> [] \<longrightarrow> weight as' < weight as1"
            using "1.IH"(1) [OF w(1) r refl Got False c0(2) [symmetric] None ok(2,3) "1.prems"(3)] by blast
          moreover from this have "weight as' < weight as"
            using less by (cases "as1 = []") (auto simp: cli_read.simps [of mal cli1 "[]"] split: option.splits)
          ultimately show ?thesis
            using w r Got False c0 None read_ok_more [OF conjunct1 [OF st] cl ok(1,4,5)]
            by (auto simp: unfold)
        next
          case (Some ret)
          then have "cli_read mal cli as = Inr (ret, cli1, as1)"
            using w r Got False c0 by (simp add: unfold)
          moreover have "read_ok mal cli as ret cli1 as1"
            using q(2) Some cl fed_first [OF conjunct1 [OF st], of "sofar cli"]
            unfolding read_ok_def step_ok_def by auto
          ultimately show ?thesis
            using less by blast
        qed
      qed
    next
      case (Fail e)
      note st = sys_read_stream(2) [OF r [unfolded Fail]] and less = sys_read_weight(2) [OF r [unfolded Fail]]
      show ?thesis
      proof (cases e)
        case EINTR
        obtain ret cli' as' where g: "cli_read mal cli as1 = Inr (ret, cli', as')"
          "read_ok mal cli as1 ret cli' as'" "as1 \<noteq> [] \<longrightarrow> weight as' < weight as1"
          using "1.IH"(2) [OF w(1) r refl Fail EINTR "1.prems"] by blast
        then have "weight as' < weight as"
          using less w by (cases "as1 = []") (auto simp: cli_read.simps [of mal cli "[]"] split: option.splits)
        moreover have "read_ok mal cli as ret cli' as'"
          using read_ok_more [of as "[]" as1 cli cli] g(2) st cl by simp
        ultimately show ?thesis
          using w r Fail EINTR g(1) by (simp add: unfold)
      next
        case EAGAIN
        then have "cli_read mal cli as = Inr (0, cli, as1)"
          using w r Fail by (simp add: unfold)
        then show ?thesis
          using st cl less "1.prems" by (simp add: read_ok_def fed_def)
      next
        case (EOTHER x)
        then have "cli_read mal cli as = Inr (- 0x31ecfc83, cli, as1)" "\<not> list_all calm as"
          using w r Fail sys_read_calm_left [OF r _ w(2)] by (auto simp: unfold)
        then show ?thesis
          using less cl by (simp add: read_ok_def)
      qed
    qed
  qed
qed

section \<open>Messages\<close>

text \<open>The message a complete connection holds.\<close>

definition cli_msg :: "uc_ipc_cli \<Rightarrow> packet" where
  "cli_msg cli = (cli_head cli, buf_bytes (cli_buf cli))"

lemma sofar_full:
  assumes "cli_ok cli" "buf_done cli"
  shows "sofar cli = packet_bytes (cli_msg cli)" "packet_ok (cli_msg cli)"
proof -
  have "full_phase cli" "length (ipc_head cli) = HEAD_LEN"
    using assms by (auto simp: cli_ok_def head_phase_def buf_phase_def)
  then show "sofar cli = packet_bytes (cli_msg cli)" "packet_ok (cli_msg cli)"
    by (simp_all add: sofar_def full_phase_def packet_bytes_def cli_msg_def packet_ok_def cli_head_def
        head_bytes_bytes_head)
qed

lemma packet_bytes_nonempty: "packet_bytes p \<noteq> []"
proof -
  have "0 < length (packet_bytes p)"
    by (simp add: packet_bytes_def HEAD_LEN_def)
  then show ?thesis
    by simp
qed

text \<open>A stream splits into a first packet and a rest in one way.\<close>

lemma packet_unique:
  assumes "packet_bytes p @ r = packet_bytes q @ s" "packet_ok p" "packet_ok q"
  shows "p = q" "r = s"
proof -
  have "head_bytes (fst p) = head_bytes (fst q)" and rest: "snd p @ r = snd q @ s"
    using assms(1) by (auto simp: packet_bytes_def append_eq_append_conv)
  then have h: "fst p = fst q"
    using bytes_head_bytes by metis
  then show "p = q" "r = s"
    using rest assms(2,3) by (auto simp: packet_ok_def prod_eq_iff append_eq_append_conv)
qed

lemma packet_head:
  assumes "h @ xs = packet_bytes p @ r" "length h = HEAD_LEN"
  shows "bytes_head h = fst p"
proof -
  have "h = head_bytes (fst p)"
    using assms by (auto simp: packet_bytes_def append_eq_append_conv)
  then show ?thesis
    by simp
qed

text \<open>An incomplete message does not contain a packet.\<close>

lemma sofar_incomplete:
  assumes "cli_ok cli" "\<not> buf_done cli" "packet_ok p"
  shows "sofar cli \<noteq> packet_bytes p @ r"
proof
  assume eq: "sofar cli = packet_bytes p @ r"
  note len = cli_ok_phases(1) [OF assms(1,2)]
  from cli_ok_phases(2) [OF assms(1,2)] show False
  proof
    assume "head_phase cli"
    then have "length (sofar cli) < HEAD_LEN"
      using len by (simp add: sofar_def head_phase_def)
    then show False
      using eq by (simp add: packet_bytes_def)
  next
    assume b: "buf_phase cli"
    then obtain mem where mem: "cli_buf cli = Some mem" "length mem = cli_ttl cli"
      by (auto simp: buf_phase_def)
    have l: "length (sofar cli) = unat (has_read cli)"
      using b mem len by (auto simp: sofar_def buf_phase_def min_def)
    have "sofar cli = ipc_head cli @ take (unat (has_read cli) - HEAD_LEN) mem"
      using b mem len by (simp add: sofar_def buf_phase_def)
    then have "cli_head cli = fst p"
      using packet_head [of "ipc_head cli" _ p r] eq len by (simp add: cli_head_def)
    then have "length (packet_bytes p) = HEAD_LEN + cli_ttl cli"
      using assms(3) by (simp add: packet_bytes_def packet_ok_def)
    then show False
      using eq l b by (simp add: buf_phase_def)
  qed
qed

text \<open>A packet the server has memory for.\<close>

definition fits :: "mallocs \<Rightarrow> packet \<Rightarrow> bool" where
  "fits mal p \<longleftrightarrow> packet_ok p \<and> (head_ttl (fst p) \<noteq> 0 \<longrightarrow> mal (head_ttl (fst p)) \<noteq> None)"

lemma cli_read_packet:
  assumes "cli_ok cli" "\<not> buf_done cli" "mallocs_ok mal" "list_all calm as"
    and "sofar cli @ stream_of as = packet_bytes p @ rest" "fits mal p"
  obtains (whole) cli' as' where "cli_read mal cli as = Inr (1, cli', as')" "buf_done cli'" "cli_msg cli' = p"
      "stream_of as' = rest" "list_all calm as'" "weight as' < weight as" "cli_fd cli' = cli_fd cli"
      "cli_uuid cli' = cli_uuid cli" "cli_ok cli'"
    | (part) cli' as' where "cli_read mal cli as = Inr (0, cli', as')" "\<not> buf_done cli'" "cli_ok cli'"
      "sofar cli' @ stream_of as' = packet_bytes p @ rest" "list_all calm as'" "weight as' < weight as"
      "cli_fd cli' = cli_fd cli" "cli_uuid cli' = cli_uuid cli"
proof -
  note p = assms(6) [unfolded fits_def]
  have "as \<noteq> []"
    using sofar_incomplete [OF assms(1,2), of p rest] p assms(5) by (metis append_Nil2 stream_of.simps(1))
  then obtain ret cli' as' where r: "cli_read mal cli as = Inr (ret, cli', as')"
    "read_ok mal cli as ret cli' as'" "weight as' < weight as"
    using cli_read_ok [OF assms(1-3)] by blast
  then consider (more) "fed (sofar cli) as (sofar cli') as'" "cli_ok cli'"
      "ret = 0 \<and> \<not> buf_done cli' \<or> ret = 1 \<and> buf_done cli'"
    | (oom) h where "fed (sofar cli) as h as'" "length h = HEAD_LEN" "head_ttl (bytes_head h) \<noteq> 0"
      "mal (head_ttl (bytes_head h)) = None"
    using assms(4) unfolding read_ok_def by blast
  then show thesis
  proof cases
    case more
    have eq: "sofar cli' @ stream_of as' = packet_bytes p @ rest"
      using more(1) assms(5) by (auto simp: fed_def)
    show thesis
    proof (cases "buf_done cli'")
      case True
      note full = sofar_full [OF more(2) True]
      have "cli_msg cli' = p" "stream_of as' = rest"
        using packet_unique [of "cli_msg cli'" "stream_of as'" p rest] eq full p by simp_all
      then show thesis
        using True more r assms(4) by (intro whole [of cli' as']) (auto simp: read_ok_def)
    next
      case False
      then show thesis
        using eq more r assms(4) by (intro part [of cli' as']) (auto simp: read_ok_def)
    qed
  next
    case oom
    then have "bytes_head h = fst p"
      using assms(5) packet_head [of h "stream_of as'" p rest] by (auto simp: fed_def)
    then show thesis
      using oom p by simp
  qed
qed

section \<open>The stream of one connection\<close>

text \<open>
  The rounds of the event loop that concern one connection: each is one call of the reader, and a
  complete message is taken out, which resets the struct. The bound is on the rounds.
\<close>

fun serve_connection ::
  "mallocs \<Rightarrow> nat \<Rightarrow> uc_ipc_cli \<Rightarrow> arrival list \<Rightarrow> crash + packet list \<times> uc_ipc_cli \<times> arrival list" where
  "serve_connection mal 0 cli as = Inr ([], cli, as)"
| "serve_connection mal (Suc n) cli as =
     run_bind (cli_read mal cli as) (\<lambda>(ret, cli', as').
       if ret < 0 then Inr ([], cli', as')
       else if ret = 0 then serve_connection mal n cli' as'
       else run_bind (serve_connection mal n (uc_ipc_server_reset_cli_proto cli') as') (\<lambda>(ps, c, as2).
         Inr (cli_msg cli' # ps, c, as2)))"

lemma serve_connection_idle:
  "cli_ok cli \<Longrightarrow> \<not> buf_done cli \<Longrightarrow> mallocs_ok mal \<Longrightarrow> list_all calm as \<Longrightarrow> stream_of as = [] \<Longrightarrow> sofar cli = [] \<Longrightarrow>
   weight as \<le> n \<Longrightarrow> \<exists>c. serve_connection mal n cli as = Inr ([], c, []) \<and> cli_ok c \<and> sofar c = []"
proof (induction n arbitrary: cli as)
  case (Suc n)
  obtain ret cli' as' where r: "cli_read mal cli as = Inr (ret, cli', as')" "read_ok mal cli as ret cli' as'"
    "as \<noteq> [] \<longrightarrow> weight as' < weight as"
    using cli_read_ok [OF Suc.prems(1-3)] by blast
  have fed: "fed (sofar cli) as h as' \<Longrightarrow> h = [] \<and> stream_of as' = []" for h
    using Suc.prems(5,6) by (auto simp: fed_def)
  have "\<not> (fed (sofar cli) as h as' \<and> length h = HEAD_LEN)" for h
    using fed [of h] by (auto simp: HEAD_LEN_def)
  then have rr: "fed (sofar cli) as (sofar cli') as'" "cli_ok cli'" "ret = 0 \<and> \<not> buf_done cli' \<or> ret = 1 \<and> buf_done cli'"
    using r(2) Suc.prems(4) unfolding read_ok_def by blast+
  from fed [OF this(1)] have empty: "sofar cli' = []" "stream_of as' = []"
    by simp_all
  then have "\<not> buf_done cli'"
    using rr(2) sofar_full(1) [of cli'] packet_bytes_nonempty by metis
  moreover have "weight as' \<le> n"
    using r(3) Suc.prems(7) r(1) by (cases "as = []") (auto simp: cli_read.simps [of mal cli "[]"] split: option.splits)
  ultimately show ?case
    using Suc.IH [of cli' as'] Suc.prems(3,4) r rr empty by (auto simp: read_ok_def)
qed (auto elim!: weight.elims)

lemma serve_connection_spec:
  assumes "mallocs_ok mal" "list_all calm as" "list_all (fits mal) ps"
    and "cli_ok cli" "\<not> buf_done cli" "sofar cli @ stream_of as = concat (map packet_bytes ps)"
    and "weight as \<le> n" "ps = [] \<longrightarrow> sofar cli = []"
  shows "\<exists>c. serve_connection mal n cli as = Inr (ps, c, []) \<and> cli_ok c \<and> sofar c = []"
  using assms
proof (induction n arbitrary: cli as ps)
  case 0
  then have "as = []"
    by (auto elim!: weight.elims)
  have "ps = []"
  proof (rule ccontr)
    assume "ps \<noteq> []"
    then obtain p qs where "ps = p # qs"
      by (cases ps) auto
    then show False
      using sofar_incomplete [OF "0.prems"(4,5), of p] "0.prems"(3,6) \<open>as = []\<close> by (auto simp: fits_def)
  qed
  then show ?case
    using "0.prems" \<open>as = []\<close> by simp
next
  case (Suc n)
  show ?case
  proof (cases ps)
    case Nil
    then have "stream_of as = []" "sofar cli = []"
      using Suc.prems(6) by simp_all
    from serve_connection_idle [OF Suc.prems(4,5,1,2) this Suc.prems(7)] show ?thesis
      using Nil by simp
  next
    case (Cons p qs)
    then have eq: "sofar cli @ stream_of as = packet_bytes p @ concat (map packet_bytes qs)" and fit: "fits mal p"
      using Suc.prems(3,6) by simp_all
    from Suc.prems(4,5,1,2) eq fit show ?thesis
    proof (cases rule: cli_read_packet)
      case (whole cli' as')
      let ?c = "uc_ipc_server_reset_cli_proto cli'"
      have "\<exists>c. serve_connection mal n ?c as' = Inr (qs, c, []) \<and> cli_ok c \<and> sofar c = []"
        using whole Suc.prems(1,3,7) Cons
        by (intro Suc.IH) (auto simp: uc_ipc_server_reset_cli_proto_def [of cli'] cli_ok_reset [of cli', unfolded uc_ipc_server_reset_cli_proto_def]
            sofar_reset [of cli', unfolded uc_ipc_server_reset_cli_proto_def])
      then show ?thesis
        using whole Cons by auto
    next
      case (part cli' as')
      then have "\<exists>c. serve_connection mal n cli' as' = Inr (ps, c, []) \<and> cli_ok c \<and> sofar c = []"
        using Suc.prems(1,3,7) Cons by (intro Suc.IH) auto
      then show ?thesis
        using part by simp
    qed
  qed
qed

end
