(* ===== verification/Ipc_Client.thy ===== *)
theory Ipc_Client
  imports Ipc_Server "HOL-Library.Signed_Division"
begin

text \<open>
  The IPC client (\<^verbatim>\<open>ipc/uc_ipc_client.c\<close>): sequence numbers, the table of awaited
  acknowledgements, sending, the receiver's round, waiting for an acknowledgement, reconnecting.
  Two threads of the program share the handler; what the receiver does while a sender waits on the
  condition variable is given as the handlers found at each wake-up.
\<close>

section \<open>State\<close>

record uc_ipc_client_handler =
  io_done :: bool
  io_sockfd :: int
  cl_seq_id :: u64
  ack_hash :: "packet uc_hash_table"
  cl_out :: "u8 list"
  cl_in :: "arrival list"

definition uc_ipc_client_next_seq_id :: "uc_ipc_client_handler \<Rightarrow> u64 \<times> uc_ipc_client_handler" where
  "uc_ipc_client_next_seq_id hdl =
     (cl_seq_id hdl, hdl\<lparr>cl_seq_id := (let s = cl_seq_id hdl + 1 in
        if s < UC_IPC_SEQ_ID_MIN then UC_IPC_SEQ_ID_MIN else s)\<rparr>)"

text \<open>An awaited number is a key whose value is \<open>NULL\<close> until the acknowledgement is there.\<close>

definition uc_ipc_client_insert_seq ::
  "node_alloc \<Rightarrow> uc_ipc_client_handler \<Rightarrow> u64 \<Rightarrow> stop + int \<times> uc_ipc_client_handler" where
  "uc_ipc_client_insert_seq a hdl seq_id =
     run_bind (no_crash (uc_hash_insert a (ack_hash hdl) (key_u64 seq_id) None))
       (\<lambda>(ret, t, freed). Inr (ret, hdl\<lparr>ack_hash := t\<rparr>))"

definition uc_ipc_client_delete_seq ::
  "uc_ipc_client_handler \<Rightarrow> u64 \<Rightarrow> stop + uc_ipc_client_handler" where
  "uc_ipc_client_delete_seq hdl seq_id =
     run_bind (no_crash (uc_hash_delete (ack_hash hdl) (key_u64 seq_id)))
       (\<lambda>(ret, t, freed). Inr (hdl\<lparr>ack_hash := t\<rparr>))"

section \<open>Sending\<close>

text \<open>A failing write is logged, not reported.\<close>

definition uc_ipc_client_write ::
  "wrote list \<Rightarrow> uc_ipc_client_handler \<Rightarrow> u8 list \<Rightarrow> stop + uc_ipc_client_handler" where
  "uc_ipc_client_write ws hdl data =
     (case uc_io_write data [] ws of
        None \<Rightarrow> Inl Spinning
      | Some (ret, out) \<Rightarrow> Inr (hdl\<lparr>cl_out := cl_out hdl @ out\<rparr>))"

text \<open>\<open>mem_ok\<close> is the outcome of the second allocation. The build sends from the calling thread.\<close>

definition uc_ipc_client_send ::
  "mallocs \<Rightarrow> bool \<Rightarrow> wrote list \<Rightarrow> uc_ipc_client_handler \<Rightarrow> u64 \<Rightarrow> u32 \<Rightarrow> u8 list option \<Rightarrow> u64 \<Rightarrow>
   stop + int \<times> uc_ipc_client_handler" where
  "uc_ipc_client_send mal mem_ok ws hdl seq_id mtype buf len =
     (case mal (SIZEOF_HEAD + len) of
        None \<Rightarrow> Inr (- 0x1f9385ca, hdl)
      | Some mem \<Rightarrow>
          if \<not> mem_ok then Inr (- 0x3cbe5a0f, hdl)
          else run_bind (no_crash (build_packet mem
                 \<lparr>head_ttl = len, head_msg_type = mtype, head_seq_id = seq_id, head_ack_id = 0\<rparr> buf len))
                 (\<lambda>data. run_bind (uc_ipc_client_write ws hdl data) (\<lambda>h. Inr (0, h))))"

section \<open>Reconnecting\<close>

text \<open>
  The results of \<open>socket\<close> until one is a descriptor, of reading \<open>/dev/urandom\<close> until it works, of
  \<open>connect\<close> until it succeeds, and what then arrives at the new socket. \<open>None\<close> is still trying.
\<close>

record reconnect_env =
  rc_socket :: "int list"
  rc_random :: "(bool \<times> arrival list) list"
  rc_connect :: "bool list"
  rc_in :: "arrival list"

fun reconnect_seq :: "(bool \<times> arrival list) list \<Rightarrow> u64 option" where
  "reconnect_seq [] = None"
| "reconnect_seq ((open_ok, as) # rs) =
     (case uc_urandom open_ok 8 as of
        None \<Rightarrow> None
      | Some (ret, buf) \<Rightarrow>
          if ret \<noteq> 0 then reconnect_seq rs
          else (let s = word_of_nat (le_nat buf) in
            Some (if s < UC_IPC_SEQ_ID_MIN then UC_IPC_SEQ_ID_MIN else s)))"

definition uc_ipc_client_reconnect ::
  "reconnect_env \<Rightarrow> uc_ipc_client_handler \<Rightarrow> uc_ipc_client_handler option" where
  "uc_ipc_client_reconnect e hdl =
     (case find (\<lambda>fd. 0 \<le> fd) (rc_socket e) of
        None \<Rightarrow> None
      | Some fd \<Rightarrow>
          (case reconnect_seq (rc_random e) of
             None \<Rightarrow> None
           | Some s \<Rightarrow>
               if True \<in> set (rc_connect e) then
                 Some (hdl\<lparr>io_sockfd := fd, io_done := True, cl_seq_id := s, cl_out := [], cl_in := rc_in e\<rparr>)
               else None))"

definition reconnected :: "reconnect_env \<Rightarrow> uc_ipc_client_handler \<Rightarrow> stop + uc_ipc_client_handler" where
  "reconnected e hdl = (case uc_ipc_client_reconnect e hdl of None \<Rightarrow> Inl Spinning | Some h \<Rightarrow> Inr h)"

section \<open>Receiving\<close>

definition rcv_dispatch ::
  "reconnect_env \<Rightarrow> uc_ipc_client_handler \<Rightarrow> packet \<Rightarrow> stop + uc_ipc_client_handler" where
  "rcv_dispatch e hdl msg =
     (let mtype = head_msg_type (fst msg); ack = head_ack_id (fst msg)
      in if mtype = uc_ipc_msg_type_heartbeat then
           if ack < UC_IPC_SEQ_ID_MIN then reconnected e hdl else Inr hdl
         else if mtype = uc_ipc_msg_type_async_ack \<or> mtype = uc_ipc_msg_type_sync_ack then
           if ack < UC_IPC_SEQ_ID_MIN then reconnected e hdl
           else run_bind (no_crash (uc_hash_find (ack_hash hdl) (key_u64 ack))) (\<lambda>node.
             case node of
               None \<Rightarrow> Inr hdl
             | Some n \<Rightarrow>
                 run_bind (no_crash (uc_hash_update (ack_hash hdl) (key_u64 ack) (Some msg)))
                   (\<lambda>(old, t). Inr (hdl\<lparr>ack_hash := t\<rparr>)))
         else Inr hdl)"

text \<open>
  One round of \<open>uc_ipc_client_loop_rcv\<close>. The header is copied to the beginning of the message's memory,
  the payload read in behind it. Until a whole message, an error or the end of the stream
  has arrived the thread waits in \<open>read\<close>, and nothing changes.
\<close>

definition uc_ipc_client_loop_rcv ::
  "mallocs \<Rightarrow> reconnect_env \<Rightarrow> uc_ipc_client_handler \<Rightarrow> stop + uc_ipc_client_handler" where
  "uc_ipc_client_loop_rcv mal e hdl =
     (case uc_io_read HEAD_LEN [] (cl_in hdl) of
        None \<Rightarrow> Inr hdl
      | Some ((ret, hd_bytes, closed), as) \<Rightarrow>
          if ret \<noteq> 0 \<or> closed then reconnected e hdl
          else
            let head = bytes_head hd_bytes in
            if head_seq_id head < UC_IPC_SEQ_ID_MIN then reconnected e hdl
            else (case mal (SIZEOF_HEAD + head_ttl head) of
              None \<Rightarrow> reconnected e hdl
            | Some mem \<Rightarrow>
                run_bind (no_crash (store_at 0 mem hd_bytes)) (\<lambda>m0.
                  case uc_io_read (unat (head_ttl head)) [] as of
                    None \<Rightarrow> Inr hdl
                  | Some ((ret2, got, closed2), as2) \<Rightarrow>
                      run_bind (no_crash (store_at HEAD_LEN m0 got)) (\<lambda>m.
                        if ret2 \<noteq> 0 \<or> closed2 then reconnected e hdl
                        else rcv_dispatch e (hdl\<lparr>cl_in := as2\<rparr>) (head, drop HEAD_LEN m)))))"

section \<open>Waiting for an acknowledgement\<close>

definition NSEC :: int where "NSEC = 1000000000"

text \<open>The deadline's nanoseconds as computed; \<open>pthread_cond_timedwait\<close> rejects values outside a second.\<close>

definition outtime_nsec :: "int \<Rightarrow> int \<Rightarrow> int" where
  "outtime_nsec now_usec wait_ms = now_usec * 1000 + (wait_ms smod 1000) * 1000 * 1000"

definition deadline_valid :: "int \<Rightarrow> bool" where
  "deadline_valid nsec \<longleftrightarrow> 0 \<le> nsec \<and> nsec < NSEC"

text \<open>How a wait on the condition variable ends, with the handler as the thread then finds it.\<close>

datatype wake_up = Woken uc_ipc_client_handler | Timed_out uc_ipc_client_handler

definition ack_val :: "uc_ipc_client_handler \<Rightarrow> u64 \<Rightarrow> stop + packet option" where
  "ack_val hdl seq_id =
     run_bind (no_crash (uc_hash_find (ack_hash hdl) (key_u64 seq_id))) (\<lambda>node.
       case node of None \<Rightarrow> Inl (Crashed Undefined_behaviour)
       | Some n \<Rightarrow> Inr (uc_hash_node_val (ack_hash hdl) n))"

text \<open>
  The loop. A deadline the call rejects makes it return \<open>EINVAL\<close> (22) at once, with the mutex held,
  so nothing changes; the list then only counts the rounds. \<open>ETIMEDOUT\<close> is 110. The result is
  \<open>Spinning\<close> when the list ends before the loop does.
\<close>

fun ack_wait ::
  "bool \<Rightarrow> bool \<Rightarrow> u64 \<Rightarrow> int \<Rightarrow> uc_ipc_client_handler \<Rightarrow> wake_up list \<Rightarrow> stop + int \<times> uc_ipc_client_handler" where
  "ack_wait timed valid seq_id ret hdl [] =
     run_bind (ack_val hdl seq_id) (\<lambda>v. if v \<noteq> None then Inr (ret, hdl) else Inl Spinning)"
| "ack_wait timed valid seq_id ret hdl (w # ws) =
     run_bind (ack_val hdl seq_id) (\<lambda>v.
       if v \<noteq> None then Inr (ret, hdl)
       else if timed \<and> \<not> valid then ack_wait timed valid seq_id 22 hdl ws
       else (case w of
         Woken h \<Rightarrow> ack_wait timed valid seq_id 0 h ws
       | Timed_out h \<Rightarrow> if timed then Inr (110, h) else ack_wait timed valid seq_id 0 h ws))"

text \<open>
  \<open>hdl\<close> is the handler as it is when \<open>ack_mtx\<close> is locked: the receiver may have delivered the
  acknowledgement by then, and in that case the loop is not entered.
\<close>

definition uc_ipc_client_wait_ack ::
  "int \<Rightarrow> wake_up list \<Rightarrow> uc_ipc_client_handler \<Rightarrow> u64 \<Rightarrow> int \<Rightarrow>
   stop + int \<times> uc_ipc_client_handler \<times> packet option" where
  "uc_ipc_client_wait_ack now_usec ws hdl seq_id wait_ms =
     run_bind (no_crash (uc_hash_find (ack_hash hdl) (key_u64 seq_id))) (\<lambda>node.
       case node of
         None \<Rightarrow> Inr (- 0x790396ad, hdl, None)
       | Some n \<Rightarrow>
           run_bind (ack_wait (wait_ms \<noteq> 0) (deadline_valid (outtime_nsec now_usec wait_ms)) seq_id 0 hdl ws)
             (\<lambda>(ret, h). if ret \<noteq> 0 then Inr (- 0x4f885afb, h, None)
               else run_bind (no_crash (uc_hash_update (ack_hash h) (key_u64 seq_id) None)) (\<lambda>(msg, t1).
                 run_bind (no_crash (uc_hash_delete t1 (key_u64 seq_id)))
                   (\<lambda>(r, t2, freed).
                     Inr (if msg = None then 0x428f2521 else 0, h\<lparr>ack_hash := t2\<rparr>, msg)))))"

section \<open>The calls of the user\<close>

text \<open>What the environment gives one call.\<close>

record send_env =
  se_malloc :: mallocs
  se_mem_ok :: bool
  se_node :: node_alloc
  se_writes :: "wrote list"
  se_now_usec :: int

definition uc_ipc_client_try_send ::
  "send_env \<Rightarrow> uc_ipc_client_handler \<Rightarrow> u8 list option \<Rightarrow> u64 \<Rightarrow> stop + int \<times> uc_ipc_client_handler" where
  "uc_ipc_client_try_send e hdl buf len =
     (let (msg_id, h) = uc_ipc_client_next_seq_id hdl
      in run_bind (uc_ipc_client_send (se_malloc e) (se_mem_ok e) (se_writes e) h msg_id uc_ipc_msg_type_void buf len)
        (\<lambda>(ret, h2). Inr (if ret \<noteq> 0 then - 0x146071f6 else ret, h2)))"

text \<open>
  A call that waits has two parts: up to the wait, and from there on. The environment's part between
  them depends on what was sent: the handler as the thread finds it when it has locked \<open>ack_mtx\<close> for the
  wait, after whatever the receiver did since the message was sent, and the handlers found at each
  wake-up.
\<close>

type_synonym meanwhile = "uc_ipc_client_handler \<Rightarrow> uc_ipc_client_handler \<times> wake_up list"

definition send_begin ::
  "send_env \<Rightarrow> u32 \<Rightarrow> int \<Rightarrow> int \<Rightarrow> uc_ipc_client_handler \<Rightarrow> u8 list option \<Rightarrow> u64 \<Rightarrow>
   stop + (int + u64) \<times> uc_ipc_client_handler" where
  "send_begin e mtype err_insert err_send hdl buf len =
     (let (seq_id, h) = uc_ipc_client_next_seq_id hdl
      in run_bind (uc_ipc_client_insert_seq (se_node e) h seq_id) (\<lambda>(ret, h1).
        if ret \<noteq> 0 then Inr (Inl err_insert, h1)
        else run_bind (uc_ipc_client_send (se_malloc e) (se_mem_ok e) (se_writes e) h1 seq_id mtype buf len)
          (\<lambda>(ret, h2).
            if ret \<noteq> 0 then run_bind (uc_ipc_client_delete_seq h2 seq_id) (\<lambda>h3. Inr (Inl err_send, h3))
            else Inr (Inr seq_id, h2))))"

definition uc_ipc_client_async_send ::
  "send_env \<Rightarrow> meanwhile \<Rightarrow> uc_ipc_client_handler \<Rightarrow> u8 list option \<Rightarrow> u64 \<Rightarrow>
   int \<Rightarrow> stop + int \<times> uc_ipc_client_handler" where
  "uc_ipc_client_async_send e wakes hdl buf len wait_ms =
     run_bind (send_begin e uc_ipc_msg_type_async_send (- 0x3d5ee086) (- 0x274ceea5) hdl buf len) (\<lambda>(r, h).
       case r of
         Inl err \<Rightarrow> Inr (err, h)
       | Inr seq_id \<Rightarrow>
           run_bind (uc_ipc_client_wait_ack (se_now_usec e) (snd (wakes h)) (fst (wakes h)) seq_id wait_ms) (\<lambda>(ret, h2, msg).
             if ret \<noteq> 0 then run_bind (uc_ipc_client_delete_seq h2 seq_id) (\<lambda>h3. Inr (- 0x213492c0, h3))
             else Inr (0, h2)))"

definition uc_ipc_client_sync_send ::
  "send_env \<Rightarrow> meanwhile \<Rightarrow> uc_ipc_client_handler \<Rightarrow> u8 list option \<Rightarrow> u64 \<Rightarrow>
   int \<Rightarrow> stop + int \<times> uc_ipc_client_handler \<times> packet option" where
  "uc_ipc_client_sync_send e wakes hdl buf len wait_ms =
     run_bind (send_begin e uc_ipc_msg_type_sync_send (- 0x7b4123c4) (- 0x5f879be6) hdl buf len) (\<lambda>(r, h).
       case r of
         Inl err \<Rightarrow> Inr (err, h, None)
       | Inr seq_id \<Rightarrow> uc_ipc_client_wait_ack (se_now_usec e) (snd (wakes h)) (fst (wakes h)) seq_id wait_ms)"

text \<open>One round of the heartbeat; it is tried again at once when memory is short.\<close>

definition uc_ipc_client_heartbeat_loop_send ::
  "send_env \<Rightarrow> uc_ipc_client_handler \<Rightarrow> stop + int \<times> uc_ipc_client_handler" where
  "uc_ipc_client_heartbeat_loop_send e hdl =
     (let (msg_id, h) = uc_ipc_client_next_seq_id hdl
      in uc_ipc_client_send (se_malloc e) (se_mem_ok e) (se_writes e) h msg_id uc_ipc_msg_type_heartbeat None 0)"

end
