(* ===== verification/Ipc_Service.thy ===== *)
theory Ipc_Service
  imports Ipc_Reader Ipc_Client
begin

text \<open>
  The IPC service as a whole. The tables of acknowledgements and of descriptors are used through
  one contract, an extension of the store of values by key with lookup; then come what the server
  does with a request, what the client does with the answer, and the two together.
\<close>

section \<open>The tables\<close>

locale searched_store = keyed_store inv look alloc_ok put swap drop_key
  for inv :: "'t \<Rightarrow> bool" and look :: "'t \<Rightarrow> 'k \<Rightarrow> 'v option option" and alloc_ok :: "'a \<Rightarrow> bool"
    and put :: "'a \<Rightarrow> 't \<Rightarrow> 'k \<Rightarrow> 'v option \<Rightarrow> crash + int \<times> 't \<times> 'v list"
    and swap :: "'t \<Rightarrow> 'k \<Rightarrow> 'v option \<Rightarrow> crash + 'v option \<times> 't"
    and drop_key :: "'t \<Rightarrow> 'k \<Rightarrow> crash + int \<times> 't \<times> 'v list" +
  fixes get :: "'t \<Rightarrow> 'k \<Rightarrow> crash + 'v option option"
  assumes get_law: "inv t \<Longrightarrow> get t k = Inr (look t k)"
begin

text \<open>The life of an awaited key: entered without a value, answered, taken out.\<close>

lemma put_get:
  assumes "inv t" "alloc_ok a"
  obtains t' freed where "put a t k v = Inr (0, t', freed)" "inv t'" "look t' = (look t)(k \<mapsto> v)"
    "get t' k = Inr (Some v)"
  using put_law [OF assms, of k v] get_law by fastforce

lemma swap_get:
  assumes "inv t" "look t k = Some old"
  obtains t' where "swap t k v = Inr (old, t')" "inv t'" "look t' = (look t)(k \<mapsto> v)" "get t' k = Inr (Some v)"
  using swap_law [OF assms, of v] get_law by fastforce

lemma drop_get:
  assumes "inv t"
  obtains t' freed where "drop_key t k = Inr (0, t', freed)" "inv t'" "look t' = (look t)(k := None)"
    "get t' k = Inr None"
  using drop_law [OF assms, of k] get_law by fastforce

lemma take_out_get:
  assumes "inv t" "look t k = Some (Some v)"
  obtains t1 t2 where "swap t k None = Inr (Some v, t1)" "drop_key t1 k = Inr (0, t2, [])" "inv t2"
    "look t2 = (look t)(k := None)"
  using take_out [OF assms] by blast

end

text \<open>\<open>uc_hash_find\<close> followed by \<open>uc_hash_node_val\<close>.\<close>

definition u64_get :: "'v uc_hash_table \<Rightarrow> u64 \<Rightarrow> crash + 'v option option" where
  "u64_get t k = run_bind (uc_hash_find t (key_u64 k)) (\<lambda>n. Inr (map_option (uc_hash_node_val t) n))"

lemma u64_find:
  assumes "u64_inv t"
  obtains (absent) "u64_look t k = None" "uc_hash_find t (key_u64 k) = Inr None"
    | (there) n v where "u64_look t k = Some v" "uc_hash_find t (key_u64 k) = Inr (Some n)"
      "uc_hash_node_val t n = v"
  using uc_hash_find_spec [of t "key_u64 k"] u64_table(1,2) [OF assms, of k] assms
  by (auto simp: u64_inv_def u64_look_def split: option.splits)

interpretation u64_map: searched_store u64_inv u64_look u64_alloc_ok
  "\<lambda>a t k v. uc_hash_insert a t (key_u64 k) v"
  "\<lambda>t k v. uc_hash_update t (key_u64 k) v"
  "\<lambda>t k. uc_hash_delete t (key_u64 k)"
  u64_get
proof
  fix t :: "'v uc_hash_table" and k
  assume "u64_inv t"
  then show "u64_get t k = Inr (u64_look t k)"
    by (cases rule: u64_find [of t k]) (simp_all add: u64_get_def)
qed

section \<open>Complete writes, complete packets\<close>

text \<open>The kernel takes \<open>n\<close> bytes, in pieces and after interruptions.\<close>

fun accepts :: "wrote list \<Rightarrow> nat \<Rightarrow> bool" where
  "accepts [] n = (n = 0)"
| "accepts (Wrote k # ws) n = (n = 0 \<or> 0 < k \<and> accepts ws (n - k))"
| "accepts (Wfailed e # ws) n = (n = 0 \<or> (e = EINTR \<or> e = EAGAIN) \<and> accepts ws n)"

lemma uc_io_write_accepts: "accepts ws (length data) \<Longrightarrow> uc_io_write data sent ws = Some (0, sent @ data)"
proof (induction data sent ws rule: uc_io_write.induct)
  case (2 left sent w ws)
  show ?case
  proof (cases "left = []")
    case False
    then show ?thesis
      using 2 by (cases w) (auto split: errno.splits)
  qed simp
qed auto

lemma build_packet_ok:
  assumes "mallocs_ok mal" "mal (SIZEOF_HEAD + head_ttl h) = Some mem"
    and "unat (head_ttl h) < 2 ^ 63" "b = buf_bytes buf" "length b = unat (head_ttl h)"
  shows "build_packet mem h buf (head_ttl h) = Inr (packet_bytes (h, b))"
proof -
  have "length mem = unat (SIZEOF_HEAD + head_ttl h)"
    using assms(1,2) by (simp add: mallocs_ok_def)
  also have "\<dots> = HEAD_LEN + length b"
    using assms(3,5) by (simp add: unat_plus_if' unat_SIZEOF_HEAD HEAD_LEN_def)
  finally have len: "length mem = HEAD_LEN + length b" .
  have "head_ttl h = 0 \<longleftrightarrow> b = []"
    using assms(5) by (metis length_0_conv unat_eq_zero)
  then show ?thesis
    using len assms(4,5)
    by (cases buf) (auto simp: build_packet_def store_at_def packet_bytes_def)
qed

section \<open>The server's reply\<close>

text \<open>The handler can reach the client \<open>uuid\<close> at \<open>fd\<close>.\<close>

definition reaches :: "uc_ipc_server_handler \<Rightarrow> u64 \<Rightarrow> int \<Rightarrow> bool" where
  "reaches hdl uuid fd \<longleftrightarrow> u64_inv (cli_fd_hash hdl) \<and> u64_look (cli_fd_hash hdl) uuid = Some (Some fd)"

definition reply_head :: "uc_ipc_server_handler \<Rightarrow> u64 \<Rightarrow> u32 \<Rightarrow> u64 \<Rightarrow> uc_ipc_proto_header" where
  "reply_head hdl ack_id mtype len =
     \<lparr>head_ttl = len, head_msg_type = mtype, head_seq_id = srv_seq_id hdl, head_ack_id = ack_id\<rparr>"

lemma send_msg_ok:
  assumes "mallocs_ok mal" "mal (SIZEOF_HEAD + len) \<noteq> None" "unat len < 2 ^ 63"
    and "length (buf_bytes buf) = unat len" "accepts ws (HEAD_LEN + unat len)" "reaches hdl uuid fd"
  shows "uc_ipc_server_send_msg mal ws hdl uuid ack_id mtype buf len =
    Inr (0, (snd (uc_ipc_server_next_seq_id hdl))\<lparr>sent_to := (sent_to hdl)(fd := sent_to hdl fd @
      packet_bytes (reply_head hdl ack_id mtype len, buf_bytes buf))\<rparr>)"
proof -
  let ?h = "reply_head hdl ack_id mtype len"
  obtain mem where mem: "mal (SIZEOF_HEAD + head_ttl ?h) = Some mem"
    using assms(2) by (auto simp: reply_head_def)
  have b: "build_packet mem ?h buf len = Inr (packet_bytes (?h, buf_bytes buf))"
    using build_packet_ok [OF assms(1) mem _ refl] assms(3,4) by (simp add: reply_head_def)
  have w: "uc_io_write (packet_bytes (?h, buf_bytes buf)) [] ws = Some (0, packet_bytes (?h, buf_bytes buf))"
    using uc_io_write_accepts [of ws "packet_bytes (?h, buf_bytes buf)" "[]"] assms(4,5)
    by (simp add: packet_bytes_def)
  have r: "u64_inv (cli_fd_hash hdl)" "u64_look (cli_fd_hash hdl) uuid = Some (Some fd)"
    using assms(6) by (simp_all add: reaches_def)
  from r(1) show ?thesis
  proof (cases rule: u64_find [where k = uuid])
    case (there n v)
    then have "uc_hash_node_val (cli_fd_hash hdl) n = Some fd"
      using r(2) by simp
    with there(2) show ?thesis
      using mem b w unfolding reply_head_def
      by (simp add: uc_ipc_server_send_msg_def uc_ipc_server_next_seq_id_def)
  qed (use r in simp)
qed

section \<open>The server's side of a request\<close>

text \<open>A connection on which a client waits: no message begun, its descriptor known to the handler.\<close>

definition idle_client :: "uc_ipc_server_handler \<Rightarrow> nat \<Rightarrow> u64 \<Rightarrow> int \<Rightarrow> bool" where
  "idle_client hdl ptr uuid fd \<longleftrightarrow> reaches hdl uuid fd \<and>
     (\<exists>cli. clients hdl ptr = Some cli \<and> cli_ok cli \<and> \<not> buf_done cli \<and> sofar cli = [] \<and>
        cli_uuid cli = uuid \<and> cli_fd cli = fd)"

lemma full_buf:
  assumes "cli_ok cli" "buf_done cli" "cli_msg cli = p"
  shows "buf_bytes (cli_buf cli) = snd p" "cli_head cli = fst p"
  using assms(3) by (auto simp: cli_msg_def)

text \<open>The rounds of the event loop up to and including the one that takes out the message.\<close>

lemma loop_rcv_takes_message:
  assumes "mallocs_ok mal" "fits mal p" "head_msg_type (fst p) = uc_ipc_msg_type_sync_send"
    and "clients hdl ptr = Some cli" "cli_ok cli" "\<not> buf_done cli" "cli_fd cli = fd" "cli_uuid cli = uuid"
    and "list_all calm (incoming hdl fd)"
    and "sofar cli @ stream_of (incoming hdl fd) = packet_bytes p" "accepts pw 8"
  shows "\<exists>n pd as cli'. n \<le> weight (incoming hdl fd) \<and>
    uc_ipc_server_loop_rcv mal hdl (replicate n (Ready ptr True ws pw)) =
      Inr (hdl\<lparr>clients := (clients hdl)(ptr \<mapsto> uc_ipc_server_reset_cli_proto cli'),
        incoming := (incoming hdl)(fd := as), pipe_msgs := pipe_msgs hdl @ [pd]\<rparr>) \<and>
    stream_of as = [] \<and> list_all calm as \<and> pd_uuid pd = uuid \<and> pd_head pd = fst p \<and>
    buf_bytes (pd_buf pd) = snd p \<and> cli_fd cli' = fd \<and> cli_uuid cli' = uuid"
  using assms
proof (induction "weight (incoming hdl fd)" arbitrary: hdl cli rule: less_induct)
  case less
  have eq: "sofar cli @ stream_of (incoming hdl fd) = packet_bytes p @ []"
    using less.prems(10) by simp
  from less.prems(5,6,1,9) eq less.prems(2) show ?case
  proof (cases rule: cli_read_packet)
    case (whole cli' as)
    note full = full_buf [OF whole(9,2,3)]
    let ?r = "hdl\<lparr>clients := (clients hdl)(ptr \<mapsto> cli'), incoming := (incoming hdl)(fd := as)\<rparr>"
    let ?pd = "\<lparr>pd_uuid = cli_uuid cli', pd_head = cli_head cli', pd_buf = cli_buf cli',
          return_addr = None, return_len = 0\<rparr>"
    have "uc_ipc_server_read_client mal hdl ptr = Inr (1, ?r)"
      using less.prems(4,7) whole(1) by (simp add: uc_ipc_server_read_client_def)
    moreover have "pipe_write pw h pd = Inr (0, h\<lparr>pipe_msgs := pipe_msgs h @ [pd]\<rparr>)" for h pd
      using uc_io_write_accepts [of pw "replicate 8 0" "[]"] less.prems(11) by (simp add: pipe_write_def)
    ultimately have "uc_ipc_server_loop_rcv mal hdl (replicate 1 (Ready ptr True ws pw)) =
      Inr (hdl\<lparr>clients := (clients hdl)(ptr \<mapsto> uc_ipc_server_reset_cli_proto cli'),
        incoming := (incoming hdl)(fd := as),
        pipe_msgs := pipe_msgs hdl @ [?pd]\<rparr>)"
      using whole(2) full less.prems(3)
      by (simp add: loop_rcv_event_def uc_ipc_server_handle_client_msg_def msg_types Let_def)
    moreover have "1 \<le> weight (incoming hdl fd)"
      using whole(6) by linarith
    ultimately show ?thesis
      using whole full less.prems(7,8)
      by (intro exI [of _ 1] exI [of _ ?pd] exI [of _ as] exI [of _ cli']) simp
  next
    case (part cli' as)
    let ?r = "hdl\<lparr>clients := (clients hdl)(ptr \<mapsto> cli'), incoming := (incoming hdl)(fd := as)\<rparr>"
    have step: "uc_ipc_server_read_client mal hdl ptr = Inr (0, ?r)"
      using less.prems(4,7) part(1) by (simp add: uc_ipc_server_read_client_def)
    have "\<exists>n pd as2 cli2. n \<le> weight (incoming ?r fd) \<and>
      uc_ipc_server_loop_rcv mal ?r (replicate n (Ready ptr True ws pw)) =
        Inr (?r\<lparr>clients := (clients ?r)(ptr \<mapsto> uc_ipc_server_reset_cli_proto cli2),
          incoming := (incoming ?r)(fd := as2), pipe_msgs := pipe_msgs ?r @ [pd]\<rparr>) \<and>
      stream_of as2 = [] \<and> list_all calm as2 \<and> pd_uuid pd = uuid \<and> pd_head pd = fst p \<and>
      buf_bytes (pd_buf pd) = snd p \<and> cli_fd cli2 = fd \<and> cli_uuid cli2 = uuid"
      using part less.prems by (intro less.hyps) auto
    then obtain n pd as2 cli2 where n: "n \<le> weight as"
      "uc_ipc_server_loop_rcv mal ?r (replicate n (Ready ptr True ws pw)) =
        Inr (hdl\<lparr>clients := (clients hdl)(ptr \<mapsto> uc_ipc_server_reset_cli_proto cli2),
          incoming := (incoming hdl)(fd := as2), pipe_msgs := pipe_msgs hdl @ [pd]\<rparr>)"
      "stream_of as2 = []" "list_all calm as2" "pd_uuid pd = uuid" "pd_head pd = fst p"
      "buf_bytes (pd_buf pd) = snd p" "cli_fd cli2 = fd" "cli_uuid cli2 = uuid"
      by auto
    have "uc_ipc_server_loop_rcv mal hdl (replicate (Suc n) (Ready ptr True ws pw)) =
        Inr (hdl\<lparr>clients := (clients hdl)(ptr \<mapsto> uc_ipc_server_reset_cli_proto cli2),
          incoming := (incoming hdl)(fd := as2), pipe_msgs := pipe_msgs hdl @ [pd]\<rparr>)"
      using step n(2) by (simp add: loop_rcv_event_def)
    moreover have "Suc n \<le> weight (incoming hdl fd)"
      using n(1) part(6) by linarith
    ultimately show ?thesis
      using n(3-9) by blast
  qed
qed

text \<open>From the arrival of a request to the reply on the wire.\<close>

definition request_ok :: "packet \<Rightarrow> bool" where
  "request_ok p \<longleftrightarrow> packet_ok p \<and> head_msg_type (fst p) = uc_ipc_msg_type_sync_send"

lemma server_answers:
  assumes mal: "mallocs_ok mal" "fits mal p" and p: "request_ok p"
    and idle: "idle_client hdl ptr uuid fd" "pipe_msgs hdl = []"
    and arr: "list_all calm (incoming hdl fd)" "stream_of (incoming hdl fd) = packet_bytes p"
    and io: "accepts pw 8" "accepts ws2 (HEAD_LEN + unat rlen)"
    and cb: "\<And>b. buf_bytes b = snd p \<Longrightarrow> cb uc_ipc_msg_type_sync_send b (head_ttl (fst p)) = (raddr, rlen)"
    and reply: "length (buf_bytes raddr) = unat rlen" "unat rlen < 2 ^ 63" "mal (SIZEOF_HEAD + rlen) \<noteq> None"
  shows "\<exists>n hdl1 hdl2. n \<le> weight (incoming hdl fd) \<and>
    uc_ipc_server_loop_rcv mal hdl (replicate n (Ready ptr True ws pw)) = Inr hdl1 \<and>
    uc_ipc_server_loop_callback mal ws2 cb hdl1 = Inr hdl2 \<and>
    sent_to hdl2 = (sent_to hdl)(fd := sent_to hdl fd @
      packet_bytes (reply_head hdl (head_seq_id (fst p)) uc_ipc_msg_type_sync_ack rlen, buf_bytes raddr)) \<and>
    idle_client hdl2 ptr uuid fd \<and> pipe_msgs hdl2 = [] \<and> stream_of (incoming hdl2 fd) = [] \<and>
    UC_IPC_SEQ_ID_MIN \<le> srv_seq_id hdl2"
proof -
  obtain cli where cli: "clients hdl ptr = Some cli" "cli_ok cli" "\<not> buf_done cli" "sofar cli = []"
    "cli_uuid cli = uuid" "cli_fd cli = fd" and r: "reaches hdl uuid fd"
    using idle(1) by (auto simp: idle_client_def)
  have "sofar cli @ stream_of (incoming hdl fd) = packet_bytes p" "head_msg_type (fst p) = uc_ipc_msg_type_sync_send"
    using cli(4) arr(2) p by (simp_all add: request_ok_def)
  from loop_rcv_takes_message [OF mal this(2) cli(1-3,6,5) arr(1) this(1) io(1), of ws]
  obtain n pd as cli' where n: "n \<le> weight (incoming hdl fd)"
    "uc_ipc_server_loop_rcv mal hdl (replicate n (Ready ptr True ws pw)) =
      Inr (hdl\<lparr>clients := (clients hdl)(ptr \<mapsto> uc_ipc_server_reset_cli_proto cli'),
        incoming := (incoming hdl)(fd := as), pipe_msgs := pipe_msgs hdl @ [pd]\<rparr>)"
    "stream_of as = []" "pd_uuid pd = uuid" "pd_head pd = fst p"
    "buf_bytes (pd_buf pd) = snd p" "cli_fd cli' = fd" "cli_uuid cli' = uuid"
    by blast
  let ?h1 = "hdl\<lparr>clients := (clients hdl)(ptr \<mapsto> uc_ipc_server_reset_cli_proto cli'),
        incoming := (incoming hdl)(fd := as), pipe_msgs := pipe_msgs hdl @ [pd]\<rparr>"
  let ?h0 = "?h1\<lparr>pipe_msgs := []\<rparr>"
  have "reaches ?h0 uuid fd"
    using r by (simp add: reaches_def)
  from send_msg_ok [OF mal(1) reply(3,2,1) io(2) this]
  have send: "uc_ipc_server_send_msg mal ws2 ?h0 uuid (head_seq_id (fst p)) uc_ipc_msg_type_sync_ack raddr rlen =
    Inr (0, (snd (uc_ipc_server_next_seq_id ?h0))\<lparr>sent_to := (sent_to ?h0)(fd := sent_to ?h0 fd @
      packet_bytes (reply_head ?h0 (head_seq_id (fst p)) uc_ipc_msg_type_sync_ack rlen, buf_bytes raddr))\<rparr>)" .
  let ?h2 = "(snd (uc_ipc_server_next_seq_id ?h0))\<lparr>sent_to := (sent_to ?h0)(fd := sent_to ?h0 fd @
      packet_bytes (reply_head ?h0 (head_seq_id (fst p)) uc_ipc_msg_type_sync_ack rlen, buf_bytes raddr))\<rparr>"
  have "uc_ipc_server_loop_callback mal ws2 cb ?h1 = Inr ?h2"
    using send idle(2) n(4-6) p cb [of "pd_buf pd"]
    by (simp add: uc_ipc_server_loop_callback_def Let_def msg_types request_ok_def uc_ipc_server_free_pipe_msg_def)
  moreover have "idle_client ?h2 ptr uuid fd"
    using r n(7,8) by (simp add: idle_client_def reaches_def uc_ipc_server_next_seq_id_def)
      (simp add: uc_ipc_server_reset_cli_proto_def)
  ultimately show ?thesis
    using n(1-3) by (intro exI [of _ n] exI [of _ ?h1] exI [of _ ?h2])
      (simp add: uc_ipc_server_next_seq_id_def reply_head_def Let_def not_less)
qed

section \<open>The client's side\<close>

definition request_head :: "u64 \<Rightarrow> u32 \<Rightarrow> u64 \<Rightarrow> uc_ipc_proto_header" where
  "request_head seq_id mtype len =
     \<lparr>head_ttl = len, head_msg_type = mtype, head_seq_id = seq_id, head_ack_id = 0\<rparr>"

text \<open>An environment in which nothing fails, for a payload of this length.\<close>

definition send_env_ok :: "send_env \<Rightarrow> u64 \<Rightarrow> bool" where
  "send_env_ok e len \<longleftrightarrow> mallocs_ok (se_malloc e) \<and> se_malloc e (SIZEOF_HEAD + len) \<noteq> None \<and> se_mem_ok e \<and>
     u64_alloc_ok (se_node e) \<and> accepts (se_writes e) (HEAD_LEN + unat len) \<and> unat len < 2 ^ 63"

lemma send_begin_ok:
  assumes "send_env_ok e len" "u64_inv (ack_hash hdl)" "length (buf_bytes buf) = unat len"
  obtains h where "send_begin e mtype e1 e2 hdl buf len = Inr (Inr (cl_seq_id hdl), h)"
    "cl_out h = cl_out hdl @ packet_bytes (request_head (cl_seq_id hdl) mtype len, buf_bytes buf)"
    "u64_inv (ack_hash h)" "u64_look (ack_hash h) = (u64_look (ack_hash hdl))(cl_seq_id hdl \<mapsto> None)"
proof -
  let ?seq = "cl_seq_id hdl" and ?h = "request_head (cl_seq_id hdl) mtype len"
  note e = assms(1) [unfolded send_env_ok_def]
  obtain t freed where t: "uc_hash_insert (se_node e) (ack_hash hdl) (key_u64 ?seq) None = Inr (0, t, freed)"
    "u64_inv t" "u64_look t = (u64_look (ack_hash hdl))(?seq \<mapsto> None)"
    using u64_map.put_get [OF assms(2), of "se_node e" ?seq None] e by metis
  obtain mem where mem: "se_malloc e (SIZEOF_HEAD + head_ttl ?h) = Some mem"
    using e by (auto simp: request_head_def)
  have b: "build_packet mem ?h buf len = Inr (packet_bytes (?h, buf_bytes buf))"
    using build_packet_ok [of "se_malloc e" ?h mem _ buf, OF _ mem _ refl] e assms(3) by (simp add: request_head_def)
  have w: "uc_io_write (packet_bytes (?h, buf_bytes buf)) [] (se_writes e) = Some (0, packet_bytes (?h, buf_bytes buf))"
    using uc_io_write_accepts [of "se_writes e" "packet_bytes (?h, buf_bytes buf)" "[]"] e assms(3)
    by (simp add: packet_bytes_def)
  let ?r = "(snd (uc_ipc_client_next_seq_id hdl))\<lparr>ack_hash := t, cl_out := cl_out hdl @ packet_bytes (?h, buf_bytes buf)\<rparr>"
  have "send_begin e mtype e1 e2 hdl buf len = Inr (Inr ?seq, ?r)"
    using t(1) mem b w e unfolding request_head_def
    by (simp add: send_begin_def uc_ipc_client_next_seq_id_def uc_ipc_client_insert_seq_def
        uc_ipc_client_send_def uc_ipc_client_write_def)
  moreover have "ack_hash ?r = t" "cl_out ?r = cl_out hdl @ packet_bytes (?h, buf_bytes buf)"
    by simp_all
  ultimately show thesis
    using that [of ?r] t(2,3) by metis
qed

text \<open>An acknowledgement from the server for an awaited number reaches the table.\<close>

definition answer_ok :: "u64 \<Rightarrow> packet \<Rightarrow> bool" where
  "answer_ok seq_id p \<longleftrightarrow> packet_ok p \<and> head_ack_id (fst p) = seq_id \<and> UC_IPC_SEQ_ID_MIN \<le> seq_id \<and>
     UC_IPC_SEQ_ID_MIN \<le> head_seq_id (fst p) \<and> unat (head_ttl (fst p)) < 2 ^ 63 \<and>
     (head_msg_type (fst p) = uc_ipc_msg_type_async_ack \<or> head_msg_type (fst p) = uc_ipc_msg_type_sync_ack)"

lemma rcv_answer:
  assumes "mallocs_ok mal" "mal (SIZEOF_HEAD + head_ttl (fst p)) \<noteq> None" "answer_ok seq_id p"
    and "list_all calm (cl_in h)" "stream_of (cl_in h) = packet_bytes p @ rest"
    and "u64_inv (ack_hash h)" "u64_look (ack_hash h) seq_id = Some old"
  obtains h' where "uc_ipc_client_loop_rcv mal e h = Inr h'" "u64_inv (ack_hash h')"
    "u64_look (ack_hash h') = (u64_look (ack_hash h))(seq_id \<mapsto> Some p)" "stream_of (cl_in h') = rest"
proof -
  note p = assms(3) [unfolded answer_ok_def packet_ok_def]
  obtain as1 where as1: "uc_io_read HEAD_LEN [] (cl_in h) = Some ((0, head_bytes (fst p), False), as1)"
    "list_all calm as1" "stream_of as1 = snd p @ rest"
    using uc_io_read_calm [OF assms(4), of HEAD_LEN "[]"] assms(5)
    by (auto simp: packet_bytes_def)
  obtain as2 where as2: "uc_io_read (unat (head_ttl (fst p))) [] as1 = Some ((0, snd p, False), as2)"
    "stream_of as2 = rest"
    using uc_io_read_calm [OF as1(2), of "unat (head_ttl (fst p))" "[]"] as1(3) p by auto
  obtain mem where mem: "mal (SIZEOF_HEAD + head_ttl (fst p)) = Some mem"
    using assms(2) by auto
  have "length mem = unat (SIZEOF_HEAD + head_ttl (fst p))"
    using assms(1) mem by (simp add: mallocs_ok_def)
  also have "\<dots> = HEAD_LEN + length (snd p)"
    using p by (simp add: unat_plus_if' unat_SIZEOF_HEAD HEAD_LEN_def)
  finally obtain m where "store_at 0 mem (head_bytes (fst p)) = Inr m" "store_at HEAD_LEN m (snd p) = Inr (packet_bytes p)"
    by (simp add: store_at_def packet_bytes_def)
  moreover obtain t where t: "uc_hash_update (ack_hash h) (key_u64 seq_id) (Some p) = Inr (old, t)" "u64_inv t"
    "u64_look t = (u64_look (ack_hash h))(seq_id \<mapsto> Some p)"
    using u64_map.swap_get [OF assms(6,7), of "Some p"] by metis
  have find: "\<exists>n. uc_hash_find (ack_hash h) (key_u64 seq_id) = Inr (Some n)"
    using assms(6,7) by (cases rule: u64_find [OF assms(6), of seq_id]) auto
  ultimately have "uc_ipc_client_loop_rcv mal e h = Inr (h\<lparr>cl_in := as2, ack_hash := t\<rparr>)"
    using as1(1) as2(1) mem p t(1)
    by (auto simp: uc_ipc_client_loop_rcv_def Let_def rcv_dispatch_def msg_types packet_bytes_def)
  moreover have "ack_hash (h\<lparr>cl_in := as2, ack_hash := t\<rparr>) = t" "cl_in (h\<lparr>cl_in := as2, ack_hash := t\<rparr>) = as2"
    by simp_all
  ultimately show thesis
    using that t(2,3) as2(2) by metis
qed

text \<open>What the waiting thread finds in the table decides how the wait goes on.\<close>

lemma ack_val_look:
  assumes "u64_inv (ack_hash h)" "u64_look (ack_hash h) seq_id = Some v"
  shows "ack_val h seq_id = Inr v"
  using assms(1)
proof (cases rule: u64_find [where k = seq_id])
  case (there n w)
  then show ?thesis
    using assms(2) by (simp add: ack_val_def)
qed (use assms in simp)

definition awaits :: "u64 \<Rightarrow> uc_ipc_client_handler \<Rightarrow> bool" where
  "awaits seq_id h \<longleftrightarrow> u64_inv (ack_hash h) \<and> u64_look (ack_hash h) seq_id = Some None"

lemma ack_wait_answered:
  assumes "awaits seq_id h" "list_all (awaits seq_id) hs" "u64_inv (ack_hash h')"
    and "u64_look (ack_hash h') seq_id = Some (Some msg)" "timed \<longrightarrow> valid"
  shows "ack_wait timed valid seq_id ret h (map Woken hs @ Woken h' # ws) = Inr (0, h')"
  using assms(1,2)
proof (induction hs arbitrary: h ret)
  case Nil
  then have "ack_val h seq_id = Inr None" "ack_val h' seq_id = Inr (Some msg)"
    using assms(3,4) by (auto simp: awaits_def intro: ack_val_look)
  then show ?case
    using assms(5) by (cases ws) auto
next
  case (Cons g hs)
  then have "ack_val h seq_id = Inr None"
    by (auto simp: awaits_def intro: ack_val_look)
  then show ?case
    using Cons assms(5) by auto
qed

lemma ack_wait_timed_out:
  assumes "awaits seq_id h" "list_all (awaits seq_id) hs"
  shows "ack_wait True True seq_id ret h (map Woken hs @ Timed_out h' # ws) = Inr (110, h')"
  using assms
proof (induction hs arbitrary: h ret)
  case Nil
  then show ?case
    by (auto simp: awaits_def dest: ack_val_look)
next
  case (Cons g hs)
  then have "ack_val h seq_id = Inr None"
    by (auto simp: awaits_def intro: ack_val_look)
  then show ?case
    using Cons by auto
qed

text \<open>The answer is there when the mutex is locked, or comes after some wake-ups for nothing.\<close>

lemma take_answer:
  assumes "u64_inv (ack_hash h')" "u64_look (ack_hash h') seq_id = Some (Some msg)"
  obtains t1 t2 where "uc_hash_update (ack_hash h') (key_u64 seq_id) None = Inr (Some msg, t1)"
    "uc_hash_delete t1 (key_u64 seq_id) = Inr (0, t2, [])" "u64_inv t2"
    "u64_look t2 = (u64_look (ack_hash h'))(seq_id := None)"
  using u64_map.take_out_get [OF assms] by metis

lemma wait_ack_early:
  assumes "u64_inv (ack_hash h)" "u64_look (ack_hash h) seq_id = Some (Some msg)"
  obtains h2 where "uc_ipc_client_wait_ack now ws h seq_id wait_ms = Inr (0, h2, Some msg)"
    "u64_inv (ack_hash h2)" "u64_look (ack_hash h2) = (u64_look (ack_hash h))(seq_id := None)"
proof -
  have "ack_wait timed valid seq_id 0 h ws = Inr (0, h)" for timed valid
    using ack_val_look [OF assms] by (cases ws) simp_all
  moreover obtain n where "uc_hash_find (ack_hash h) (key_u64 seq_id) = Inr (Some n)"
    using assms u64_find [of "ack_hash h" seq_id] by (metis option.distinct(1))
  moreover obtain t1 t2 where t: "uc_hash_update (ack_hash h) (key_u64 seq_id) None = Inr (Some msg, t1)"
    "uc_hash_delete t1 (key_u64 seq_id) = Inr (0, t2, [])" "u64_inv t2"
    "u64_look t2 = (u64_look (ack_hash h))(seq_id := None)"
    by (rule take_answer [OF assms])
  ultimately have "uc_ipc_client_wait_ack now ws h seq_id wait_ms = Inr (0, h\<lparr>ack_hash := t2\<rparr>, Some msg)"
    by (simp add: uc_ipc_client_wait_ack_def)
  with t(3,4) that [of "h\<lparr>ack_hash := t2\<rparr>"] show thesis
    by simp
qed

lemma wait_ack_answered:
  assumes "awaits seq_id h" "list_all (awaits seq_id) hs" "u64_inv (ack_hash h')"
    and "u64_look (ack_hash h') seq_id = Some (Some msg)"
    and "wait_ms = 0 \<or> deadline_valid (outtime_nsec now wait_ms)"
  obtains h2 where "uc_ipc_client_wait_ack now (map Woken hs @ Woken h' # ws) h seq_id wait_ms = Inr (0, h2, Some msg)"
    "u64_inv (ack_hash h2)" "u64_look (ack_hash h2) = (u64_look (ack_hash h'))(seq_id := None)"
proof -
  have w: "ack_wait (wait_ms \<noteq> 0) (deadline_valid (outtime_nsec now wait_ms)) seq_id 0 h
      (map Woken hs @ Woken h' # ws) = Inr (0, h')"
    using ack_wait_answered [OF assms(1-4)] assms(5) by (cases "wait_ms = 0") simp_all
  obtain n where n: "uc_hash_find (ack_hash h) (key_u64 seq_id) = Inr (Some n)"
    using assms(1) u64_find [of "ack_hash h" seq_id] unfolding awaits_def by (metis option.distinct(1))
  obtain t1 t2 where t: "uc_hash_update (ack_hash h') (key_u64 seq_id) None = Inr (Some msg, t1)"
    "uc_hash_delete t1 (key_u64 seq_id) = Inr (0, t2, [])" "u64_inv t2"
    "u64_look t2 = (u64_look (ack_hash h'))(seq_id := None)"
    by (rule take_answer [OF assms(3,4)])
  have "uc_ipc_client_wait_ack now (map Woken hs @ Woken h' # ws) h seq_id wait_ms =
      Inr (0, h'\<lparr>ack_hash := t2\<rparr>, Some msg)"
    using w n t(1,2) by (simp add: uc_ipc_client_wait_ack_def)
  moreover have "ack_hash (h'\<lparr>ack_hash := t2\<rparr>) = t2"
    by simp
  ultimately show thesis
    using that t(3,4) by metis
qed

end
