(* ===== verification/Ipc_Calls.thy ===== *)
theory Ipc_Calls
  imports Ipc_Service
begin

text \<open>
  Calls through both programs: a client's synchronous call that the server answers, and what goes
  wrong where the code goes wrong. A call is composed from the two models: the bytes the client has
  written arrive at the server's descriptor, those the server has written arrive at the client's
  socket, each cut into pieces by the kernel.
\<close>

section \<open>One connection of both programs\<close>

record link =
  ln_cut :: "u8 list \<Rightarrow> arrival list"
  ln_ptr :: nat
  ln_uuid :: u64
  ln_fd :: int
  ln_malloc :: mallocs
  ln_pipe :: "wrote list"
  ln_writes :: "wrote list"
  ln_callback :: callback
  ln_rounds :: nat
  ln_cl_malloc :: mallocs
  ln_reconnect :: reconnect_env

text \<open>
  The server sees what is new of the client's output, its receiver and its callback thread run, and
  the client's receiver sees what is new of the server's output.
\<close>

definition exchange ::
  "link \<Rightarrow> uc_ipc_server_handler \<Rightarrow> nat \<Rightarrow> uc_ipc_client_handler \<Rightarrow>
   stop + uc_ipc_server_handler \<times> uc_ipc_client_handler" where
  "exchange l srv sent h =
     (let fd = ln_fd l;
          srv1 = srv\<lparr>incoming := (incoming srv)(fd := ln_cut l (drop sent (cl_out h)))\<rparr>
      in run_bind (uc_ipc_server_loop_rcv (ln_malloc l) srv1
           (replicate (ln_rounds l) (Ready (ln_ptr l) True [] (ln_pipe l)))) (\<lambda>srv2.
         run_bind (uc_ipc_server_loop_callback (ln_malloc l) (ln_writes l) (ln_callback l) srv2) (\<lambda>srv3.
         run_bind (uc_ipc_client_loop_rcv (ln_cl_malloc l) (ln_reconnect l)
           (h\<lparr>cl_in := ln_cut l (drop (length (sent_to srv fd)) (sent_to srv3 fd))\<rparr>)) (\<lambda>h2.
           Inr (srv3, h2)))))"

text \<open>
  What the sender finds: with \<open>None\<close> the receiver's work when it locks the mutex; else nothing new then
  and at some wake-ups, and the receiver's work at the last.
\<close>

definition answer_wakes ::
  "link \<Rightarrow> uc_ipc_server_handler \<Rightarrow> nat \<Rightarrow> nat option \<Rightarrow> meanwhile" where
  "answer_wakes l srv sent spurious h =
     (case exchange l srv sent h of
        Inl e \<Rightarrow> (h, [])
      | Inr (srv2, h2) \<Rightarrow>
          (case spurious of
             None \<Rightarrow> (h2, [])
           | Some k \<Rightarrow> (h, replicate k (Woken h) @ [Woken h2])))"

section \<open>A synchronous call\<close>

text \<open>The kernel delivers what was written, in pieces of its choice.\<close>

definition cuts :: "(u8 list \<Rightarrow> arrival list) \<Rightarrow> bool" where
  "cuts f \<longleftrightarrow> (\<forall>bs. list_all calm (f bs) \<and> stream_of (f bs) = bs)"

text \<open>Both sides have memory for the request and for a reply of \<open>rlen\<close> bytes; the writes complete.\<close>

definition link_ok :: "link \<Rightarrow> packet \<Rightarrow> u64 \<Rightarrow> bool" where
  "link_ok l p rlen \<longleftrightarrow> cuts (ln_cut l) \<and> mallocs_ok (ln_malloc l) \<and> fits (ln_malloc l) p \<and>
     ln_malloc l (SIZEOF_HEAD + rlen) \<noteq> None \<and> mallocs_ok (ln_cl_malloc l) \<and>
     ln_cl_malloc l (SIZEOF_HEAD + rlen) \<noteq> None \<and> accepts (ln_pipe l) 8 \<and>
     accepts (ln_writes l) (HEAD_LEN + unat rlen) \<and> unat rlen < 2 ^ 63"

definition idle_server :: "uc_ipc_server_handler \<Rightarrow> link \<Rightarrow> bool" where
  "idle_server srv l \<longleftrightarrow> idle_client srv (ln_ptr l) (ln_uuid l) (ln_fd l) \<and> pipe_msgs srv = [] \<and>
     UC_IPC_SEQ_ID_MIN \<le> srv_seq_id srv"

lemma idle_client_incoming [simp]:
  "idle_client (srv\<lparr>incoming := f\<rparr>) ptr uuid fd = idle_client srv ptr uuid fd"
  by (simp add: idle_client_def reaches_def)

lemma exchange_answers:
  assumes l: "link_ok l p rlen" and p: "request_ok p" and srv: "idle_server srv l"
    and h: "drop sent (cl_out h) = packet_bytes p" "u64_inv (ack_hash h)"
      "u64_look (ack_hash h) (head_seq_id (fst p)) = Some old" "UC_IPC_SEQ_ID_MIN \<le> head_seq_id (fst p)"
    and cb: "\<And>b. buf_bytes b = snd p \<Longrightarrow> ln_callback l uc_ipc_msg_type_sync_send b (head_ttl (fst p)) = (raddr, rlen)"
    and raddr: "length (buf_bytes raddr) = unat rlen"
  shows "\<exists>n srv2 h2. n \<le> weight (ln_cut l (packet_bytes p)) \<and>
    exchange (l\<lparr>ln_rounds := n\<rparr>) srv sent h = Inr (srv2, h2) \<and> idle_server srv2 l \<and>
    u64_inv (ack_hash h2) \<and> u64_look (ack_hash h2) = (u64_look (ack_hash h))(head_seq_id (fst p) \<mapsto>
      Some (reply_head srv (head_seq_id (fst p)) uc_ipc_msg_type_sync_ack rlen, buf_bytes raddr))"
proof -
  let ?reply = "(reply_head srv (head_seq_id (fst p)) uc_ipc_msg_type_sync_ack rlen, buf_bytes raddr)"
  let ?srv1 = "srv\<lparr>incoming := (incoming srv)(ln_fd l := ln_cut l (packet_bytes p))\<rparr>"
  note l' = l [unfolded link_ok_def cuts_def] and srv' = srv [unfolded idle_server_def]
  have "\<exists>n hdl1 hdl2. n \<le> weight (incoming ?srv1 (ln_fd l)) \<and>
    uc_ipc_server_loop_rcv (ln_malloc l) ?srv1 (replicate n (Ready (ln_ptr l) True [] (ln_pipe l))) = Inr hdl1 \<and>
    uc_ipc_server_loop_callback (ln_malloc l) (ln_writes l) (ln_callback l) hdl1 = Inr hdl2 \<and>
    sent_to hdl2 = (sent_to ?srv1)(ln_fd l := sent_to ?srv1 (ln_fd l) @
      packet_bytes (reply_head ?srv1 (head_seq_id (fst p)) uc_ipc_msg_type_sync_ack rlen, buf_bytes raddr)) \<and>
    idle_client hdl2 (ln_ptr l) (ln_uuid l) (ln_fd l) \<and> pipe_msgs hdl2 = [] \<and> stream_of (incoming hdl2 (ln_fd l)) = [] \<and>
    UC_IPC_SEQ_ID_MIN \<le> srv_seq_id hdl2"
    using l' srv' p cb raddr by (intro server_answers) simp_all
  then obtain n hdl1 hdl2 where n: "n \<le> weight (ln_cut l (packet_bytes p))"
    and run: "uc_ipc_server_loop_rcv (ln_malloc l) ?srv1 (replicate n (Ready (ln_ptr l) True [] (ln_pipe l))) = Inr hdl1"
      "uc_ipc_server_loop_callback (ln_malloc l) (ln_writes l) (ln_callback l) hdl1 = Inr hdl2"
    and sent: "sent_to hdl2 (ln_fd l) = sent_to srv (ln_fd l) @ packet_bytes ?reply"
    and idle: "idle_server hdl2 l"
    by (auto simp: idle_server_def reply_head_def)
  let ?h = "h\<lparr>cl_in := ln_cut l (packet_bytes ?reply)\<rparr>"
  have ans: "answer_ok (head_seq_id (fst p)) ?reply"
    using h(4) srv' l' raddr by (simp add: answer_ok_def packet_ok_def reply_head_def)
  have m: "mallocs_ok (ln_cl_malloc l)" "ln_cl_malloc l (SIZEOF_HEAD + head_ttl (fst ?reply)) \<noteq> None"
    using l' by (simp_all add: reply_head_def)
  have arr: "list_all calm (cl_in ?h)" "stream_of (cl_in ?h) = packet_bytes ?reply @ []"
    and tbl: "u64_inv (ack_hash ?h)" "u64_look (ack_hash ?h) (head_seq_id (fst p)) = Some old"
    using l' h(2,3) by simp_all
  obtain h2 where h2: "uc_ipc_client_loop_rcv (ln_cl_malloc l) (ln_reconnect l) ?h = Inr h2"
    "u64_inv (ack_hash h2)" "u64_look (ack_hash h2) = (u64_look (ack_hash h))(head_seq_id (fst p) \<mapsto> Some ?reply)"
    using rcv_answer [OF m ans arr tbl, of "ln_reconnect l"] by auto
  have "exchange (l\<lparr>ln_rounds := n\<rparr>) srv sent h = Inr (hdl2, h2)"
    using run h2(1) sent h(1) by (simp add: exchange_def)
  then show ?thesis
    using n idle h2(2,3) by blast
qed

section \<open>Concrete programs for the instances\<close>

definition demo_tbl :: "(u64 \<times> 'v option) list \<Rightarrow> 'v uc_hash_table" where
  "demo_tbl kvs = \<lparr>tname = [], key_type = uc_hash_key_uint64, mem_key_len = 0,
     node_ttl = word_of_nat (length kvs), height = 1, hash_cal_fun = (\<lambda>b. 0),
     nodes = [map (\<lambda>(k, v). \<lparr>keys = key_u64 k, val = v\<rparr>) kvs]\<rparr>"

lemma demo_tbl_empty [simp]: "u64_inv (demo_tbl [])" "u64_look (demo_tbl []) = Map.empty"
  by (simp_all add: demo_tbl_def u64_inv_def u64_look_def hash_inv_def hash_map_def chain_ok_def
      valid_key_type_def fun_eq_iff)

lemma demo_tbl_one [simp]: "u64_inv (demo_tbl [(k, v)])" "u64_look (demo_tbl [(k, v)]) = [k \<mapsto> v]"
proof -
  show "u64_inv (demo_tbl [(k, v)])"
    by (simp add: demo_tbl_def u64_inv_def u64_look_def hash_inv_def hash_map_def chain_ok_def
      valid_key_type_def tbl_wf_key_def wf_key_def key_u64_def UC_HASH_KEY_SIZE_def tbl_key_len_def
      entry_def kb_def slot_of_def key_bytes_def)
  have "u64_look (demo_tbl [(k, v)]) x = (if x = k then Some v else None)" for x
    by (simp add: u64_look_def hash_map_def demo_tbl_def entry_def kb_def tbl_key_len_def)
  then show "u64_look (demo_tbl [(k, v)]) = [k \<mapsto> v]"
    by auto
qed

definition demo_malloc :: mallocs where
  "demo_malloc n = (if unat n < 4096 then Some (replicate (unat n) 0) else None)"

lemma demo_malloc_numeral [simp]: "demo_malloc (numeral k) =
    (if unat (numeral k :: u64) < 4096 then Some (replicate (unat (numeral k :: u64)) 0) else None)"
  by (simp only: demo_malloc_def)

definition demo_cut :: "u8 list \<Rightarrow> arrival list" where
  "demo_cut bs = map (\<lambda>b. Data [b]) bs"

lemma demo_env [simp]: "mallocs_ok demo_malloc" "cuts demo_cut"
proof -
  show "mallocs_ok demo_malloc"
    by (simp add: mallocs_ok_def demo_malloc_def)
  have "list_all calm (demo_cut bs) \<and> stream_of (demo_cut bs) = bs" for bs
    by (induction bs) (simp_all add: demo_cut_def)
  then show "cuts demo_cut"
    by (simp add: cuts_def)
qed

definition demo_client :: uc_ipc_client_handler where
  "demo_client = \<lparr>io_done = True, io_sockfd = 4, cl_seq_id = 20000, ack_hash = demo_tbl [],
     cl_out = [], cl_in = []\<rparr>"

definition demo_conn :: uc_ipc_cli where
  "demo_conn = \<lparr>cli_fd = 9, cli_uuid = 7, has_read = 0, head_done = False, buf_done = False,
     ipc_head = replicate HEAD_LEN 0, cli_buf = None\<rparr>"

definition demo_server :: uc_ipc_server_handler where
  "demo_server = \<lparr>clients = [1 \<mapsto> demo_conn], epoll_set = [9 \<mapsto> 1], cli_info_hash = demo_tbl [(7, Some 1)],
     cli_fd_hash = demo_tbl [(7, Some 9)], srv_seq_id = 30000, pipe_msgs = [],
     incoming = (\<lambda>fd. []), sent_to = (\<lambda>fd. [])\<rparr>"

definition demo_send :: send_env where
  "demo_send = \<lparr>se_malloc = demo_malloc, se_mem_ok = True, se_node = Some (0, key_u64 0),
     se_writes = [Wrote 10, Wfailed EINTR, Wrote 30], se_now_usec = 0\<rparr>"

definition demo_link :: link where
  "demo_link = \<lparr>ln_cut = demo_cut, ln_ptr = 1, ln_uuid = 7, ln_fd = 9, ln_malloc = demo_malloc,
     ln_pipe = [Wrote 8], ln_writes = [Wrote 12, Wrote 50], ln_callback = (\<lambda>t b n. (Some [9, 8], 2)),
     ln_rounds = 0, ln_cl_malloc = demo_malloc,
     ln_reconnect = \<lparr>rc_socket = [], rc_random = [], rc_connect = [], rc_in = []\<rparr>\<rparr>"

lemma demo_ipc_facts:
  "send_env_ok demo_send 3" "idle_server demo_server demo_link" "cl_seq_id demo_client = 20000"
  "ack_hash demo_client = demo_tbl []" "se_now_usec demo_send = 0"
  "cl_out demo_client = []" "ln_callback demo_link t b n = (Some [9, 8], 2)"
  by (simp_all add: demo_send_def send_env_ok_def SIZEOF_HEAD_def HEAD_LEN_def u64_alloc_ok_def
      key_u64_def UC_HASH_KEY_SIZE_def demo_server_def demo_link_def idle_server_def idle_client_def
      reaches_def demo_conn_def cli_ok_def head_phase_def sofar_def UC_IPC_SEQ_ID_MIN_def demo_client_def)

text \<open>C5: a synchronous call returns the server's answer. When memory, writes and the deadline allow
  it, and however the kernel cuts the bytes of both directions, the call sends one request, the
  server reassembles it and hands it to the callback, and the caller gets 0 and exactly the callback's
  bytes in a packet that acknowledges its number, which is awaited no longer: whether the answer is
  there before the caller takes the lock to wait (then the deadline does not matter) or wakes it up.\<close>

theorem uc_ipc_sync_call:
  assumes env: "send_env_ok e len" "length (buf_bytes buf) = unat len"
    and hdl: "u64_inv (ack_hash hdl)" "UC_IPC_SEQ_ID_MIN \<le> cl_seq_id hdl"
    and l: "link_ok l (request_head (cl_seq_id hdl) uc_ipc_msg_type_sync_send len, buf_bytes buf) rlen"
    and srv: "idle_server srv l"
    and cb: "\<And>b. buf_bytes b = buf_bytes buf \<Longrightarrow> ln_callback l uc_ipc_msg_type_sync_send b len = (raddr, rlen)"
    and raddr: "length (buf_bytes raddr) = unat rlen"
    and deadline: "k = None \<or> wait_ms = 0 \<or> deadline_valid (outtime_nsec (se_now_usec e) wait_ms)"
  shows "\<exists>n h. uc_ipc_client_sync_send e (answer_wakes (l\<lparr>ln_rounds := n\<rparr>) srv (length (cl_out hdl)) k) hdl buf len wait_ms =
      Inr (0, h, Some (reply_head srv (cl_seq_id hdl) uc_ipc_msg_type_sync_ack rlen, buf_bytes raddr)) \<and>
    u64_inv (ack_hash h) \<and> u64_look (ack_hash h) = (u64_look (ack_hash hdl))(cl_seq_id hdl := None)"
proof -
  let ?p = "(request_head (cl_seq_id hdl) uc_ipc_msg_type_sync_send len, buf_bytes buf)"
  let ?reply = "(reply_head srv (cl_seq_id hdl) uc_ipc_msg_type_sync_ack rlen, buf_bytes raddr)"
  obtain h0 where h0: "send_begin e uc_ipc_msg_type_sync_send (- 0x7b4123c4) (- 0x5f879be6) hdl buf len =
      Inr (Inr (cl_seq_id hdl), h0)" "cl_out h0 = cl_out hdl @ packet_bytes ?p" "u64_inv (ack_hash h0)"
    "u64_look (ack_hash h0) = (u64_look (ack_hash hdl))(cl_seq_id hdl \<mapsto> None)"
    using send_begin_ok [OF env(1) hdl(1) env(2)] .
  have p: "request_ok ?p" "head_seq_id (fst ?p) = cl_seq_id hdl" "head_ttl (fst ?p) = len"
    using env(2) by (simp_all add: request_ok_def packet_ok_def request_head_def)
  obtain n srv2 h2 where ex: "exchange (l\<lparr>ln_rounds := n\<rparr>) srv (length (cl_out hdl)) h0 = Inr (srv2, h2)"
    "u64_inv (ack_hash h2)" "u64_look (ack_hash h2) = (u64_look (ack_hash h0))(cl_seq_id hdl \<mapsto> Some ?reply)"
    using exchange_answers [OF l p(1) srv, of "length (cl_out hdl)" h0 None raddr] h0 hdl(2) cb raddr p(2,3) by auto
  have ans: "u64_look (ack_hash h2) (cl_seq_id hdl) = Some (Some ?reply)"
    using ex(3) by simp
  let ?w = "answer_wakes (l\<lparr>ln_rounds := n\<rparr>) srv (length (cl_out hdl)) k h0"
  obtain h where h: "uc_ipc_client_wait_ack (se_now_usec e) (snd ?w) (fst ?w) (cl_seq_id hdl) wait_ms = Inr (0, h, Some ?reply)"
    "u64_inv (ack_hash h)" "u64_look (ack_hash h) = (u64_look (ack_hash h2))(cl_seq_id hdl := None)"
  proof (cases k)
    case None
    then have "?w = (h2, [])"
      using ex(1) by (simp add: answer_wakes_def)
    with wait_ack_early [OF ex(2) ans, of "se_now_usec e" "[]" wait_ms] show thesis
      using that by auto
  next
    case (Some j)
    then have w: "?w = (h0, map Woken (replicate j h0) @ [Woken h2])"
      using ex(1) by (simp add: answer_wakes_def)
    have "awaits (cl_seq_id hdl) h0" "list_all (awaits (cl_seq_id hdl)) (replicate j h0)"
      using h0(3,4) by (simp_all add: awaits_def list_all_iff)
    moreover have "wait_ms = 0 \<or> deadline_valid (outtime_nsec (se_now_usec e) wait_ms)"
      using deadline Some by simp
    ultimately show thesis
      using wait_ack_answered [OF _ _ ex(2) ans, of h0 "replicate j h0" wait_ms "se_now_usec e" "[]"] that w by auto
  qed
  have "uc_ipc_client_sync_send e (answer_wakes (l\<lparr>ln_rounds := n\<rparr>) srv (length (cl_out hdl)) k) hdl buf len wait_ms =
      Inr (0, h, Some ?reply)"
    using h0(1) h(1) by (simp add: uc_ipc_client_sync_send_def)
  then show ?thesis
    using h(2,3) ex(3) h0(4) by (intro exI [of _ n] exI [of _ h]) (simp add: fun_upd_twist)
qed

lemma uc_ipc_sync_call_witness:
  "\<exists>n h. uc_ipc_client_sync_send demo_send (answer_wakes (demo_link\<lparr>ln_rounds := n\<rparr>) demo_server 0 (Some 2)) demo_client
      (Some [1, 2, 3]) 3 500 = Inr (0, h, Some (reply_head demo_server 20000 uc_ipc_msg_type_sync_ack 2, [9, 8])) \<and>
    u64_look (ack_hash h) = Map.empty"
proof -
  have l: "link_ok demo_link (request_head (cl_seq_id demo_client) uc_ipc_msg_type_sync_send 3, buf_bytes (Some [1, 2, 3])) 2"
    by (simp add: link_ok_def demo_link_def fits_def packet_ok_def request_head_def
        SIZEOF_HEAD_def HEAD_LEN_def)
  show ?thesis
    using uc_ipc_sync_call [of demo_send 3 "Some [1, 2, 3]" demo_client demo_link 2 demo_server "Some [9, 8]" "Some 2" 500]
      l by (auto simp: demo_ipc_facts deadline_valid_def outtime_nsec_def NSEC_def UC_IPC_SEQ_ID_MIN_def)
qed

end
