(* ===== verification/Ipc_Faults.thy ===== *)
theory Ipc_Faults
  imports Ipc_Calls
begin

text \<open>
  The IPC programs where no answer comes and where the input is not what the code expects: waits that
  time out, deadlines the system rejects, lengths that overflow.
\<close>

section \<open>Reassembly\<close>

text \<open>C7: the server takes exactly the messages that were sent out of the stream of a connection, in
  order and byte for byte, however the kernel cuts the stream into pieces.\<close>

theorem uc_ipc_server_reassembles:
  assumes "mallocs_ok mal" "list_all (fits mal) ps"
    and "list_all calm as" "stream_of as = concat (map packet_bytes ps)"
  shows "\<exists>c. serve_connection mal (weight as) (uc_ipc_server_reset_cli_proto cli) as = Inr (ps, c, [])"
proof -
  have "\<not> buf_done (uc_ipc_server_reset_cli_proto cli)"
    by (simp add: uc_ipc_server_reset_cli_proto_def)
  from serve_connection_spec [OF assms(1,3,2) cli_ok_reset this, of "weight as"] show ?thesis
    using assms(4) by auto
qed

definition demo_packets :: "packet list" where
  "demo_packets =
     [(request_head 10001 uc_ipc_msg_type_heartbeat 0, []), (request_head 10002 uc_ipc_msg_type_sync_send 2, [5, 6])]"

lemma uc_ipc_server_reassembles_witness:
  "\<exists>n c. serve_connection demo_malloc n demo_conn (demo_cut (concat (map packet_bytes demo_packets))) =
     Inr (demo_packets, c, [])"
proof -
  have "list_all (fits demo_malloc) demo_packets"
    by (simp add: demo_packets_def fits_def packet_ok_def request_head_def)
  moreover have "uc_ipc_server_reset_cli_proto demo_conn = demo_conn"
    by (simp add: demo_conn_def uc_ipc_server_reset_cli_proto_def)
  ultimately show ?thesis
    using uc_ipc_server_reassembles [of demo_malloc demo_packets
      "demo_cut (concat (map packet_bytes demo_packets))" demo_conn] demo_env unfolding cuts_def by metis
qed

section \<open>Waits without an answer\<close>

definition timeout_wakes :: "nat \<Rightarrow> meanwhile" where
  "timeout_wakes k h = (h, replicate k (Woken h) @ [Timed_out h])"

lemma wait_ack_timed_out:
  assumes "awaits seq_id h" "wait_ms \<noteq> 0" "deadline_valid (outtime_nsec now wait_ms)"
  shows "uc_ipc_client_wait_ack now (snd (timeout_wakes k h)) (fst (timeout_wakes k h)) seq_id wait_ms = Inr (- 0x4f885afb, h, None)"
proof -
  obtain n where n: "uc_hash_find (ack_hash h) (key_u64 seq_id) = Inr (Some n)"
    using assms(1) u64_find [of "ack_hash h" seq_id] unfolding awaits_def by (metis option.distinct(1))
  have "ack_wait True True seq_id 0 h (map Woken (replicate k h) @ [Timed_out h]) = Inr (110, h)"
    using assms(1) by (intro ack_wait_timed_out) (simp_all add: list_all_iff)
  then show ?thesis
    using n assms(2,3) by (simp add: uc_ipc_client_wait_ack_def timeout_wakes_def)
qed

text \<open>
  What the program does without a further call that waits: the receiver's rounds, the heartbeats and the
  one-way sends. None of them takes a number out of the table; a late answer is stored under it.
\<close>

inductive client_later :: "uc_ipc_client_handler \<Rightarrow> uc_ipc_client_handler \<Rightarrow> bool" where
  receives: "uc_ipc_client_loop_rcv mal e h = Inr h' \<Longrightarrow> client_later h h'"
| beats: "uc_ipc_client_heartbeat_loop_send e h = Inr (r, h') \<Longrightarrow> client_later h h'"
| sends: "uc_ipc_client_try_send e h buf len = Inr (r, h') \<Longrightarrow> client_later h h'"

definition same_keys :: "uc_ipc_client_handler \<Rightarrow> uc_ipc_client_handler \<Rightarrow> bool" where
  "same_keys h h' \<longleftrightarrow> u64_inv (ack_hash h') \<and> dom (u64_look (ack_hash h')) = dom (u64_look (ack_hash h))"

lemma same_keys_hash: "u64_inv (ack_hash h) \<Longrightarrow> ack_hash h' = ack_hash h \<Longrightarrow> same_keys h h'"
  by (simp add: same_keys_def)

lemma reconnected_hash: "reconnected e h = Inr h' \<Longrightarrow> ack_hash h' = ack_hash h"
  by (auto simp: reconnected_def uc_ipc_client_reconnect_def split: option.splits if_splits)

lemma dispatch_keys:
  assumes "u64_inv (ack_hash h)" "rcv_dispatch e h msg = Inr h'"
  shows "same_keys h h'"
proof (cases "ack_hash h' = ack_hash h")
  case True
  then show ?thesis
    using assms(1) by (rule same_keys_hash [rotated])
next
  case False
  let ?k = "head_ack_id (fst msg)"
  have run: "run_bind (no_crash (uc_hash_find (ack_hash h) (key_u64 ?k))) (\<lambda>node.
       case node of None \<Rightarrow> Inr h
       | Some n \<Rightarrow> run_bind (no_crash (uc_hash_update (ack_hash h) (key_u64 ?k) (Some msg)))
           (\<lambda>(old, t). Inr (h\<lparr>ack_hash := t\<rparr>))) = Inr h'"
    using assms(2) False reconnected_hash [of e h h'] by (auto simp: rcv_dispatch_def Let_def split: if_splits)
  show ?thesis
    using assms(1)
  proof (cases rule: u64_find [where k = ?k])
    case absent
    then show ?thesis
      using run False by simp
  next
    case (there n v)
    then obtain t where t: "uc_hash_update (ack_hash h) (key_u64 ?k) (Some msg) = Inr (v, t)" "u64_inv t"
      "u64_look t = (u64_look (ack_hash h))(?k \<mapsto> Some msg)"
      using u64_map.swap_get [OF assms(1), of ?k v "Some msg"] by metis
    then have "h' = h\<lparr>ack_hash := t\<rparr>"
      using run there(2) by simp
    then show ?thesis
      using t(2,3) there(1) by (auto simp: same_keys_def)
  qed
qed

lemma receives_keys:
  assumes "u64_inv (ack_hash h)" "uc_ipc_client_loop_rcv mal e h = Inr h'"
  shows "same_keys h h'"
proof -
  have "ack_hash h' = ack_hash h \<or> (\<exists>inp msg. rcv_dispatch e (h\<lparr>cl_in := inp\<rparr>) msg = Inr h')"
    using assms(2) reconnected_hash [of e h h'] unfolding uc_ipc_client_loop_rcv_def Let_def
    by (auto split: option.splits prod.splits if_splits simp: run_bind_eq_Inr_iff)
  then show ?thesis
  proof (elim disjE exE)
    assume "ack_hash h' = ack_hash h"
    then show ?thesis
      using assms(1) by (rule same_keys_hash [rotated])
  next
    fix inp msg
    assume "rcv_dispatch e (h\<lparr>cl_in := inp\<rparr>) msg = Inr h'"
    then show ?thesis
      using dispatch_keys [of "h\<lparr>cl_in := inp\<rparr>" e msg h'] assms(1) by (simp add: same_keys_def)
  qed
qed

lemma send_hash: "uc_ipc_client_send mal ok ws h seq ty buf len = Inr (r, h') \<Longrightarrow> ack_hash h' = ack_hash h"
  by (auto simp: uc_ipc_client_send_def uc_ipc_client_write_def split: option.splits if_splits simp: run_bind_eq_Inr_iff)

lemma client_later_keys:
  assumes "client_later\<^sup>*\<^sup>* h h'" "u64_inv (ack_hash h)"
  shows "same_keys h h'"
  using assms
proof (induction rule: rtranclp_induct)
  case base
  then show ?case
    by (simp add: same_keys_def)
next
  case (step g g')
  then have inv: "u64_inv (ack_hash g)" and old: "dom (u64_look (ack_hash g)) = dom (u64_look (ack_hash h))"
    by (simp_all add: same_keys_def)
  have "same_keys g g'"
    using step.hyps(2)
  proof cases
    case (receives mal e)
    then show ?thesis
      by (rule receives_keys [OF inv])
  next
    case (beats e r)
    then have "ack_hash g' = ack_hash g"
      by (auto simp: uc_ipc_client_heartbeat_loop_send_def uc_ipc_client_next_seq_id_def dest: send_hash)
    then show ?thesis
      by (rule same_keys_hash [OF inv])
  next
    case (sends e buf len r)
    then have "ack_hash g' = ack_hash g"
      by (auto simp: uc_ipc_client_try_send_def uc_ipc_client_next_seq_id_def dest!: send_hash simp: run_bind_eq_Inr_iff)
    then show ?thesis
      by (rule same_keys_hash [OF inv])
  qed
  with old show ?case
    by (simp add: same_keys_def)
qed

text \<open>C27: when no acknowledgement comes before the deadline both calls report it. The asynchronous call
  takes its number out of the table of awaited numbers; the synchronous one leaves it there, and no
  round of the receiver, no heartbeat and no one-way send after it takes it out.\<close>

theorem uc_ipc_ack_timeout:
  assumes "send_env_ok e len" "length (buf_bytes buf) = unat len" "u64_inv (ack_hash hdl)"
    and "wait_ms \<noteq> 0" "deadline_valid (outtime_nsec (se_now_usec e) wait_ms)"
  shows "(\<exists>h. uc_ipc_client_async_send e (timeout_wakes k) hdl buf len wait_ms = Inr (- 0x213492c0, h) \<and>
      u64_look (ack_hash h) = (u64_look (ack_hash hdl))(cl_seq_id hdl := None)) \<and>
    (\<exists>h. uc_ipc_client_sync_send e (timeout_wakes k) hdl buf len wait_ms = Inr (- 0x4f885afb, h, None) \<and>
      u64_look (ack_hash h) = (u64_look (ack_hash hdl))(cl_seq_id hdl \<mapsto> None) \<and>
      (\<forall>h'. client_later\<^sup>*\<^sup>* h h' \<longrightarrow> u64_look (ack_hash h') (cl_seq_id hdl) \<noteq> None))"
proof
  note begin_ok = send_begin_ok [OF assms(1,3,2)]
  obtain h where h: "send_begin e uc_ipc_msg_type_async_send (- 0x3d5ee086) (- 0x274ceea5) hdl buf len =
      Inr (Inr (cl_seq_id hdl), h)" "u64_inv (ack_hash h)"
    "u64_look (ack_hash h) = (u64_look (ack_hash hdl))(cl_seq_id hdl \<mapsto> None)"
    by (rule begin_ok)
  then have "awaits (cl_seq_id hdl) h"
    by (simp add: awaits_def)
  from wait_ack_timed_out [OF this assms(4,5)]
  have w: "uc_ipc_client_wait_ack (se_now_usec e) (snd (timeout_wakes k h)) (fst (timeout_wakes k h)) (cl_seq_id hdl) wait_ms = Inr (- 0x4f885afb, h, None)" .
  obtain t freed where t: "uc_hash_delete (ack_hash h) (key_u64 (cl_seq_id hdl)) = Inr (0, t, freed)"
    "u64_look t = (u64_look (ack_hash h))(cl_seq_id hdl := None)"
    using u64_map.drop_get [OF h(2)] by metis
  show "\<exists>h. uc_ipc_client_async_send e (timeout_wakes k) hdl buf len wait_ms = Inr (- 0x213492c0, h) \<and>
      u64_look (ack_hash h) = (u64_look (ack_hash hdl))(cl_seq_id hdl := None)"
    using h(1,3) w t
    by (intro exI [of _ "h\<lparr>ack_hash := t\<rparr>"]) (simp add: uc_ipc_client_async_send_def uc_ipc_client_delete_seq_def)
next
  obtain h where h: "send_begin e uc_ipc_msg_type_sync_send (- 0x7b4123c4) (- 0x5f879be6) hdl buf len =
      Inr (Inr (cl_seq_id hdl), h)" "u64_inv (ack_hash h)"
    "u64_look (ack_hash h) = (u64_look (ack_hash hdl))(cl_seq_id hdl \<mapsto> None)"
    by (rule send_begin_ok [OF assms(1,3,2)])
  then have "awaits (cl_seq_id hdl) h"
    by (simp add: awaits_def)
  from wait_ack_timed_out [OF this assms(4,5)] h(1)
  have "uc_ipc_client_sync_send e (timeout_wakes k) hdl buf len wait_ms = Inr (- 0x4f885afb, h, None)"
    by (simp add: uc_ipc_client_sync_send_def)
  moreover have "u64_look (ack_hash h') (cl_seq_id hdl) \<noteq> None" if "client_later\<^sup>*\<^sup>* h h'" for h'
    using client_later_keys [OF that h(2)] h(3) by (auto simp: same_keys_def dom_def)
  ultimately show "\<exists>h. uc_ipc_client_sync_send e (timeout_wakes k) hdl buf len wait_ms = Inr (- 0x4f885afb, h, None) \<and>
      u64_look (ack_hash h) = (u64_look (ack_hash hdl))(cl_seq_id hdl \<mapsto> None) \<and>
      (\<forall>h'. client_later\<^sup>*\<^sup>* h h' \<longrightarrow> u64_look (ack_hash h') (cl_seq_id hdl) \<noteq> None)"
    using h(3) by blast
qed

lemma uc_ipc_ack_timeout_witness:
  "\<exists>h. uc_ipc_client_sync_send demo_send (timeout_wakes 3) demo_client (Some [1, 2, 3]) 3 500 =
     Inr (- 0x4f885afb, h, None) \<and> u64_look (ack_hash h) = [20000 \<mapsto> None]"
  using uc_ipc_ack_timeout [of demo_send 3 "Some [1, 2, 3]" demo_client 500 3]
  by (auto simp: demo_ipc_facts deadline_valid_def outtime_nsec_def NSEC_def)

text \<open>A deadline that the system rejects is rejected again and again.\<close>

lemma ack_wait_rejected: "awaits seq_id h \<Longrightarrow> ack_wait True False seq_id ret h ws = Inl Spinning"
proof (induction ws arbitrary: ret)
  case Nil
  then show ?case
    by (simp add: awaits_def ack_val_look)
next
  case (Cons w ws)
  then show ?case
    by (simp add: awaits_def ack_val_look)
qed

text \<open>C28: when the microseconds of the clock and the milliseconds of the wait add up to a second or
  more, the computed deadline is not a valid time. If the answer is not there yet when the caller has
  locked \<open>ack_mtx\<close>, a synchronous call then never returns: the wait fails at once, every time, without
  ever letting go of the lock the receiver needs to deliver. If the receiver has delivered the answer
  between the send and the lock, the call returns it.\<close>

theorem uc_ipc_sync_send_spins:
  assumes "send_env_ok e len" "length (buf_bytes buf) = unat len" "u64_inv (ack_hash hdl)"
    and "0 \<le> se_now_usec e" "0 < wait_ms" "1000000 \<le> se_now_usec e + 1000 * (wait_ms mod 1000)"
    and locked: "\<And>h. u64_inv (ack_hash h) \<Longrightarrow>
      u64_look (ack_hash h) = (u64_look (ack_hash hdl))(cl_seq_id hdl \<mapsto> None) \<Longrightarrow>
      u64_inv (ack_hash (fst (wakes h))) \<and> u64_look (ack_hash (fst (wakes h))) (cl_seq_id hdl) = Some answer"
  shows "case answer of
      None \<Rightarrow> uc_ipc_client_sync_send e wakes hdl buf len wait_ms = Inl Spinning
    | Some msg \<Rightarrow> \<exists>h. uc_ipc_client_sync_send e wakes hdl buf len wait_ms = Inr (0, h, Some msg) \<and>
        u64_look (ack_hash h) (cl_seq_id hdl) = None"
proof -
  obtain h0 where h0: "send_begin e uc_ipc_msg_type_sync_send (- 0x7b4123c4) (- 0x5f879be6) hdl buf len =
      Inr (Inr (cl_seq_id hdl), h0)" "u64_inv (ack_hash h0)"
    "u64_look (ack_hash h0) = (u64_look (ack_hash hdl))(cl_seq_id hdl \<mapsto> None)"
    by (rule send_begin_ok [OF assms(1,3,2)])
  obtain h ws where w: "wakes h0 = (h, ws)"
    by (cases "wakes h0")
  have h: "u64_inv (ack_hash h)" "u64_look (ack_hash h) (cl_seq_id hdl) = Some answer"
    using locked [OF h0(2,3)] w by simp_all
  have run: "uc_ipc_client_sync_send e wakes hdl buf len wait_ms = uc_ipc_client_wait_ack (se_now_usec e) ws h (cl_seq_id hdl) wait_ms"
    using h0(1) w by (simp add: uc_ipc_client_sync_send_def)
  show ?thesis
  proof (cases answer)
    case None
    then have aw: "awaits (cl_seq_id hdl) h"
      using h by (simp add: awaits_def)
    obtain n where n: "uc_hash_find (ack_hash h) (key_u64 (cl_seq_id hdl)) = Inr (Some n)"
      using h u64_find [of "ack_hash h" "cl_seq_id hdl"] by (metis option.distinct(1))
    have "wait_ms smod 1000 = wait_ms mod 1000"
      using assms(5) by (simp add: signed_modulo_int_def)
    then have "\<not> deadline_valid (outtime_nsec (se_now_usec e) wait_ms)"
      using assms(6) by (simp add: deadline_valid_def outtime_nsec_def NSEC_def)
    then show ?thesis
      using None n ack_wait_rejected [OF aw] assms(5) by (simp add: run uc_ipc_client_wait_ack_def)
  next
    case (Some msg)
    then obtain h2 where "uc_ipc_client_wait_ack (se_now_usec e) ws h (cl_seq_id hdl) wait_ms = Inr (0, h2, Some msg)"
      "u64_look (ack_hash h2) = (u64_look (ack_hash h))(cl_seq_id hdl := None)"
      using wait_ack_early [OF h(1), of "cl_seq_id hdl" msg "se_now_usec e" ws wait_ms] h(2) by auto
    then show ?thesis
      using Some by (simp add: run)
  qed
qed

text \<open>The answer is not there, and it is.\<close>

lemma uc_ipc_sync_send_spins_witness:
  "uc_ipc_client_sync_send (demo_send\<lparr>se_now_usec := 700000\<rparr>) (timeout_wakes 3) demo_client (Some [1, 2, 3]) 3 1500 =
     Inl Spinning \<and>
   (\<exists>h. uc_ipc_client_sync_send (demo_send\<lparr>se_now_usec := 700000\<rparr>)
     (\<lambda>h. (h\<lparr>ack_hash := demo_tbl [(20000, Some (hd demo_packets))]\<rparr>, [])) demo_client (Some [1, 2, 3]) 3 1500 =
     Inr (0, h, Some (hd demo_packets)))"
proof -
  have env: "send_env_ok (demo_send\<lparr>se_now_usec := 700000\<rparr>) 3"
    using demo_ipc_facts(1) by (simp add: send_env_ok_def)
  have "uc_ipc_client_sync_send (demo_send\<lparr>se_now_usec := 700000\<rparr>) (timeout_wakes 3) demo_client (Some [1, 2, 3]) 3 1500 =
     Inl Spinning"
    using uc_ipc_sync_send_spins [OF env, of "Some [1, 2, 3]" demo_client 1500 "timeout_wakes 3" None]
    by (simp add: demo_ipc_facts timeout_wakes_def)
  moreover have "\<exists>h. uc_ipc_client_sync_send (demo_send\<lparr>se_now_usec := 700000\<rparr>)
     (\<lambda>h. (h\<lparr>ack_hash := demo_tbl [(20000, Some (hd demo_packets))]\<rparr>, [])) demo_client (Some [1, 2, 3]) 3 1500 =
     Inr (0, h, Some (hd demo_packets))"
    using uc_ipc_sync_send_spins [OF env, of "Some [1, 2, 3]" demo_client 1500
        "\<lambda>h. (h\<lparr>ack_hash := demo_tbl [(20000, Some (hd demo_packets))]\<rparr>, [])" "Some (hd demo_packets)"]
    by (auto simp: demo_ipc_facts)
  ultimately show ?thesis
    by blast
qed

section \<open>Lengths and types from the network\<close>

text \<open>C29: the client trusts the length in a received header. With one of the 28 largest values the size
  of the message's memory wraps round to less than a header, and copying the header into it is
  already outside the block.\<close>

theorem uc_ipc_client_rcv_overflow:
  assumes "mallocs_ok mal" "mal (SIZEOF_HEAD + head_ttl h) \<noteq> None" "2 ^ 64 - 28 \<le> unat (head_ttl h)"
    and "list_all calm (cl_in hdl)" "stream_of (cl_in hdl) = head_bytes h @ rest" "UC_IPC_SEQ_ID_MIN \<le> head_seq_id h"
  shows "uc_ipc_client_loop_rcv mal e hdl = Inl (Crashed Undefined_behaviour)"
proof -
  obtain mem where mem: "mal (SIZEOF_HEAD + head_ttl h) = Some mem"
    using assms(2) by auto
  have "unat (head_ttl h) < 2 ^ 64"
    using unsigned_less [of "head_ttl h"] by simp
  then have "unat (SIZEOF_HEAD + head_ttl h) < HEAD_LEN"
    using assms(3)
    by (simp add: unat_word_ariths unat_SIZEOF_HEAD HEAD_LEN_def le_mod_geq)
  then have "length mem < HEAD_LEN"
    using assms(1) mem by (simp add: mallocs_ok_def)
  moreover obtain as1 where "uc_io_read HEAD_LEN [] (cl_in hdl) = Some ((0, head_bytes h, False), as1)"
    using uc_io_read_calm [OF assms(4), of HEAD_LEN "[]"] assms(5) by auto
  ultimately show ?thesis
    using mem assms(6) by (auto simp: uc_ipc_client_loop_rcv_def Let_def store_at_def)
qed

lemma uc_ipc_client_rcv_overflow_witness:
  "uc_ipc_client_loop_rcv demo_malloc (ln_reconnect demo_link)
     (demo_client\<lparr>cl_in := demo_cut (head_bytes (request_head 10001 uc_ipc_msg_type_sync_ack 0xFFFFFFFFFFFFFFFF) @ [1, 2])\<rparr>) =
     Inl (Crashed Undefined_behaviour)"
  using uc_ipc_client_rcv_overflow [of demo_malloc "request_head 10001 uc_ipc_msg_type_sync_ack 0xFFFFFFFFFFFFFFFF"
      "demo_client\<lparr>cl_in := demo_cut (head_bytes (request_head 10001 uc_ipc_msg_type_sync_ack 0xFFFFFFFFFFFFFFFF) @ [1, 2])\<rparr>" "[1, 2]"]
    demo_env(2) unfolding cuts_def by (simp add: request_head_def SIZEOF_HEAD_def UC_IPC_SEQ_ID_MIN_def)

end
