(* ===== verification/Ipc_Safety.thy ===== *)
theory Ipc_Safety
  imports Ipc_Calls
begin

text \<open>
  The states the server goes through, and what can go wrong in them. \<open>srv_ok\<close> is its invariant:
  every connection holds a partly read message in good order, every registered descriptor points to
  a live connection, the two tables agree with the connections. The receiver's rounds and the
  callback thread's rounds are the steps of a relation; the invariant holds in every state that is
  reached, and two steps are undefined: a complete message of a type the server does not handle, and a
  message there is no memory for, on a connection that is in the table of connections.
\<close>

section \<open>The invariant\<close>

definition registered :: "uc_ipc_server_handler \<Rightarrow> nat \<Rightarrow> uc_ipc_cli \<Rightarrow> bool" where
  "registered hdl ptr cli \<longleftrightarrow> clients hdl ptr = Some cli \<and> epoll_set hdl (cli_fd cli) = Some ptr"

definition msg_ok :: "uc_ipc_pipe_data \<Rightarrow> bool" where
  "msg_ok pd \<longleftrightarrow> length (buf_bytes (pd_buf pd)) = unat (head_ttl (pd_head pd)) \<and> unat (head_ttl (pd_head pd)) < 2 ^ 63"

definition conns_ok :: "uc_ipc_server_handler \<Rightarrow> bool" where
  "conns_ok hdl \<longleftrightarrow> (\<forall>ptr cli. clients hdl ptr = Some cli \<longrightarrow> cli_ok cli \<and> \<not> buf_done cli) \<and>
     (\<forall>fd ptr. epoll_set hdl fd = Some ptr \<longrightarrow> (\<exists>cli. clients hdl ptr = Some cli \<and> cli_fd cli = fd))"

definition tables_ok :: "uc_ipc_server_handler \<Rightarrow> bool" where
  "tables_ok hdl \<longleftrightarrow> u64_inv (cli_fd_hash hdl) \<and> u64_inv (cli_info_hash hdl) \<and>
     (\<forall>u. u64_look (cli_fd_hash hdl) u \<noteq> Some None) \<and>
     (\<forall>u v. u64_look (cli_info_hash hdl) u = Some v \<longrightarrow>
        (\<exists>ptr cli. v = Some ptr \<and> registered hdl ptr cli \<and> cli_uuid cli = u)) \<and>
     (\<forall>ptr cli v. registered hdl ptr cli \<longrightarrow> u64_look (cli_info_hash hdl) (cli_uuid cli) = Some v \<longrightarrow> v = Some ptr)"

definition srv_ok :: "uc_ipc_server_handler \<Rightarrow> bool" where
  "srv_ok hdl \<longleftrightarrow> conns_ok hdl \<and> tables_ok hdl \<and> list_all msg_ok (pipe_msgs hdl)"

text \<open>What the invariant does not look at.\<close>

lemma conns_ok_frame [simp]:
  "conns_ok (hdl\<lparr>srv_seq_id := s\<rparr>) = conns_ok hdl" "conns_ok (hdl\<lparr>sent_to := out\<rparr>) = conns_ok hdl"
  "conns_ok (hdl\<lparr>incoming := inp\<rparr>) = conns_ok hdl" "conns_ok (hdl\<lparr>pipe_msgs := pds\<rparr>) = conns_ok hdl"
  by (simp_all add: conns_ok_def)

lemma tables_ok_frame [simp]:
  "tables_ok (hdl\<lparr>srv_seq_id := s\<rparr>) = tables_ok hdl" "tables_ok (hdl\<lparr>sent_to := out\<rparr>) = tables_ok hdl"
  "tables_ok (hdl\<lparr>incoming := inp\<rparr>) = tables_ok hdl" "tables_ok (hdl\<lparr>pipe_msgs := pds\<rparr>) = tables_ok hdl"
  by (simp_all add: tables_ok_def registered_def)

lemma srv_ok_frame [simp]:
  "srv_ok (hdl\<lparr>srv_seq_id := s\<rparr>) = srv_ok hdl" "srv_ok (hdl\<lparr>sent_to := out\<rparr>) = srv_ok hdl"
  "srv_ok (hdl\<lparr>incoming := inp\<rparr>) = srv_ok hdl"
  by (simp_all add: srv_ok_def)

lemma srv_ok_pipe:
  "srv_ok hdl \<Longrightarrow> msg_ok pd \<Longrightarrow> srv_ok (hdl\<lparr>pipe_msgs := pipe_msgs hdl @ [pd]\<rparr>)"
  "srv_ok hdl \<Longrightarrow> pipe_msgs hdl = pd # pds \<Longrightarrow> srv_ok (hdl\<lparr>pipe_msgs := pds\<rparr>) \<and> msg_ok pd"
  by (simp_all add: srv_ok_def)

text \<open>A connection may be replaced by one with the same descriptor and number.\<close>

lemma srv_ok_replace:
  assumes "srv_ok hdl" "clients hdl ptr = Some cli" "cli_ok cli'" "\<not> buf_done cli'"
    and "cli_fd cli' = cli_fd cli" "cli_uuid cli' = cli_uuid cli"
  shows "srv_ok (hdl\<lparr>clients := (clients hdl)(ptr \<mapsto> cli')\<rparr>)"
proof -
  let ?h = "hdl\<lparr>clients := (clients hdl)(ptr \<mapsto> cli')\<rparr>"
  have old: "registered ?h p c \<Longrightarrow> \<exists>c0. registered hdl p c0 \<and> cli_uuid c0 = cli_uuid c" for p c
    using assms(2,5,6) by (auto simp: registered_def split: if_splits)
  have new: "registered hdl p c \<Longrightarrow> \<exists>c1. registered ?h p c1 \<and> cli_uuid c1 = cli_uuid c" for p c
    using assms(2,5,6) by (auto simp: registered_def)
  have "conns_ok ?h"
    using assms by (fastforce simp: srv_ok_def conns_ok_def)
  moreover have "tables_ok ?h"
  proof -
    have t: "tables_ok hdl"
      using assms(1) by (simp add: srv_ok_def)
    have "\<exists>p c. v = Some p \<and> registered ?h p c \<and> cli_uuid c = u"
      if "u64_look (cli_info_hash hdl) u = Some v" for u v
      using t new that unfolding tables_ok_def by metis
    moreover have "v = Some p"
      if "registered ?h p c" "u64_look (cli_info_hash hdl) (cli_uuid c) = Some v" for p c v
      using t old [OF that(1)] that(2) unfolding tables_ok_def by metis
    ultimately show ?thesis
      using t by (simp add: tables_ok_def)
  qed
  ultimately show ?thesis
    using assms(1) by (simp add: srv_ok_def)
qed

section \<open>Sending\<close>

definition payload_ok :: "u8 list option \<Rightarrow> u64 \<Rightarrow> bool" where
  "payload_ok buf len \<longleftrightarrow> unat len < 2 ^ 63 \<and> (buf = None \<or> unat len \<le> length (buf_bytes buf))"

lemma build_packet_safe:
  assumes "mallocs_ok mal" "mal (SIZEOF_HEAD + len) = Some mem" "payload_ok buf len"
  shows "\<exists>data. build_packet mem h buf len = Inr data"
proof -
  have "length mem = unat (SIZEOF_HEAD + len)"
    using assms(1,2) by (simp add: mallocs_ok_def)
  also have "\<dots> = HEAD_LEN + unat len"
    using assms(3) by (simp add: payload_ok_def unat_plus_if' unat_SIZEOF_HEAD HEAD_LEN_def)
  finally show ?thesis
    using assms(3) by (cases buf) (auto simp: build_packet_def store_at_def payload_ok_def)
qed

text \<open>A function that sends changes nothing of the handler but the number and what was sent.\<close>

definition but_sent :: "uc_ipc_server_handler \<Rightarrow> uc_ipc_server_handler" where
  "but_sent hdl = hdl\<lparr>srv_seq_id := 0, sent_to := (\<lambda>fd. [])\<rparr>"

lemma but_sent_simps [simp]:
  "but_sent (hdl\<lparr>srv_seq_id := s\<rparr>) = but_sent hdl"
  "but_sent (hdl\<lparr>srv_seq_id := s, sent_to := out\<rparr>) = but_sent hdl"
  by (simp_all add: but_sent_def)

definition sending :: "uc_ipc_server_handler \<Rightarrow> stop + 'a \<times> uc_ipc_server_handler \<Rightarrow> bool" where
  "sending hdl res \<longleftrightarrow> (case res of
     Inl e \<Rightarrow> e = Spinning
   | Inr (r, h) \<Rightarrow> but_sent h = but_sent hdl)"

lemma sending_simps [simp]:
  "sending hdl (Inl e) \<longleftrightarrow> e = Spinning"
  "sending hdl (Inr (r, hdl))"
  "sending hdl (Inr (r, hdl\<lparr>srv_seq_id := s\<rparr>))"
  "sending hdl (Inr (r, hdl\<lparr>srv_seq_id := s, sent_to := out\<rparr>))"
  by (simp_all add: sending_def)

lemma sending_bind:
  "sending hdl m \<Longrightarrow> sending hdl (run_bind m (\<lambda>(r, h). Inr (f r, h)))"
  by (cases m) (auto simp: sending_def)

lemma sending_cases:
  assumes "sending hdl m"
  obtains "m = Inl Spinning" | r h where "m = Inr (r, h)" "srv_ok h = srv_ok hdl"
proof (cases m)
  case (Inr y)
  obtain r h where y: "y = (r, h)"
    by (cases y)
  have but: "srv_ok x = srv_ok (but_sent x)" for x
    by (simp add: but_sent_def)
  have "but_sent h = but_sent hdl"
    using Inr y assms by (simp add: sending_def)
  then have "srv_ok h = srv_ok hdl"
    using but by metis
  with Inr y that(2) show thesis
    by blast
qed (use assms that in simp)

lemma send_msg_safe:
  assumes "mallocs_ok mal" "tables_ok hdl" "payload_ok buf len"
  shows "sending hdl (uc_ipc_server_send_msg mal ws hdl uuid ack mtype buf len)"
proof -
  note step = uc_ipc_server_send_msg_def uc_ipc_server_next_seq_id_def
  show ?thesis
  proof (cases "mal (SIZEOF_HEAD + len)")
    case None
    then show ?thesis
      by (simp add: step)
  next
    case (Some mem)
    obtain data where data: "build_packet mem \<lparr>head_ttl = len, head_msg_type = mtype, head_seq_id = srv_seq_id hdl,
        head_ack_id = ack\<rparr> buf len = Inr data"
      using build_packet_safe [OF assms(1) Some assms(3)] by blast
    have "u64_inv (cli_fd_hash hdl)"
      using assms(2) by (simp add: tables_ok_def)
    then show ?thesis
    proof (cases rule: u64_find [where k = uuid])
      case absent
      then show ?thesis
        using Some data by (simp add: step)
    next
      case (there n v)
      then obtain fd where "v = Some fd"
        using assms(2) by (cases v) (auto simp: tables_ok_def)
      then show ?thesis
        using Some data there by (auto simp: step split: option.split)
    qed
  qed
qed

lemma send_ack_safe:
  assumes "mallocs_ok mal" "tables_ok hdl"
  shows "sending hdl (uc_ipc_server_send_ack mal ws hdl uuid ack)"
  unfolding uc_ipc_server_send_ack_def
  by (rule sending_bind, rule send_msg_safe [OF assms]) (simp add: payload_ok_def)

lemma heartbeat_safe:
  assumes "mallocs_ok mal" "tables_ok hdl" "msg_ok pd" "return_addr pd = None"
  shows "sending hdl (uc_ipc_server_heartbeat_cb mal ws hdl pd)"
proof -
  let ?ttl = "head_ttl (pd_head pd)"
  consider (empty) "?ttl = 0" | (nomem) "?ttl \<noteq> 0" "mal ?ttl = None" | (copy) mem b where "?ttl \<noteq> 0" "mal ?ttl = Some mem" "pd_buf pd = Some b"
  proof (cases "pd_buf pd")
    case None
    then have "?ttl = 0"
      using assms(3) by (simp add: msg_ok_def unat_eq_zero)
    then show thesis
      using that(1) by blast
  qed (use that in blast)
  then show ?thesis
  proof cases
    case empty
    then have "payload_ok (return_addr pd) ?ttl"
      using assms(4) by (simp add: payload_ok_def)
    from sending_bind [OF send_msg_safe [OF assms(1,2) this, of ws "pd_uuid pd" "head_seq_id (pd_head pd)" uc_ipc_msg_type_heartbeat]]
    show ?thesis
      using empty by (simp add: uc_ipc_server_heartbeat_cb_def Let_def)
  next
    case nomem
    then show ?thesis
      by (simp add: uc_ipc_server_heartbeat_cb_def Let_def)
  next
    case copy
    then have len: "length b = unat ?ttl" "length mem = unat ?ttl"
      using assms(1,3) by (simp_all add: msg_ok_def mallocs_ok_def)
    then have "payload_ok (Some b) ?ttl"
      using assms(3) by (simp add: payload_ok_def msg_ok_def)
    from sending_bind [OF send_msg_safe [OF assms(1,2) this, of ws "pd_uuid pd" "head_seq_id (pd_head pd)" uc_ipc_msg_type_heartbeat]]
    show ?thesis
      using copy len by (simp add: uc_ipc_server_heartbeat_cb_def Let_def store_at_def)
  qed
qed

section \<open>The receiver\<close>

definition handled_type :: "u32 \<Rightarrow> bool" where
  "handled_type t \<longleftrightarrow> t = uc_ipc_msg_type_heartbeat \<or> t = uc_ipc_msg_type_void \<or>
     t = uc_ipc_msg_type_async_send \<or> t = uc_ipc_msg_type_sync_send"

text \<open>A step is undefined exactly when it is a bad one, and leads to a good state when it ends.\<close>

definition outcome_ok :: "bool \<Rightarrow> stop + uc_ipc_server_handler \<Rightarrow> bool" where
  "outcome_ok bad res \<longleftrightarrow> (case res of
     Inr h \<Rightarrow> srv_ok h \<and> \<not> bad
   | Inl s \<Rightarrow> s = (if bad then Crashed Undefined_behaviour else Spinning))"

lemma outcome_ok_simps [simp]:
  "outcome_ok bad (Inr h) \<longleftrightarrow> srv_ok h \<and> \<not> bad"
  "outcome_ok False (Inl s) \<longleftrightarrow> s = Spinning"
  "outcome_ok True (Inl s) \<longleftrightarrow> s = Crashed Undefined_behaviour"
  by (simp_all add: outcome_ok_def)

lemma pipe_write_cases:
  "pipe_write pw hdl pd = Inl Spinning \<or> (\<exists>ret. pipe_write pw hdl pd = Inr (ret, hdl)) \<or>
   pipe_write pw hdl pd = Inr (0, hdl\<lparr>pipe_msgs := pipe_msgs hdl @ [pd]\<rparr>)"
  by (auto simp: pipe_write_def split: option.splits)

lemma handle_safe:
  assumes mal: "mallocs_ok mal" and cli: "clients hdl ptr = Some cli" "cli_ok cli" "buf_done cli"
    and srv: "srv_ok (hdl\<lparr>clients := (clients hdl)(ptr \<mapsto> uc_ipc_server_reset_cli_proto cli)\<rparr>)"
  shows "outcome_ok (mem_ok \<and> \<not> handled_type (head_msg_type (cli_head cli)))
    (run_bind (uc_ipc_server_handle_client_msg mal mem_ok ws pw hdl ptr) (\<lambda>(r, h). Inr h))"
proof -
  let ?r = "hdl\<lparr>clients := (clients hdl)(ptr \<mapsto> uc_ipc_server_reset_cli_proto cli)\<rparr>"
  let ?pd = "\<lparr>pd_uuid = cli_uuid cli, pd_head = cli_head cli, pd_buf = cli_buf cli, return_addr = None, return_len = 0\<rparr>"
  let ?t = "head_msg_type (cli_head cli)"
  have pd: "msg_ok ?pd" "return_addr ?pd = None"
    using cli(2,3) by (auto simp: msg_ok_def cli_ok_def full_phase_def head_phase_def buf_phase_def)
  have tbl: "tables_ok ?r"
    using srv by (simp add: srv_ok_def)
  note unfold = uc_ipc_server_handle_client_msg_def uc_ipc_server_free_pipe_msg_def Let_def cli(1,3) handled_type_def
  consider (short) "\<not> mem_ok" | (heart) mem_ok "?t = uc_ipc_msg_type_heartbeat" | (void) mem_ok "?t = uc_ipc_msg_type_void"
    | (async) mem_ok "?t = uc_ipc_msg_type_async_send" | (sync) mem_ok "?t = uc_ipc_msg_type_sync_send"
    | (bad) mem_ok "\<not> handled_type ?t"
    unfolding handled_type_def by blast
  then show ?thesis
  proof cases
    case short
    then show ?thesis
      using srv by (simp add: unfold)
  next
    case heart
    show ?thesis
      by (rule sending_cases [OF heartbeat_safe [OF mal tbl pd, of ws]]) (use heart srv in \<open>simp_all add: unfold\<close>)
  next
    case void
    then show ?thesis
      using srv by (simp add: unfold msg_types)
  next
    case async
    show ?thesis
    proof (rule sending_cases [OF send_ack_safe [OF mal tbl, of ws "cli_uuid cli" "head_seq_id (cli_head cli)"]])
      fix r h
      assume send: "uc_ipc_server_send_ack mal ws ?r (cli_uuid cli) (head_seq_id (cli_head cli)) = Inr (r, h)"
        and same: "srv_ok h = srv_ok ?r"
      have "srv_ok h"
        using srv same by simp
      from this srv_ok_pipe(1) [OF this pd(1)] show ?thesis
        using async send pipe_write_cases [of pw h ?pd] by (auto simp: unfold msg_types)
    qed (use async in \<open>simp add: unfold msg_types\<close>)
  next
    case sync
    then show ?thesis
      using srv srv_ok_pipe(1) [OF srv pd(1)] pipe_write_cases [of pw ?r ?pd] by (auto simp: unfold msg_types)
  next
    case bad
    then show ?thesis
      by (simp add: unfold)
  qed
qed

text \<open>The connection is closed: it is gone from both tables and no descriptor points to it.\<close>

lemma close_safe:
  assumes srv: "srv_ok hdl" and reg: "registered hdl ptr cli"
    and cli': "cli_fd cli' = cli_fd cli" "cli_uuid cli' = cli_uuid cli"
    and hdl': "hdl' = hdl\<lparr>clients := (clients hdl)(ptr \<mapsto> cli'), incoming := inp\<rparr>"
  shows "\<exists>h. uc_ipc_server_close_cli hdl' ptr = Inr h \<and> srv_ok h \<and>
    (clients h ptr = None \<longleftrightarrow> u64_look (cli_info_hash hdl) (cli_uuid cli) \<noteq> None)"
proof -
  let ?fd = "cli_fd cli" and ?u = "cli_uuid cli"
  have t: "tables_ok hdl" and c: "conns_ok hdl"
    using srv by (simp_all add: srv_ok_def)
  note t' = t [unfolded tables_ok_def]
  obtain fdh fds where fdh: "uc_hash_delete (cli_fd_hash hdl) (key_u64 ?u) = Inr (0, fdh, fds)" "u64_inv fdh"
    "u64_look fdh = (u64_look (cli_fd_hash hdl))(?u := None)"
    using u64_map.drop_get [of "cli_fd_hash hdl"] t' by metis
  obtain infoh where infoh: "uc_hash_delete (cli_info_hash hdl) (key_u64 ?u) = Inr (0, infoh,
      case u64_look (cli_info_hash hdl) ?u of None \<Rightarrow> [] | Some old \<Rightarrow> freed_val old)" "u64_inv infoh"
    "u64_look infoh = (u64_look (cli_info_hash hdl))(?u := None)"
    using u64_tbl.drop_law [of "cli_info_hash hdl"] t' by metis
  define freed where "freed = (case u64_look (cli_info_hash hdl) ?u of None \<Rightarrow> [] | Some old \<Rightarrow> freed_val old)"
  have owner: "v = Some ptr" if "u64_look (cli_info_hash hdl) ?u = Some v" for v
    using t' reg that by blast
  then have freed: "set freed \<subseteq> {ptr}" "ptr \<in> set freed \<longleftrightarrow> u64_look (cli_info_hash hdl) ?u \<noteq> None"
    by (cases "u64_look (cli_info_hash hdl) ?u"; auto simp: freed_def freed_val_def)+
  define wiped where "wiped = (uc_ipc_server_reset_cli_proto cli')\<lparr>cli_fd := - 1, cli_uuid := 0\<rparr>"
  define h where "h = hdl'\<lparr>cli_fd_hash := fdh, cli_info_hash := infoh,
     clients := (\<lambda>p. if p \<in> set freed then None else if p = ptr then Some wiped else clients hdl' p),
     epoll_set := (epoll_set hdl)(?fd := None)\<rparr>"
  have same: "clients hdl' ptr = Some cli'" "cli_fd_hash hdl' = cli_fd_hash hdl" "epoll_set hdl' = epoll_set hdl"
    "cli_info_hash hdl' = cli_info_hash hdl"
    by (simp_all add: hdl')
  have close: "uc_ipc_server_close_cli hdl' ptr = Inr h"
    using fdh(1) infoh(1) [folded freed_def] cli' same unfolding h_def wiped_def
    by (simp add: uc_ipc_server_close_cli_def Let_def)
  have here: "clients hdl ptr = Some cli" "epoll_set hdl ?fd = Some ptr"
    using reg by (simp_all add: registered_def)
  have other: "clients h p = clients hdl p" if "p \<noteq> ptr" for p
    using that freed(1) by (auto simp: h_def hdl')
  have here': "clients h ptr = None \<or> clients h ptr = Some wiped"
    by (simp add: h_def)
  have wiped: "cli_ok wiped" "\<not> buf_done wiped"
    by (simp_all add: wiped_def uc_ipc_server_reset_cli_proto_def cli_ok_def head_phase_def HEAD_LEN_def)
  have ep: "epoll_set h fd = Some p \<longleftrightarrow> epoll_set hdl fd = Some p \<and> p \<noteq> ptr" for fd p
  proof -
    have "cli_fd cli = fd" if e: "epoll_set hdl fd = Some ptr"
    proof -
      obtain c2 where "clients hdl ptr = Some c2" "cli_fd c2 = fd"
        using c e unfolding conns_ok_def by blast
      then show ?thesis
        using here(1) by simp
    qed
    moreover have "epoll_set h = (epoll_set hdl)(?fd := None)"
      by (simp add: h_def)
    ultimately show ?thesis
      using here(2) by (cases "fd = ?fd") auto
  qed
  have conns: "conns_ok h"
    unfolding conns_ok_def
  proof (intro conjI allI impI)
    fix p c0
    assume c0: "clients h p = Some c0"
    have "(c0 = wiped) \<or> clients hdl p = Some c0"
      using here' other c0 by (cases "p = ptr") auto
    then show "cli_ok c0" "\<not> buf_done c0"
      using wiped c by (auto simp: conns_ok_def)
  next
    fix fd p
    assume "epoll_set h fd = Some p"
    then show "\<exists>c0. clients h p = Some c0 \<and> cli_fd c0 = fd"
      using c ep other by (simp add: conns_ok_def)
  qed
  have regs: "registered h p c0 \<longleftrightarrow> registered hdl p c0 \<and> p \<noteq> ptr" for p c0
    using ep other by (auto simp: registered_def)
  have info: "u64_look (cli_info_hash h) = (u64_look (cli_info_hash hdl))(?u := None)"
    and fdt: "u64_look (cli_fd_hash h) = (u64_look (cli_fd_hash hdl))(?u := None)"
    using infoh(3) fdh(3) by (simp_all add: h_def)
  have "tables_ok h"
    unfolding tables_ok_def
  proof (intro conjI allI impI)
    show "u64_inv (cli_fd_hash h)" "u64_inv (cli_info_hash h)"
      using fdh(2) infoh(2) by (simp_all add: h_def)
    show "u64_look (cli_fd_hash h) u \<noteq> Some None" for u
      using t' by (simp add: fdt)
    fix u v
    assume "u64_look (cli_info_hash h) u = Some v"
    then have u: "u \<noteq> ?u" "u64_look (cli_info_hash hdl) u = Some v"
      by (auto simp: info split: if_splits)
    then obtain p c0 where p: "v = Some p" "registered hdl p c0" "cli_uuid c0 = u"
      using t' by metis
    then have "p \<noteq> ptr"
      using u(1) reg by (auto simp: registered_def)
    then show "\<exists>p c0. v = Some p \<and> registered h p c0 \<and> cli_uuid c0 = u"
      using p regs by blast
  next
    fix p c0 v
    assume "registered h p c0" "u64_look (cli_info_hash h) (cli_uuid c0) = Some v"
    then show "v = Some p"
      using t' by (auto simp: regs info split: if_splits)
  qed
  then have "srv_ok h"
    using conns srv by (simp add: srv_ok_def h_def hdl')
  moreover have "clients h ptr = None \<longleftrightarrow> ptr \<in> set freed"
    by (simp add: h_def)
  ultimately show ?thesis
    using close freed(2) by (intro exI [of _ h]) simp
qed

text \<open>
  The header that becomes complete in this round announces more than there is memory for, and the
  connection is in the table of connections: it is freed there, and its fields are printed.
\<close>

definition bad_alloc :: "mallocs \<Rightarrow> uc_ipc_server_handler \<Rightarrow> nat \<Rightarrow> bool" where
  "bad_alloc mal hdl ptr \<longleftrightarrow> (case clients hdl ptr of
     None \<Rightarrow> False
   | Some cli \<Rightarrow> u64_look (cli_info_hash hdl) (cli_uuid cli) \<noteq> None \<and>
       (case cli_read mal cli (incoming hdl (cli_fd cli)) of
          Inl e \<Rightarrow> False
        | Inr (ret, cli', as') \<Rightarrow> ret = - 0x48a6af21))"

lemma read_client_safe:
  assumes mal: "mallocs_ok mal" and srv: "srv_ok hdl" and reg: "registered hdl ptr cli"
  obtains (closed) ret h where "uc_ipc_server_read_client mal hdl ptr = Inr (ret, h)" "ret < 0" "srv_ok h" "\<not> bad_alloc mal hdl ptr"
    | (oom) "uc_ipc_server_read_client mal hdl ptr = Inl (Crashed Undefined_behaviour)" "bad_alloc mal hdl ptr"
    | (more) h where "uc_ipc_server_read_client mal hdl ptr = Inr (0, h)" "srv_ok h" "\<not> bad_alloc mal hdl ptr"
    | (full) h cli' where "uc_ipc_server_read_client mal hdl ptr = Inr (1, h)" "clients h ptr = Some cli'"
      "cli_ok cli'" "buf_done cli'" "\<not> bad_alloc mal hdl ptr"
      "srv_ok (h\<lparr>clients := (clients h)(ptr \<mapsto> uc_ipc_server_reset_cli_proto cli')\<rparr>)"
proof -
  have c: "clients hdl ptr = Some cli" "cli_ok cli" "\<not> buf_done cli"
    using srv reg by (auto simp: srv_ok_def conns_ok_def registered_def)
  let ?as = "incoming hdl (cli_fd cli)"
  obtain ret cli' as' where r: "cli_read mal cli ?as = Inr (ret, cli', as')" "read_ok mal cli ?as ret cli' as'"
    using cli_read_ok [OF c(2,3) mal] by blast
  let ?inp = "(incoming hdl)(cli_fd cli := as')"
  let ?h = "hdl\<lparr>clients := (clients hdl)(ptr \<mapsto> cli'), incoming := ?inp\<rparr>"
  have same: "cli_fd cli' = cli_fd cli" "cli_uuid cli' = cli_uuid cli"
    using r(2) by (simp_all add: read_ok_def)
  have replaced: "srv_ok (hdl\<lparr>clients := (clients hdl)(ptr \<mapsto> c2), incoming := ?inp\<rparr>)"
    if "cli_ok c2" "\<not> buf_done c2" "cli_fd c2 = cli_fd cli" "cli_uuid c2 = cli_uuid cli" for c2
    using srv_ok_replace [OF srv c(1) that] by simp
  have bad: "bad_alloc mal hdl ptr \<longleftrightarrow> u64_look (cli_info_hash hdl) (cli_uuid cli) \<noteq> None \<and> ret = - 0x48a6af21"
    by (simp add: bad_alloc_def c(1) r(1))
  have codes: "ret < 0 \<Longrightarrow> prints_cli ret \<longleftrightarrow> ret = - 0x48a6af21"
    using r(2) by (auto simp: read_ok_def prints_cli_def)
  consider "ret < 0" | "ret = 0" "cli_ok cli'" "\<not> buf_done cli'" | "ret = 1" "cli_ok cli'" "buf_done cli'"
    using r(2) unfolding read_ok_def by auto
  then show thesis
  proof cases
    case 1
    obtain h where h: "uc_ipc_server_close_cli ?h ptr = Inr h" "srv_ok h"
      "clients h ptr = None \<longleftrightarrow> u64_look (cli_info_hash hdl) (cli_uuid cli) \<noteq> None"
      using close_safe [OF srv reg same refl] by (metis (no_types))
    have run: "uc_ipc_server_read_client mal hdl ptr =
        (if bad_alloc mal hdl ptr then Inl (Crashed Undefined_behaviour) else Inr (ret, h))"
      using 1 c(1) r(1) h(1,3) codes bad by (simp add: uc_ipc_server_read_client_def Let_def)
    show thesis
    proof (cases "bad_alloc mal hdl ptr")
      case True
      then show thesis
        using oom run by simp
    next
      case False
      then show thesis
        using closed [OF _ 1 h(2) False] run by simp
    qed
  next
    case 2
    then show thesis
      using more [of ?h] c(1) r(1) same replaced bad by (simp add: uc_ipc_server_read_client_def)
  next
    case 3
    let ?reset = "uc_ipc_server_reset_cli_proto cli'"
    have "cli_fd ?reset = cli_fd cli" "cli_uuid ?reset = cli_uuid cli" "\<not> buf_done ?reset"
      using same by (simp_all add: uc_ipc_server_reset_cli_proto_def)
    from replaced [OF cli_ok_reset this(3,1,2)]
    have "srv_ok (hdl\<lparr>clients := (clients hdl)(ptr \<mapsto> ?reset), incoming := ?inp\<rparr>)" .
    also have "hdl\<lparr>clients := (clients hdl)(ptr \<mapsto> ?reset), incoming := ?inp\<rparr> = ?h\<lparr>clients := (clients ?h)(ptr \<mapsto> ?reset)\<rparr>"
      by simp
    finally show thesis
      using full [of ?h cli'] c(1) r(1) 3 bad by (simp add: uc_ipc_server_read_client_def)
  qed
qed

section \<open>Accepting\<close>

text \<open>An insertion with or without memory for a node.\<close>

lemma u64_put_any:
  assumes "u64_inv t" "a = None \<or> u64_alloc_ok a"
  obtains r t' where "uc_hash_insert a t (key_u64 k) v =
      Inr (r, t', if r = 0 then case u64_look t k of None \<Rightarrow> [] | Some old \<Rightarrow> freed_val old else [])"
    "u64_inv t'" "u64_look t' = (if r = 0 then (u64_look t)(k \<mapsto> v) else u64_look t)"
proof (cases "a = None \<and> u64_look t k = None")
  case True
  have "uc_hash_insert None t (key_u64 k) v = Inr (-0x6488e857, t, [])"
    using uc_hash_insert_oom [of t "key_u64 k" v] u64_table [OF assms(1)] assms(1) True
    by (simp add: u64_look_def u64_inv_def)
  then show thesis
    using that [of "-0x6488e857" t] True assms(1) by simp
next
  case False
  have "\<exists>t'. uc_hash_insert a t (key_u64 k) v = Inr (0, t', case u64_look t k of None \<Rightarrow> [] | Some old \<Rightarrow> freed_val old) \<and>
      hash_inv t' \<and> hash_map t' = (hash_map t)(kb t (key_u64 k) \<mapsto> v) \<and> same_shape t t'"
    using uc_hash_insert_spec [of t "key_u64 k" a v] u64_table [OF assms(1)] assms False
    by (auto simp: u64_look_def u64_inv_def)
  then obtain t' where "uc_hash_insert a t (key_u64 k) v =
      Inr (0, t', case u64_look t k of None \<Rightarrow> [] | Some old \<Rightarrow> freed_val old)"
    "u64_inv t'" "u64_look t' = (u64_look t)(k \<mapsto> v)"
    using u64_same_shape [OF assms(1)] u64_look_upd [of _ t k] u64_table(2) [OF assms(1)] by metis
  then show thesis
    using that [of 0 t'] by simp
qed

text \<open>
  What the kernel and the allocator promise: a descriptor not in use, an address not in use, random
  bytes that are no connection's number, memory for a node or none.
\<close>

definition accept_ok :: "uc_ipc_server_handler \<Rightarrow> accept_env \<Rightarrow> bool" where
  "accept_ok hdl e \<longleftrightarrow>
     (\<forall>fd addr port. ac_fd e = Some (fd, addr, port) \<longrightarrow> epoll_set hdl fd = None) \<and>
     (\<forall>ptr. ac_cli e = Some ptr \<longrightarrow> clients hdl ptr = None) \<and>
     (ac_node_fd e = None \<or> u64_alloc_ok (ac_node_fd e)) \<and> (ac_node_info e = None \<or> u64_alloc_ok (ac_node_info e)) \<and>
     (\<forall>r buf. uc_urandom (ac_open e) 8 (ac_random e) = Some (r, buf) \<longrightarrow> r = 0 \<and>
        (\<forall>ptr cli. registered hdl ptr cli \<longrightarrow> cli_uuid cli \<noteq> word_of_nat (le_nat buf)))"

lemma registered_new:
  assumes srv: "srv_ok hdl" and fresh: "epoll_set hdl fd = None" "clients hdl ptr = None"
      "\<And>p c. registered hdl p c \<Longrightarrow> cli_uuid c \<noteq> u"
    and cli: "cli_ok cli" "\<not> buf_done cli" "cli_fd cli = fd" "cli_uuid cli = u"
    and h: "clients h = (clients hdl)(ptr \<mapsto> cli)" "epoll_set h = (epoll_set hdl)(fd \<mapsto> ptr)" "pipe_msgs h = pipe_msgs hdl"
      "u64_inv (cli_fd_hash h)" "u64_look (cli_fd_hash h) = (if r1 = 0 then (u64_look (cli_fd_hash hdl))(u \<mapsto> Some fd) else u64_look (cli_fd_hash hdl))"
      "u64_inv (cli_info_hash h)" "u64_look (cli_info_hash h) = (if r2 = 0 then (u64_look (cli_info_hash hdl))(u \<mapsto> Some ptr) else u64_look (cli_info_hash hdl))"
  shows "srv_ok h"
proof -
  have t: "tables_ok hdl" and c: "conns_ok hdl" and m: "list_all msg_ok (pipe_msgs hdl)"
    using srv by (simp_all add: srv_ok_def)
  note t' = t [unfolded tables_ok_def]
  have not_ptr: "p \<noteq> ptr" if "epoll_set hdl fd' = Some p" for fd' p
    using c that fresh(2) unfolding conns_ok_def by (metis option.distinct(1))
  have regs: "registered h p c0 \<longleftrightarrow> registered hdl p c0 \<or> p = ptr \<and> c0 = cli" for p c0
    using fresh(1,2) cli(3) not_ptr by (auto simp: registered_def h)
  have "conns_ok h"
    using c cli fresh not_ptr by (auto simp: conns_ok_def h)
  moreover have "tables_ok h"
    unfolding tables_ok_def
  proof (intro conjI allI impI)
    show "u64_inv (cli_fd_hash h)" "u64_inv (cli_info_hash h)"
      by (rule h)+
    show "u64_look (cli_fd_hash h) x \<noteq> Some None" for x
      using t' by (simp add: h(5))
    fix x v
    assume v: "u64_look (cli_info_hash h) x = Some v"
    show "\<exists>p c0. v = Some p \<and> registered h p c0 \<and> cli_uuid c0 = x"
    proof (cases "r2 = 0 \<and> x = u")
      case True
      then show ?thesis
        using v cli(4) by (auto simp: h(7) regs)
    next
      case False
      then have "u64_look (cli_info_hash hdl) x = Some v"
        using v by (auto simp: h(7) split: if_splits)
      then show ?thesis
        using t' regs by blast
    qed
  next
    fix p c0 v
    assume reg: "registered h p c0" and v: "u64_look (cli_info_hash h) (cli_uuid c0) = Some v"
    from reg consider "registered hdl p c0" "cli_uuid c0 \<noteq> u" | "p = ptr" "c0 = cli"
      using regs fresh(3) by blast
    then show "v = Some p"
    proof cases
      case 1
      then have "u64_look (cli_info_hash hdl) (cli_uuid c0) = Some v"
        using v by (simp add: h(7) split: if_splits)
      then show ?thesis
        using t' 1(1) by blast
    next
      case 2
      have "u64_look (cli_info_hash hdl) u \<noteq> Some v"
        using t' fresh(3) by blast
      then show ?thesis
        using v 2 cli(4) by (auto simp: h(7) split: if_splits)
    qed
  qed
  ultimately show ?thesis
    using m by (simp add: srv_ok_def h(3))
qed

lemma accept_safe:
  assumes srv: "srv_ok hdl" and env: "accept_ok hdl e"
  shows "outcome_ok False (run_bind (uc_ipc_server_accept_client e hdl) (\<lambda>(r, h). Inr h))"
proof (cases "ac_fd e = None \<or> ac_cli e = None \<or> uc_urandom (ac_open e) 8 (ac_random e) = None \<or> \<not> ac_epoll e \<or> \<not> ac_fd_mem e")
  case True
  then show ?thesis
    using srv env by (auto simp: uc_ipc_server_accept_client_def accept_ok_def Let_def split: option.split)
next
  case False
  then obtain fd addr port ptr r buf where e: "ac_fd e = Some (fd, addr, port)" "ac_cli e = Some ptr"
    "uc_urandom (ac_open e) 8 (ac_random e) = Some (r, buf)" "ac_epoll e" "ac_fd_mem e"
    by auto
  have r: "r = 0"
    using env e by (simp add: accept_ok_def)
  let ?u = "word_of_nat (le_nat buf) :: u64"
  have fresh: "epoll_set hdl fd = None" "clients hdl ptr = None" "\<And>p c. registered hdl p c \<Longrightarrow> cli_uuid c \<noteq> ?u"
    and nodes: "ac_node_fd e = None \<or> u64_alloc_ok (ac_node_fd e)" "ac_node_info e = None \<or> u64_alloc_ok (ac_node_info e)"
    using env e by (auto simp: accept_ok_def)
  have t: "u64_inv (cli_fd_hash hdl)" "u64_inv (cli_info_hash hdl)"
    using srv by (simp_all add: srv_ok_def tables_ok_def)
  define cli where "cli = \<lparr>cli_fd = fd, cli_uuid = ?u, has_read = 0, head_done = False,
     buf_done = False, ipc_head = replicate HEAD_LEN 0, cli_buf = None\<rparr>"
  have cli: "cli_ok cli" "\<not> buf_done cli" "cli_fd cli = fd" "cli_uuid cli = ?u"
    by (simp_all add: cli_def cli_ok_def head_phase_def HEAD_LEN_def)
  obtain r1 fdh f1 where i1: "uc_hash_insert (ac_node_fd e) (cli_fd_hash hdl) (key_u64 ?u) (Some fd) = Inr (r1, fdh, f1)"
    "u64_inv fdh" "u64_look fdh = (if r1 = 0 then (u64_look (cli_fd_hash hdl))(?u \<mapsto> Some fd) else u64_look (cli_fd_hash hdl))"
    using u64_put_any [OF t(1) nodes(1), of ?u "Some fd"] by blast
  obtain r2 infoh f2 where i2: "uc_hash_insert (ac_node_info e) (cli_info_hash hdl) (key_u64 ?u) (Some ptr) = Inr (r2, infoh, f2)"
    "u64_inv infoh" "u64_look infoh = (if r2 = 0 then (u64_look (cli_info_hash hdl))(?u \<mapsto> Some ptr) else u64_look (cli_info_hash hdl))"
    "f2 = (if r2 = 0 then case u64_look (cli_info_hash hdl) ?u of None \<Rightarrow> [] | Some old \<Rightarrow> freed_val old else [])"
    using u64_put_any [OF t(2) nodes(2), of ?u "Some ptr"] by blast
  have "u64_look (cli_info_hash hdl) ?u = None"
    using srv fresh(3) unfolding srv_ok_def tables_ok_def by (metis option.exhaust)
  then have f2: "f2 = []"
    using i2(4) by simp
  let ?h = "hdl\<lparr>clients := (clients hdl)(ptr \<mapsto> cli), epoll_set := (epoll_set hdl)(fd \<mapsto> ptr),
     cli_fd_hash := fdh, cli_info_hash := infoh\<rparr>"
  have "srv_ok ?h"
    by (rule registered_new [OF srv fresh cli]) (use i1(2,3) i2(2,3) in simp_all)
  moreover have "run_bind (uc_ipc_server_accept_client e hdl) (\<lambda>(r, h). Inr h) = Inr ?h"
    using e r i1(1) i2(1) f2 unfolding cli_def
    by (simp add: uc_ipc_server_accept_client_def Let_def fun_upd_def)
  ultimately show ?thesis
    by simp
qed

section \<open>The steps of the server\<close>

definition kernel_ok :: "uc_ipc_server_handler \<Rightarrow> event \<Rightarrow> bool" where
  "kernel_ok hdl ev \<longleftrightarrow> (case ev of
     Listening e \<Rightarrow> accept_ok hdl e
   | Ready ptr mem_ok ws pw \<Rightarrow> \<exists>fd. epoll_set hdl fd = Some ptr
   | Arrive fd a \<Rightarrow> True)"

text \<open>The message that becomes complete in this round has a type the server does not handle.\<close>

definition bad_type :: "mallocs \<Rightarrow> uc_ipc_server_handler \<Rightarrow> nat \<Rightarrow> bool" where
  "bad_type mal hdl ptr \<longleftrightarrow>
     (case uc_ipc_server_read_client mal hdl ptr of
        Inl e \<Rightarrow> False
      | Inr (ret, h) \<Rightarrow> ret > 0 \<and>
          (case clients h ptr of None \<Rightarrow> False | Some cli \<Rightarrow> \<not> handled_type (head_msg_type (cli_head cli))))"

definition bad_event :: "mallocs \<Rightarrow> uc_ipc_server_handler \<Rightarrow> event \<Rightarrow> bool" where
  "bad_event mal hdl ev \<longleftrightarrow> (case ev of
     Ready ptr mem_ok ws pw \<Rightarrow> bad_alloc mal hdl ptr \<or> mem_ok \<and> bad_type mal hdl ptr
   | _ \<Rightarrow> False)"

lemma receiver_safe:
  assumes mal: "mallocs_ok mal" and srv: "srv_ok hdl" and env: "kernel_ok hdl ev"
  shows "outcome_ok (bad_event mal hdl ev) (loop_rcv_event mal hdl ev)"
proof (cases ev)
  case (Listening e)
  then show ?thesis
    using accept_safe [OF srv, of e] env by (simp add: loop_rcv_event_def bad_event_def kernel_ok_def)
next
  case (Ready ptr mem_ok ws pw)
  then obtain fd where fd: "epoll_set hdl fd = Some ptr"
    using env by (auto simp: kernel_ok_def)
  then obtain cli where "clients hdl ptr = Some cli" "cli_fd cli = fd"
    using srv unfolding srv_ok_def conns_ok_def by blast
  with fd have "registered hdl ptr cli"
    by (simp add: registered_def)
  with mal srv show ?thesis
  proof (cases rule: read_client_safe)
    case (closed ret h)
    then show ?thesis
      using Ready by (simp add: loop_rcv_event_def bad_event_def bad_type_def)
  next
    case oom
    then show ?thesis
      using Ready by (simp add: loop_rcv_event_def bad_event_def)
  next
    case (more h)
    then show ?thesis
      using Ready by (simp add: loop_rcv_event_def bad_event_def bad_type_def)
  next
    case (full h cli')
    from handle_safe [OF mal full(2-4,6), of mem_ok ws pw] show ?thesis
      using Ready full(1,2,5) by (simp add: loop_rcv_event_def bad_event_def bad_type_def case_prod_unfold)
  qed
next
  case (Arrive fd a)
  then show ?thesis
    using srv by (simp add: loop_rcv_event_def bad_event_def)
qed

text \<open>The user's callback returns memory of the length it says.\<close>

definition callback_ok :: "callback \<Rightarrow> bool" where
  "callback_ok cb \<longleftrightarrow> (\<forall>t b n. case cb t b n of (addr, len) \<Rightarrow> payload_ok addr len)"

lemma callback_safe:
  assumes mal: "mallocs_ok mal" and cb: "callback_ok cb" and srv: "srv_ok hdl"
  shows "outcome_ok False (uc_ipc_server_loop_callback mal ws cb hdl)"
proof (cases "pipe_msgs hdl")
  case Nil
  then show ?thesis
    using srv by (simp add: uc_ipc_server_loop_callback_def)
next
  case (Cons pd pds)
  let ?h = "hdl\<lparr>pipe_msgs := pds\<rparr>"
  have h: "srv_ok ?h" "tables_ok ?h"
    using srv_ok_pipe(2) [OF srv Cons] by (simp_all add: srv_ok_def)
  note unfold = uc_ipc_server_loop_callback_def uc_ipc_server_free_pipe_msg_def Let_def Cons
  obtain addr len where ret: "cb (head_msg_type (pd_head pd)) (pd_buf pd) (head_ttl (pd_head pd)) = (addr, len)"
    by (metis surj_pair)
  then have "payload_ok addr len"
    using cb unfolding callback_ok_def by (metis case_prod_conv)
  note send = send_msg_safe [OF mal h(2) this, of ws "pd_uuid pd" "head_seq_id (pd_head pd)" uc_ipc_msg_type_sync_ack]
  show ?thesis
  proof (cases "head_msg_type (pd_head pd) = uc_ipc_msg_type_sync_send")
    case True
    show ?thesis
      by (rule sending_cases [OF send]) (use True ret h(1) in \<open>simp_all add: unfold msg_types\<close>)
  next
    case False
    then show ?thesis
      using ret h(1) by (simp add: unfold)
  qed
qed

inductive srv_step :: "mallocs \<Rightarrow> callback \<Rightarrow> uc_ipc_server_handler \<Rightarrow> uc_ipc_server_handler \<Rightarrow> bool" for mal cb where
  receive: "kernel_ok hdl ev \<Longrightarrow> loop_rcv_event mal hdl ev = Inr h \<Longrightarrow> srv_step mal cb hdl h"
| reply: "uc_ipc_server_loop_callback mal ws cb hdl = Inr h \<Longrightarrow> srv_step mal cb hdl h"

inductive_cases srv_stepE: "srv_step mal cb hdl h"

lemma srv_step_ok:
  assumes "srv_step mal cb hdl h" "mallocs_ok mal" "callback_ok cb" "srv_ok hdl"
  shows "srv_ok h"
  using assms(1)
proof (rule srv_stepE)
  fix ev
  assume "kernel_ok hdl ev" "loop_rcv_event mal hdl ev = Inr h"
  then show ?thesis
    using receiver_safe [OF assms(2,4), of ev] by simp
next
  fix ws
  assume "uc_ipc_server_loop_callback mal ws cb hdl = Inr h"
  then show ?thesis
    using callback_safe [OF assms(2-4), of ws] by simp
qed

lemma reachable_srv_ok:
  "(srv_step mal cb)\<^sup>*\<^sup>* hdl0 hdl \<Longrightarrow> mallocs_ok mal \<Longrightarrow> callback_ok cb \<Longrightarrow> srv_ok hdl0 \<Longrightarrow> srv_ok hdl"
  by (induction rule: rtranclp_induct) (blast intro: srv_step_ok)+

text \<open>C6: a server in good order stays so, whatever arrives on its connections, provided that an accepted
  connection has a descriptor and an address not in use and its random number could be read and is no
  other connection's, and that the callback returns memory of the length it says. In every state reached
  a receiver's round is undefined exactly in two cases: it completes a message whose type is none of the
  four the server handles (the acknowledgements included), which is freed and then read; or it completes
  a header for whose payload there is no memory, on a connection that is in the table of connections,
  which is freed there and then read. A callback's round is never undefined.\<close>

theorem uc_ipc_server_type_safe:
  assumes "mallocs_ok mal" "callback_ok cb" "srv_ok hdl0" "(srv_step mal cb)\<^sup>*\<^sup>* hdl0 hdl"
  shows "srv_ok hdl \<and>
    (\<forall>ev. kernel_ok hdl ev \<longrightarrow> (\<forall>c. loop_rcv_event mal hdl ev = Inl (Crashed c) \<longleftrightarrow>
       c = Undefined_behaviour \<and> bad_event mal hdl ev)) \<and>
    (\<forall>ws c. uc_ipc_server_loop_callback mal ws cb hdl \<noteq> Inl (Crashed c))"
proof -
  have srv: "srv_ok hdl"
    using reachable_srv_ok [OF assms(4,1-3)] .
  moreover have "loop_rcv_event mal hdl ev = Inl (Crashed c) \<longleftrightarrow> c = Undefined_behaviour \<and> bad_event mal hdl ev"
    if "kernel_ok hdl ev" for ev c
    using receiver_safe [OF assms(1) srv that] by (auto simp: outcome_ok_def split: sum.splits if_splits)
  moreover have "uc_ipc_server_loop_callback mal ws cb hdl \<noteq> Inl (Crashed c)" for ws c
    using callback_safe [OF assms(1,2) srv, of ws] by auto
  ultimately show ?thesis
    by blast
qed

text \<open>A message of unknown type, and one of 5000 bytes, for which \<open>demo_malloc\<close> has no memory.\<close>

definition demo_bad :: "u64 \<Rightarrow> u32 \<Rightarrow> uc_ipc_server_handler" where
  "demo_bad ttl ty = demo_server\<lparr>incoming := (\<lambda>fd. [Data (head_bytes (request_head 10001 ty ttl))])\<rparr>"

lemma demo_bad_read:
  "cli_read demo_malloc demo_conn [Data (head_bytes (request_head 10001 99 0))] =
     Inr (1, demo_conn\<lparr>has_read := 28, head_done := True, buf_done := True,
       ipc_head := head_bytes (request_head 10001 99 0)\<rparr>, [])"
  "cli_read demo_malloc demo_conn [Data (head_bytes (request_head 10001 99 5000))] =
     Inr (- 0x48a6af21, demo_conn\<lparr>has_read := 28, head_done := True,
       ipc_head := head_bytes (request_head 10001 99 5000)\<rparr>, [])"
proof -
  have nonempty: "head_bytes h \<noteq> []" for h
  proof -
    have "0 < length (head_bytes h)"
      by (simp add: HEAD_LEN_def)
    then show ?thesis
      using length_greater_0_conv by blast
  qed
  note run = cli_read.simps [of demo_malloc] read_want_def demo_conn_def read_store_def store_at_def read_account_def
    read_end_def cli_head_def SIZEOF_HEAD_def HEAD_LEN_def Let_def
  show "cli_read demo_malloc demo_conn [Data (head_bytes (request_head 10001 99 0))] =
     Inr (1, demo_conn\<lparr>has_read := 28, head_done := True, buf_done := True,
       ipc_head := head_bytes (request_head 10001 99 0)\<rparr>, [])"
    by (simp add: run nonempty) (simp add: request_head_def)
  show "cli_read demo_malloc demo_conn [Data (head_bytes (request_head 10001 99 5000))] =
     Inr (- 0x48a6af21, demo_conn\<lparr>has_read := 28, head_done := True,
       ipc_head := head_bytes (request_head 10001 99 5000)\<rparr>, [])"
    by (simp add: run nonempty) (simp add: request_head_def)
qed

lemma demo_bad_ok: "srv_ok (demo_bad ttl ty)" "kernel_ok (demo_bad ttl ty) (Ready 1 True [] [])"
proof -
  have conn: "cli_ok demo_conn" "\<not> buf_done demo_conn" "cli_fd demo_conn = 9" "cli_uuid demo_conn = 7"
    by (simp_all add: demo_conn_def cli_ok_def head_phase_def HEAD_LEN_def)
  show "srv_ok (demo_bad ttl ty)"
    by (auto simp: demo_bad_def demo_server_def srv_ok_def conns_ok_def tables_ok_def registered_def conn split: if_splits)
  show "kernel_ok (demo_bad ttl ty) (Ready 1 True [] [])"
    by (simp add: kernel_ok_def demo_bad_def demo_server_def)
qed

lemma demo_bad_event:
  "bad_event demo_malloc (demo_bad 0 99) (Ready 1 True [] [])" "bad_event demo_malloc (demo_bad 5000 99) (Ready 1 True [] [])"
proof -
  have conn: "cli_fd demo_conn = 9" "cli_uuid demo_conn = 7"
    by (simp_all add: demo_conn_def)
  have "bad_type demo_malloc (demo_bad 0 99) 1"
    by (simp add: bad_type_def uc_ipc_server_read_client_def demo_bad_def demo_server_def demo_bad_read conn cli_head_def)
      (simp add: request_head_def handled_type_def msg_types)
  then show "bad_event demo_malloc (demo_bad 0 99) (Ready 1 True [] [])"
    by (simp add: bad_event_def)
  have "bad_alloc demo_malloc (demo_bad 5000 99) 1"
    by (simp add: bad_alloc_def demo_bad_def demo_server_def demo_bad_read conn)
  then show "bad_event demo_malloc (demo_bad 5000 99) (Ready 1 True [] [])"
    by (simp add: bad_event_def)
qed

lemma uc_ipc_server_type_safe_witness:
  "loop_rcv_event demo_malloc (demo_bad 0 99) (Ready 1 True [] []) = Inl (Crashed Undefined_behaviour) \<and>
   loop_rcv_event demo_malloc (demo_bad 5000 99) (Ready 1 True [] []) = Inl (Crashed Undefined_behaviour)"
proof -
  have cb: "callback_ok (\<lambda>t b n. (None, 0))"
    by (simp add: callback_ok_def payload_ok_def)
  have "loop_rcv_event demo_malloc (demo_bad ttl 99) (Ready 1 True [] []) = Inl (Crashed Undefined_behaviour)"
    if "bad_event demo_malloc (demo_bad ttl 99) (Ready 1 True [] [])" for ttl
    using uc_ipc_server_type_safe [OF demo_env(1) cb demo_bad_ok(1) rtranclp.rtrancl_refl, of ttl 99] demo_bad_ok(2) that
    by blast
  with demo_bad_event show ?thesis
    by blast
qed

end
