(* ===== verification/Skip_List.thy ===== *)
theory Skip_List
  imports UC_Prelude "HOL-Library.Monad_Syntax"
begin

text \<open>
  The skip list (\<^verbatim>\<open>skiplist/skiplist.c\<close>). Nodes are records at addresses; a node has as many levels
  as its memory has room for, each with a pointer forward and the number of nodes it skips. Scores
  are of a linear order (the doubles other than NaN); the objects' comparison and equality, which the
  file calls and nobody defines, are parameters. A result \<open>None\<close> is a call that is undefined (a null
  pointer followed, memory outside a node) or does not return.
\<close>

section \<open>State\<close>

definition ZSKIPLIST_MAXLEVEL :: nat where "ZSKIPLIST_MAXLEVEL = 32"

record zskiplistLevel =
  forward :: "nat option"
  zspan :: u32

record ('s, 'o) zskiplistNode =
  obj :: "'o option"
  score :: 's
  backward :: "nat option"
  room :: nat
  level :: "nat \<Rightarrow> zskiplistLevel"

text \<open>\<open>len\<close> and \<open>levels\<close> are the fields \<^verbatim>\<open>length\<close> and \<^verbatim>\<open>level\<close> of the list.\<close>

record ('s, 'o) zskiplist =
  mem :: "nat \<rightharpoonup> ('s, 'o) zskiplistNode"
  header :: nat
  tail :: "nat option"
  len :: u64
  levels :: nat

text \<open>Reading and writing one level of a node, with the bounds of its array.\<close>

definition level_of :: "('s, 'o) zskiplist \<Rightarrow> nat \<Rightarrow> nat \<Rightarrow> zskiplistLevel option" where
  "level_of z x i = (case mem z x of None \<Rightarrow> None | Some n \<Rightarrow> if i < room n then Some (level n i) else None)"

definition set_level ::
  "nat \<Rightarrow> nat \<Rightarrow> zskiplistLevel \<Rightarrow> ('s, 'o) zskiplist \<Rightarrow> ('s, 'o) zskiplist option" where
  "set_level x i l z =
     (case mem z x of
        None \<Rightarrow> None
      | Some n \<Rightarrow>
          if i < room n then Some (z\<lparr>mem := (mem z)(x \<mapsto> n\<lparr>level := (level n)(i := l)\<rparr>)\<rparr>) else None)"

definition set_backward ::
  "nat \<Rightarrow> nat option \<Rightarrow> ('s, 'o) zskiplist \<Rightarrow> ('s, 'o) zskiplist option" where
  "set_backward x b z =
     (case mem z x of None \<Rightarrow> None | Some n \<Rightarrow> Some (z\<lparr>mem := (mem z)(x \<mapsto> n\<lparr>backward := b\<rparr>)\<rparr>))"

section \<open>Creation and destruction\<close>

text \<open>Fresh memory holds anything: its levels and its pointer back are parameters. \<open>zr\<close> is the score 0.\<close>

definition zslCreateNode ::
  "nat option \<Rightarrow> (nat \<Rightarrow> zskiplistLevel) \<Rightarrow> nat option \<Rightarrow> nat \<Rightarrow> 's \<Rightarrow> 'o option \<Rightarrow>
   (nat \<times> ('s, 'o) zskiplistNode) option" where
  "zslCreateNode addr junk junk_back lvl sc ob =
     (case addr of
        None \<Rightarrow> None
      | Some x \<Rightarrow> Some (x, \<lparr>obj = ob, score = sc, backward = junk_back, room = lvl, level = junk\<rparr>))"

definition zslCreate :: "'s \<Rightarrow> nat option \<Rightarrow> (nat \<Rightarrow> zskiplistLevel) \<Rightarrow> ('s, 'o) zskiplist option" where
  "zslCreate zr addr junk =
     do { (h, n) \<leftarrow> zslCreateNode addr junk None ZSKIPLIST_MAXLEVEL zr None;
          Some \<lparr>mem = [h \<mapsto> n\<lparr>level := (\<lambda>j. if j < ZSKIPLIST_MAXLEVEL then \<lparr>forward = None, zspan = 0\<rparr> else junk j),
                   backward := None\<rparr>],
                 header = h, tail = None, len = 0, levels = 1\<rparr> }"

text \<open>The addresses given back by \<^verbatim>\<open>zslFree\<close>, in order; the list itself comes last.\<close>

partial_function (option) free_nodes ::
  "(nat \<rightharpoonup> ('s, 'o) zskiplistNode) \<Rightarrow> nat option \<Rightarrow> nat list option" where
  "free_nodes m node =
     (case node of
        None \<Rightarrow> Some []
      | Some x \<Rightarrow>
          (case m x of
             None \<Rightarrow> None
           | Some n \<Rightarrow>
               if room n = 0 then None
               else do { xs \<leftarrow> free_nodes (m(x := None)) (forward (level n 0)); Some (x # xs) }))"

declare free_nodes.simps [code]

definition zslFree :: "('s, 'o) zskiplist \<Rightarrow> nat list option" where
  "zslFree z =
     do { l \<leftarrow> level_of z (header z) 0;
          xs \<leftarrow> free_nodes ((mem z)(header z := None)) (forward l);
          Some (header z # xs) }"

section \<open>Searching\<close>

text \<open>The order of the entries: by score, then by object.\<close>

definition entry_less :: "('o \<Rightarrow> 'o \<Rightarrow> int) \<Rightarrow> 's :: linorder \<Rightarrow> 'o \<Rightarrow> ('s, 'o) zskiplistNode \<Rightarrow> bool option" where
  "entry_less cmp sc ob n =
     (if score n < sc then Some True
      else if score n = sc then map_option (\<lambda>ob'. cmp ob' ob < 0) (obj n)
      else Some False)"

definition entry_le :: "('o \<Rightarrow> 'o \<Rightarrow> int) \<Rightarrow> 's :: linorder \<Rightarrow> 'o \<Rightarrow> ('s, 'o) zskiplistNode \<Rightarrow> bool option" where
  "entry_le cmp sc ob n =
     (if score n < sc then Some True
      else if score n = sc then map_option (\<lambda>ob'. cmp ob' ob \<le> 0) (obj n)
      else Some False)"

text \<open>
  The loop to the right on one level. \<open>go\<close> is the test on the next node and on the rank at which it
  would be reached.
\<close>

partial_function (option) walk ::
  "('s, 'o) zskiplist \<Rightarrow> (('s, 'o) zskiplistNode \<Rightarrow> 'w :: len word \<Rightarrow> bool option) \<Rightarrow> nat \<Rightarrow> nat \<Rightarrow> 'w word \<Rightarrow>
   (nat \<times> 'w word) option" where
  "walk z go i x r =
     (case level_of z x i of
        None \<Rightarrow> None
      | Some l \<Rightarrow>
          (case forward l of
             None \<Rightarrow> Some (x, r)
           | Some y \<Rightarrow>
               (case mem z y of
                  None \<Rightarrow> None
                | Some n \<Rightarrow>
                    (case go n (r + ucast (zspan l)) of
                       None \<Rightarrow> None
                     | Some b \<Rightarrow> if b then walk z go i y (r + ucast (zspan l)) else Some (x, r)))))"

declare walk.simps [code]

text \<open>From level \<open>i - 1\<close> down to 0: where each level was left, and at which rank, lowest level first.\<close>

fun search_down ::
  "('s, 'o) zskiplist \<Rightarrow> (('s, 'o) zskiplistNode \<Rightarrow> 'w :: len word \<Rightarrow> bool option) \<Rightarrow> nat \<Rightarrow> nat \<Rightarrow> 'w word \<Rightarrow>
   (nat \<times> 'w word) list option" where
  "search_down z go 0 x r = Some []"
| "search_down z go (Suc i) x r =
     (case walk z go i x r of
        None \<Rightarrow> None
      | Some (y, r') \<Rightarrow>
          (case search_down z go i y r' of None \<Rightarrow> None | Some us \<Rightarrow> Some (us @ [(y, r')])))"

section \<open>Insertion\<close>

text \<open>
  The level of a new node, from what \<^verbatim>\<open>random\<close> returns: one more for every value whose low 16 bits are
  below a quarter of 65535.
\<close>

fun zslRandomLevel :: "nat \<Rightarrow> nat list \<Rightarrow> nat option" where
  "zslRandomLevel lvl [] = None"
| "zslRandomLevel lvl (r # rs) =
     (if 4 * (r mod 65536) < 65535 then zslRandomLevel (lvl + 1) rs
      else Some (if lvl < ZSKIPLIST_MAXLEVEL then lvl else ZSKIPLIST_MAXLEVEL))"

text \<open>The levels the list did not have yet: they start at the header.\<close>

fun raise_levels :: "nat \<Rightarrow> nat \<Rightarrow> ('s, 'o) zskiplist \<Rightarrow> ('s, 'o) zskiplist option" where
  "raise_levels i 0 z = Some z"
| "raise_levels i (Suc k) z =
     do { l \<leftarrow> level_of z (header z) i;
          z' \<leftarrow> set_level (header z) i (l\<lparr>zspan := ucast (len z)\<rparr>) z;
          raise_levels (Suc i) k z' }"

text \<open>The loop that links the new node \<open>x\<close> in on its levels, from level \<open>i\<close> on.\<close>

fun link_levels ::
  "nat \<Rightarrow> u32 \<Rightarrow> nat \<Rightarrow> (nat \<times> u32) list \<Rightarrow> ('s, 'o) zskiplist \<Rightarrow> ('s, 'o) zskiplist option" where
  "link_levels x rank0 i [] z = Some z"
| "link_levels x rank0 i ((u, rank) # us) z =
     do { l \<leftarrow> level_of z u i;
          z1 \<leftarrow> set_level x i \<lparr>forward = forward l, zspan = zspan l - (rank0 - rank)\<rparr> z;
          z2 \<leftarrow> set_level u i \<lparr>forward = Some x, zspan = rank0 - rank + 1\<rparr> z1;
          link_levels x rank0 (Suc i) us z2 }"

text \<open>The levels above the new node skip one node more.\<close>

fun stretch_levels :: "nat \<Rightarrow> (nat \<times> u32) list \<Rightarrow> ('s, 'o) zskiplist \<Rightarrow> ('s, 'o) zskiplist option" where
  "stretch_levels i [] z = Some z"
| "stretch_levels i ((u, rank) # us) z =
     do { l \<leftarrow> level_of z u i;
          z' \<leftarrow> set_level u i (l\<lparr>zspan := zspan l + 1\<rparr>) z;
          stretch_levels (Suc i) us z' }"

definition zslInsert ::
  "('o \<Rightarrow> 'o \<Rightarrow> int) \<Rightarrow> nat option \<Rightarrow> (nat \<Rightarrow> zskiplistLevel) \<Rightarrow> nat option \<Rightarrow> nat list \<Rightarrow>
   ('s :: linorder, 'o) zskiplist \<Rightarrow> 's \<Rightarrow> 'o \<Rightarrow> (nat \<times> ('s, 'o) zskiplist) option" where
  "zslInsert cmp addr junk junk_back rnd z sc ob =
     do { us \<leftarrow> search_down z (\<lambda>n r. entry_less cmp sc ob n) (levels z) (header z) 0;
          lvl \<leftarrow> zslRandomLevel 1 rnd;
          z1 \<leftarrow> (if levels z < lvl then
                   do { z' \<leftarrow> raise_levels (levels z) (lvl - levels z) z; Some (z'\<lparr>levels := lvl\<rparr>) }
                 else Some z);
          let us1 = us @ replicate (lvl - levels z) (header z, 0);
          (x, n) \<leftarrow> zslCreateNode addr junk junk_back lvl sc (Some ob);
          let z2 = z1\<lparr>mem := (mem z1)(x \<mapsto> n)\<rparr>;
          z3 \<leftarrow> link_levels x (snd (us1 ! 0)) 0 (take lvl us1) z2;
          z4 \<leftarrow> stretch_levels lvl (drop lvl us1) z3;
          z5 \<leftarrow> set_backward x (if fst (us1 ! 0) = header z then None else Some (fst (us1 ! 0))) z4;
          l \<leftarrow> level_of z5 x 0;
          z6 \<leftarrow> (case forward l of
                  Some y \<Rightarrow> set_backward y (Some x) z5
                | None \<Rightarrow> Some (z5\<lparr>tail := Some x\<rparr>));
          Some (x, z6\<lparr>len := len z6 + 1\<rparr>) }"

section \<open>Deletion\<close>

fun unlink_levels :: "nat \<Rightarrow> nat \<Rightarrow> (nat \<times> u32) list \<Rightarrow> ('s, 'o) zskiplist \<Rightarrow> ('s, 'o) zskiplist option" where
  "unlink_levels x i [] z = Some z"
| "unlink_levels x i ((u, rank) # us) z =
     do { l \<leftarrow> level_of z u i;
          z' \<leftarrow> (if forward l = Some x then
                   do { lx \<leftarrow> level_of z x i;
                        set_level u i \<lparr>forward = forward lx, zspan = zspan l + (zspan lx - 1)\<rparr> z }
                 else set_level u i (l\<lparr>zspan := zspan l - 1\<rparr>) z);
          unlink_levels x (Suc i) us z' }"

text \<open>Empty levels are given up, but for the lowest.\<close>

fun trim_levels :: "nat \<Rightarrow> ('s, 'o) zskiplist \<Rightarrow> nat option" where
  "trim_levels 0 z = Some 0"
| "trim_levels (Suc i) z =
     (if i = 0 then Some 1
      else case level_of z (header z) i of
        None \<Rightarrow> None
      | Some l \<Rightarrow> if forward l = None then trim_levels i z else Some (Suc i))"

definition zslDeleteNode ::
  "('s, 'o) zskiplist \<Rightarrow> nat \<Rightarrow> (nat \<times> u32) list \<Rightarrow> ('s, 'o) zskiplist option" where
  "zslDeleteNode z x us =
     do { z1 \<leftarrow> unlink_levels x 0 (take (levels z) us) z;
          n \<leftarrow> mem z1 x;
          l \<leftarrow> level_of z1 x 0;
          z2 \<leftarrow> (case forward l of
                  Some y \<Rightarrow> set_backward y (backward n) z1
                | None \<Rightarrow> Some (z1\<lparr>tail := backward n\<rparr>));
          lv \<leftarrow> trim_levels (levels z2) z2;
          Some (z2\<lparr>levels := lv, len := len z2 - 1\<rparr>) }"

definition zslDelete ::
  "('o \<Rightarrow> 'o \<Rightarrow> int) \<Rightarrow> ('o \<Rightarrow> 'o \<Rightarrow> bool) \<Rightarrow> ('s :: linorder, 'o) zskiplist \<Rightarrow> 's \<Rightarrow> 'o \<Rightarrow>
   (int \<times> ('s, 'o) zskiplist) option" where
  "zslDelete cmp eq z sc ob =
     do { us \<leftarrow> search_down z (\<lambda>n (r :: u32). entry_less cmp sc ob n) (levels z) (header z) 0;
          l \<leftarrow> level_of z (fst (us ! 0)) 0;
          (case forward l of
             None \<Rightarrow> Some (0, z)
           | Some x \<Rightarrow>
               do { n \<leftarrow> mem z x;
                    if sc = score n then
                      do { ob' \<leftarrow> obj n;
                           if eq ob' ob then
                             do { z' \<leftarrow> zslDeleteNode z x us; Some (1, z'\<lparr>mem := (mem z')(x := None)\<rparr>) }
                           else Some (0, z) }
                    else Some (0, z) }) }"

section \<open>Ranks\<close>

fun rank_down ::
  "('o \<Rightarrow> 'o \<Rightarrow> int) \<Rightarrow> ('o \<Rightarrow> 'o \<Rightarrow> bool) \<Rightarrow> ('s :: linorder, 'o) zskiplist \<Rightarrow> 's \<Rightarrow> 'o \<Rightarrow> nat \<Rightarrow> nat \<Rightarrow> u64 \<Rightarrow>
   u64 option" where
  "rank_down cmp eq z sc ob 0 x r = Some 0"
| "rank_down cmp eq z sc ob (Suc i) x r =
     (case walk z (\<lambda>n r. entry_le cmp sc ob n) i x r of
        None \<Rightarrow> None
      | Some (y, r') \<Rightarrow>
          (case mem z y of
             None \<Rightarrow> None
           | Some n \<Rightarrow>
               if (case obj n of None \<Rightarrow> False | Some ob' \<Rightarrow> eq ob' ob) then Some r'
               else rank_down cmp eq z sc ob i y r'))"

definition zslGetRank ::
  "('o \<Rightarrow> 'o \<Rightarrow> int) \<Rightarrow> ('o \<Rightarrow> 'o \<Rightarrow> bool) \<Rightarrow> ('s :: linorder, 'o) zskiplist \<Rightarrow> 's \<Rightarrow> 'o \<Rightarrow> u64 option" where
  "zslGetRank cmp eq z sc ob = rank_down cmp eq z sc ob (levels z) (header z) 0"

fun element_down :: "('s, 'o) zskiplist \<Rightarrow> u64 \<Rightarrow> nat \<Rightarrow> nat \<Rightarrow> u64 \<Rightarrow> nat option option" where
  "element_down z rank 0 x r = Some None"
| "element_down z rank (Suc i) x r =
     (case walk z (\<lambda>n r'. Some (r' \<le> rank)) i x r of
        None \<Rightarrow> None
      | Some (y, r') \<Rightarrow> if r' = rank then Some (Some y) else element_down z rank i y r')"

definition zslGetElementByRank :: "('s, 'o) zskiplist \<Rightarrow> u64 \<Rightarrow> nat option option" where
  "zslGetElementByRank z rank = element_down z rank (levels z) (header z) 0"

end
