(* ===== verification/Skip_Inv.thy ===== *)
theory Skip_Inv
  imports Skip_List
begin

text \<open>
  The invariant of the skip list, and what the searches find. The list is a sequence \<open>xs\<close> of nodes
  with heights; the link of a node on level \<open>i\<close> leads to the next node that is higher than \<open>i\<close>, and
  its span is the number of steps to it, or to the end of the list.
\<close>

section \<open>Links of a sequence\<close>

definition fwd :: "(nat \<Rightarrow> nat) \<Rightarrow> nat \<Rightarrow> nat list \<Rightarrow> nat option" where
  "fwd h i ys = find (\<lambda>y. i < h y) ys"

definition gap :: "(nat \<Rightarrow> nat) \<Rightarrow> nat \<Rightarrow> nat list \<Rightarrow> nat" where
  "gap h i ys =
     (if fwd h i ys = None then length ys else Suc (length (takeWhile (\<lambda>y. \<not> i < h y) ys)))"

definition link_at :: "(nat \<Rightarrow> nat) \<Rightarrow> nat \<Rightarrow> nat list \<Rightarrow> zskiplistLevel" where
  "link_at h i ys = \<lparr>forward = fwd h i ys, zspan = word_of_nat (gap h i ys)\<rparr>"

lemma link_at_simps [simp]:
  "forward (link_at h i ys) = fwd h i ys" "zspan (link_at h i ys) = word_of_nat (gap h i ys)"
  by (simp_all add: link_at_def)

text \<open>The last node higher than \<open>i\<close>, or the header, and its position.\<close>

definition upd :: "nat \<Rightarrow> (nat \<Rightarrow> nat) \<Rightarrow> nat \<Rightarrow> nat list \<Rightarrow> nat" where
  "upd hdr h i us = last (hdr # filter (\<lambda>y. i < h y) us)"

definition pos :: "(nat \<Rightarrow> nat) \<Rightarrow> nat \<Rightarrow> nat list \<Rightarrow> nat" where
  "pos h i us = length (dropWhile (\<lambda>y. \<not> i < h y) (rev us))"

definition low :: "(nat \<Rightarrow> nat) \<Rightarrow> nat \<Rightarrow> nat list \<Rightarrow> bool" where
  "low h i ys \<longleftrightarrow> (\<forall>y\<in>set ys. h y \<le> i)"

lemma low_simps [simp]:
  "low h i []" "low h i (y # ys) \<longleftrightarrow> h y \<le> i \<and> low h i ys" "low h i (ys @ zs) \<longleftrightarrow> low h i ys \<and> low h i zs"
  by (auto simp: low_def)

lemma fwd_None_iff: "fwd h i ys = None \<longleftrightarrow> low h i ys"
  by (auto simp: fwd_def low_def find_None_iff not_less)

lemma fwd_low: "low h i ys \<Longrightarrow> fwd h i (ys @ zs) = fwd h i zs"
  by (induction ys) (auto simp: fwd_def)

lemma gap_low: "low h i ys \<Longrightarrow> gap h i (ys @ zs) = length ys + gap h i zs"
  by (simp add: gap_def fwd_low) (auto simp: low_def takeWhile_append not_less)

lemma fwd_high [simp]: "i < h y \<Longrightarrow> fwd h i (y # ys) = Some y"
  by (simp add: fwd_def)

lemma gap_high [simp]: "i < h y \<Longrightarrow> gap h i (y # ys) = 1"
  by (simp add: gap_def)

lemma fwd_reach: "low h i a \<Longrightarrow> i < h y \<Longrightarrow> fwd h i (a @ y # b) = Some y"
  by (simp add: fwd_low)

lemma gap_reach: "low h i a \<Longrightarrow> i < h y \<Longrightarrow> gap h i (a @ y # b) = Suc (length a)"
  by (simp add: gap_low)

text \<open>A sequence is low, or has a first node that is not.\<close>

lemma low_cases:
  obtains "low h i ys" | a y b where "ys = a @ y # b" "low h i a" "i < h y"
proof (cases "low h i ys")
  case False
  then have "\<exists>y\<in>set ys. i < h y"
    by (auto simp: low_def not_le)
  then obtain a y b where "ys = a @ y # b" "i < h y" "\<forall>z\<in>set a. \<not> i < h z"
    using split_list_first_prop [of ys "\<lambda>y. i < h y"] by blast
  then show thesis
    using that(2) by (simp add: low_def not_less)
qed

lemma upd_low [simp]: "low h i us \<Longrightarrow> upd hdr h i us = hdr"
  by (simp add: upd_def low_def filter_False not_less)

lemma upd_reach: "i < h y \<Longrightarrow> upd hdr h i (a @ y # b) = upd y h i b"
  by (simp add: upd_def)

lemma upd_Cons: "upd hdr h i (y # us) = upd (if i < h y then y else hdr) h i us"
  by (simp add: upd_def)

lemma upd_append: "upd hdr h i (us @ vs) = upd (upd hdr h i us) h i vs"
  by (auto simp: upd_def)

lemma upd_in: "upd hdr h i us = hdr \<or> upd hdr h i us \<in> set us \<and> i < h (upd hdr h i us)"
proof (cases "filter (\<lambda>y. i < h y) us = []")
  case False
  then have "last (filter (\<lambda>y. i < h y) us) \<in> set (filter (\<lambda>y. i < h y) us)"
    by (rule last_in_set)
  then show ?thesis
    using False by (simp add: upd_def)
qed (simp add: upd_def)

lemma pos_low [simp]: "low h i us \<Longrightarrow> pos h i us = 0"
  by (auto simp: pos_def low_def dropWhile_eq_Nil_conv not_less)

lemma pos_reach: "i < h y \<Longrightarrow> pos h i (a @ y # b) = Suc (length a) + pos h i b"
  by (cases "low h i b") (auto simp: pos_def dropWhile_append low_def dropWhile_eq_Nil_conv not_less)

lemma pos_le: "pos h i us \<le> length us"
  using length_dropWhile_le [of "\<lambda>y. \<not> i < h y" "rev us"] by (simp add: pos_def)

lemma pos_all: "(\<And>y. y \<in> set us \<Longrightarrow> i < h y) \<Longrightarrow> pos h i us = length us"
proof (induction us rule: rev_induct)
  case (snoc y us)
  then show ?case
    using pos_reach [of i h y us "[]"] by simp
qed simp

lemma upd_all: "(\<And>y. y \<in> set us \<Longrightarrow> i < h y) \<Longrightarrow> upd hdr h i us = last (hdr # us)"
  by (simp add: upd_def filter_True)

text \<open>Changing the height of a node that is not there changes nothing.\<close>

lemma link_at_cong: "(\<And>y. y \<in> set ys \<Longrightarrow> h y = h' y) \<Longrightarrow> link_at h i ys = link_at h' i ys"
proof -
  assume eq: "\<And>y. y \<in> set ys \<Longrightarrow> h y = h' y"
  then have "fwd h i ys = fwd h' i ys"
    by (auto simp: fwd_def intro!: find_cong)
  moreover have "takeWhile (\<lambda>y. \<not> i < h y) ys = takeWhile (\<lambda>y. \<not> i < h' y) ys"
    using eq by (auto intro: takeWhile_cong)
  ultimately show ?thesis
    by (simp add: link_at_def gap_def)
qed

section \<open>The invariant\<close>

definition ht :: "('s, 'o) zskiplist \<Rightarrow> nat \<Rightarrow> nat" where
  "ht z x = (case mem z x of None \<Rightarrow> 0 | Some n \<Rightarrow> room n)"

text \<open>The links of the nodes of a sequence.\<close>

fun linked :: "('s, 'o) zskiplist \<Rightarrow> (nat \<Rightarrow> nat) \<Rightarrow> nat list \<Rightarrow> bool" where
  "linked z h [] = True"
| "linked z h (x # ys) = ((\<forall>i<h x. level_of z x i = Some (link_at h i ys)) \<and> linked z h ys)"

lemma linked_append: "linked z h (us @ vs) \<Longrightarrow> linked z h vs"
  by (induction us) auto

lemma linkedD: "linked z h (us @ x # vs) \<Longrightarrow> i < h x \<Longrightarrow> level_of z x i = Some (link_at h i vs)"
  by (induction us) auto

section \<open>One level\<close>

text \<open>
  The loop on one level goes through the nodes of \<open>us\<close> that are higher than \<open>i\<close> and stops before
  those of \<open>vs\<close>. The test may depend on the position.
\<close>

definition goes ::
  "('s, 'o) zskiplist \<Rightarrow> (('s, 'o) zskiplistNode \<Rightarrow> 'w :: len word \<Rightarrow> bool option) \<Rightarrow> 'w word \<Rightarrow> nat list \<Rightarrow> nat list \<Rightarrow> bool" where
  "goes z go r us vs \<longleftrightarrow>
     (\<forall>a y b. us = a @ y # b \<longrightarrow> (\<exists>n. mem z y = Some n \<and> go n (r + word_of_nat (Suc (length a))) = Some True)) \<and>
     (\<forall>a y b. vs = a @ y # b \<longrightarrow> (\<exists>n. mem z y = Some n \<and> go n (r + word_of_nat (length us + Suc (length a))) = Some False))"

lemma goes_drop:
  assumes "goes z go r (a @ y # b) vs"
  shows "goes z go (r + word_of_nat (Suc (length a))) b vs"
proof -
  have "\<exists>n. mem z y' = Some n \<and> go n (r + word_of_nat (Suc (length a)) + word_of_nat (Suc (length a'))) = Some True"
    if "b = a' @ y' # b'" for a' y' b'
  proof -
    have "a @ y # b = (a @ y # a') @ y' # b'"
      using that by simp
    with assms have "\<exists>n. mem z y' = Some n \<and> go n (r + word_of_nat (Suc (length (a @ y # a')))) = Some True"
      unfolding goes_def by blast
    then show ?thesis
      by (simp add: ac_simps)
  qed
  moreover have "\<exists>n. mem z y' = Some n \<and>
      go n (r + word_of_nat (Suc (length a)) + word_of_nat (length b + Suc (length a'))) = Some False"
    if "vs = a' @ y' # b'" for a' y' b'
  proof -
    from assms that have "\<exists>n. mem z y' = Some n \<and> go n (r + word_of_nat (length (a @ y # b) + Suc (length a'))) = Some False"
      unfolding goes_def by blast
    then show ?thesis
      by (simp add: ac_simps)
  qed
  ultimately show ?thesis
    unfolding goes_def by blast
qed

lemma ucast_span:
  assumes "LENGTH('w) \<le> 32 \<or> n < 2 ^ 32"
  shows "ucast (word_of_nat n :: u32) = (word_of_nat n :: 'w :: len word)"
proof -
  have "take_bit LENGTH('w) (take_bit 32 n) = take_bit LENGTH('w) n"
  proof (cases "n < 2 ^ 32")
    case True
    then have "take_bit 32 n = n"
      by (simp add: take_bit_nat_eq_self)
    then show ?thesis
      by simp
  next
    case False
    then show ?thesis
      using assms by (simp add: min_def)
  qed
  then show ?thesis
    by (simp add: unsigned_of_nat word_of_nat_eq_iff)
qed

lemma walk_spec:
  fixes r :: "'w :: len word"
  assumes "level_of z x i = Some (link_at h i (us @ vs))" "linked z h (us @ vs)"
    and "goes z go r us vs" "LENGTH('w) \<le> 32 \<or> length (us @ vs) < 2 ^ 32"
  shows "walk z go i x r = Some (upd x h i us, r + word_of_nat (pos h i us))"
  using assms
proof (induction "length us" arbitrary: x r us rule: less_induct)
  case less
  show ?case
  proof (cases h i us rule: low_cases)
    case 1
    show ?thesis
    proof (cases h i vs rule: low_cases)
      case 1
      then have "fwd h i (us @ vs) = None"
        using \<open>low h i us\<close> by (simp add: fwd_None_iff)
      then show ?thesis
        using less.prems(1) \<open>low h i us\<close> by (simp add: walk.simps)
    next
      case (2 a y b)
      let ?n = "length us + Suc (length a)"
      have "low h i (us @ a)"
        using \<open>low h i us\<close> 2(2) by simp
      then have link: "fwd h i (us @ vs) = Some y" "gap h i (us @ vs) = ?n"
        using fwd_reach [of h i "us @ a" y b] gap_reach [of h i "us @ a" y b] 2 by simp_all
      have "LENGTH('w) \<le> 32 \<or> ?n < 2 ^ 32"
        using less.prems(4) 2(1) by auto
      note cast = ucast_span [OF this]
      obtain n where "mem z y = Some n" "go n (r + word_of_nat ?n) = Some False"
        using less.prems(3) 2(1) unfolding goes_def by blast
      then show ?thesis
        using less.prems(1) link cast \<open>low h i us\<close> by (simp add: walk.simps [of z go i x])
    qed
  next
    case (2 a y b)
    let ?n = "Suc (length a)"
    have link: "fwd h i (us @ vs) = Some y" "gap h i (us @ vs) = ?n"
      using fwd_reach [of h i a y "b @ vs"] gap_reach [of h i a y "b @ vs"] 2 by simp_all
    have "LENGTH('w) \<le> 32 \<or> ?n < 2 ^ 32"
      using less.prems(4) 2(1) by auto
    note cast = ucast_span [OF this]
    obtain n where n: "mem z y = Some n" "go n (r + word_of_nat ?n) = Some True"
      using less.prems(3) 2(1) unfolding goes_def by blast
    have "walk z go i y (r + word_of_nat ?n) = Some (upd y h i b, r + word_of_nat ?n + word_of_nat (pos h i b))"
    proof (rule less.hyps)
      show "length b < length us"
        using 2(1) by simp
      have all: "us @ vs = a @ y # (b @ vs)"
        using 2(1) by simp
      show "level_of z y i = Some (link_at h i (b @ vs))"
        using less.prems(2) 2(3) unfolding all by (rule linkedD)
      show "linked z h (b @ vs)"
        using less.prems(2) linked_append [of z h "a @ [y]" "b @ vs"] all by simp
      show "goes z go (r + word_of_nat ?n) b vs"
        using less.prems(3) 2(1) goes_drop by blast
      show "LENGTH('w) \<le> 32 \<or> length (b @ vs) < 2 ^ 32"
        using less.prems(4) 2(1) by auto
    qed
    then show ?thesis
      using less.prems(1) link cast n 2
      by (simp add: walk.simps [of z go i x] upd_reach pos_reach ac_simps)
  qed
qed

section \<open>All levels\<close>

lemma high_cases:
  obtains "low h i us" | c b where "us = c @ upd hdr h i us # b" "low h i b" "i < h (upd hdr h i us)"
    "pos h i us = Suc (length c)"
proof (cases "low h i us")
  case False
  then have "\<exists>y\<in>set us. i < h y"
    by (auto simp: low_def not_le)
  then obtain c y b where us: "us = c @ y # b" "i < h y" "\<forall>z\<in>set b. \<not> i < h z"
    using split_list_last_prop [of us "\<lambda>y. i < h y"] by blast
  then have b: "low h i b"
    by (simp add: low_def not_less)
  have "upd hdr h i us = y" "pos h i us = Suc (length c)"
    using us(2) b by (simp_all add: us(1) upd_reach pos_reach)
  then show thesis
    using that(2) us b by simp
qed

lemma search_down_spec:
  fixes r :: "'w :: len word"
  assumes "\<And>j. j < i \<Longrightarrow> level_of z x j = Some (link_at h j (us @ vs))" "linked z h (us @ vs)"
    and "goes z go r us vs" "LENGTH('w) \<le> 32 \<or> length (us @ vs) < 2 ^ 32"
  shows "search_down z go i x r = Some (map (\<lambda>j. (upd x h j us, r + word_of_nat (pos h j us))) [0..<i])"
  using assms
proof (induction i arbitrary: x r us)
  case (Suc i)
  let ?y = "upd x h i us" and ?r = "r + word_of_nat (pos h i us) :: 'w word"
  have walk: "walk z go i x r = Some (?y, ?r)"
    by (rule walk_spec [OF Suc.prems(1) [OF lessI] Suc.prems(2-4)])
  have down: "search_down z go i ?y ?r = Some (map (\<lambda>j. (upd x h j us, r + word_of_nat (pos h j us))) [0..<i])"
  proof (cases rule: high_cases [where h = h and i = i and us = us and hdr = x])
    case 1
    then show ?thesis
      using Suc.IH [OF Suc.prems(1) Suc.prems(2-4)] by simp
  next
    case (2 c b)
    have all: "us @ vs = c @ ?y # (b @ vs)"
      using 2(1) by (metis append.assoc append_Cons)
    have "search_down z go i ?y ?r = Some (map (\<lambda>j. (upd ?y h j b, ?r + word_of_nat (pos h j b))) [0..<i])"
    proof (rule Suc.IH)
      show "level_of z ?y j = Some (link_at h j (b @ vs))" if "j < i" for j
        using Suc.prems(2) 2(3) that unfolding all by (intro linkedD) auto
      show "linked z h (b @ vs)"
        using Suc.prems(2) linked_append [of z h "c @ [?y]" "b @ vs"] all by simp
      show "goes z go ?r b vs"
        using Suc.prems(3) 2(1,4) goes_drop [of z go r c ?y b vs] by simp
      show "LENGTH('w) \<le> 32 \<or> length (b @ vs) < 2 ^ 32"
        using Suc.prems(4) all by auto
    qed
    moreover have "upd ?y h j b = upd x h j us \<and> ?r + word_of_nat (pos h j b) = r + word_of_nat (pos h j us)"
      if "j < i" for j
    proof -
      have j: "j < h ?y"
        using 2(3) that by simp
      have "upd x h j us = upd ?y h j b"
        using upd_reach [where h = h and y = ?y and i = j and hdr = x and a = c and b = b] j 2(1) by metis
      moreover have "pos h j us = Suc (length c) + pos h j b"
        using pos_reach [where h = h and y = ?y and i = j and a = c and b = b] j 2(1) by metis
      ultimately show ?thesis
        using 2(4) by (simp add: ac_simps)
    qed
    ultimately show ?thesis
      by simp
  qed
  show ?case
    using walk down by simp
qed simp

section \<open>The invariant\<close>

definition elem :: "('s, 'o) zskiplist \<Rightarrow> nat \<Rightarrow> 's \<times> 'o" where
  "elem z x = (score (the (mem z x)), the (obj (the (mem z x))))"

definition elem_less :: "('o \<Rightarrow> 'o \<Rightarrow> int) \<Rightarrow> 's :: linorder \<times> 'o \<Rightarrow> 's \<times> 'o \<Rightarrow> bool" where
  "elem_less cmp e e' \<longleftrightarrow> fst e < fst e' \<or> fst e = fst e' \<and> cmp (snd e) (snd e') < 0"

definition node_ok :: "('s, 'o) zskiplist \<Rightarrow> nat \<Rightarrow> bool" where
  "node_ok z x \<longleftrightarrow> (\<exists>n. mem z x = Some n \<and> obj n \<noteq> None \<and> 1 \<le> room n \<and> room n \<le> levels z)"

text \<open>The pointers back, from the header's side on, and the tail.\<close>

fun bchain :: "(nat \<rightharpoonup> ('s, 'o) zskiplistNode) \<Rightarrow> nat option \<Rightarrow> nat list \<Rightarrow> bool" where
  "bchain m b [] = True"
| "bchain m b (x # xs) = ((\<exists>n. m x = Some n \<and> backward n = b) \<and> bchain m (Some x) xs)"

definition last_of :: "nat option \<Rightarrow> nat list \<Rightarrow> nat option" where
  "last_of b xs = (if xs = [] then b else Some (last xs))"

definition backs_ok :: "('s, 'o) zskiplist \<Rightarrow> nat list \<Rightarrow> bool" where
  "backs_ok z xs \<longleftrightarrow> bchain (mem z) None xs \<and> tail z = last_of None xs"

lemma bchain_append: "bchain m b (us @ vs) \<longleftrightarrow> bchain m b us \<and> bchain m (last_of b us) vs"
  by (induction us arbitrary: b) (auto simp: last_of_def)

lemma bchain_cong:
  assumes "bchain m b xs" "\<And>x n. x \<in> set xs \<Longrightarrow> m x = Some n \<Longrightarrow> \<exists>n'. m' x = Some n' \<and> backward n' = backward n"
  shows "bchain m' b xs"
  using assms
proof (induction xs arbitrary: b)
  case (Cons x xs)
  then obtain n where "m x = Some n" "backward n = b" "bchain m (Some x) xs"
    by auto
  moreover have "bchain m' (Some x) xs"
    using Cons.IH [OF calculation(3)] Cons.prems(2) by simp
  ultimately show ?case
    using Cons.prems(2) [of x n] by auto
qed simp

definition header_ok :: "('s, 'o) zskiplist \<Rightarrow> nat list \<Rightarrow> bool" where
  "header_ok z xs \<longleftrightarrow>
     (\<exists>n. mem z (header z) = Some n \<and> obj n = None \<and> room n = ZSKIPLIST_MAXLEVEL) \<and>
     (\<forall>i<levels z. level_of z (header z) i = Some (link_at (ht z) i xs)) \<and>
     (\<forall>i<ZSKIPLIST_MAXLEVEL. levels z \<le> i \<longrightarrow> (\<exists>l. level_of z (header z) i = Some l \<and> forward l = None))"

definition levels_ok :: "('s, 'o) zskiplist \<Rightarrow> nat list \<Rightarrow> bool" where
  "levels_ok z xs \<longleftrightarrow> 1 \<le> levels z \<and> levels z \<le> ZSKIPLIST_MAXLEVEL \<and>
     (1 < levels z \<longrightarrow> (\<exists>x\<in>set xs. ht z x = levels z))"

definition zsl_inv :: "('o \<Rightarrow> 'o \<Rightarrow> int) \<Rightarrow> ('s :: linorder, 'o) zskiplist \<Rightarrow> nat list \<Rightarrow> bool" where
  "zsl_inv cmp z xs \<longleftrightarrow> header z \<notin> set xs \<and> distinct xs \<and> dom (mem z) = insert (header z) (set xs) \<and>
     header_ok z xs \<and> (\<forall>x\<in>set xs. node_ok z x) \<and> linked z (ht z) xs \<and> backs_ok z xs \<and> levels_ok z xs \<and>
     len z = word_of_nat (length xs) \<and> sorted_wrt (elem_less cmp) (map (elem z) xs)"

text \<open>The objects' comparison is an order, and their equality goes with it.\<close>

definition objects_ok :: "('o \<Rightarrow> 'o \<Rightarrow> int) \<Rightarrow> ('o \<Rightarrow> 'o \<Rightarrow> bool) \<Rightarrow> bool" where
  "objects_ok cmp eq \<longleftrightarrow> (\<forall>a b. eq a b \<longleftrightarrow> cmp a b = 0) \<and> (\<forall>a b. cmp a b < 0 \<longleftrightarrow> 0 < cmp b a) \<and>
     (\<forall>a b c. cmp a b < 0 \<longrightarrow> cmp b c < 0 \<longrightarrow> cmp a c < 0) \<and>
     (\<forall>a b c. cmp a b = 0 \<longrightarrow> cmp b c < 0 \<longrightarrow> cmp a c < 0) \<and>
     (\<forall>a b c. cmp a b < 0 \<longrightarrow> cmp b c = 0 \<longrightarrow> cmp a c < 0)"

lemma elem_less_trans:
  assumes "objects_ok cmp eq" "elem_less cmp a b" "elem_less cmp b c"
  shows "elem_less cmp a c"
proof -
  have "cmp (snd a) (snd c) < 0" if "cmp (snd a) (snd b) < 0" "cmp (snd b) (snd c) < 0"
    using assms(1) that unfolding objects_ok_def by blast
  then show ?thesis
    using assms(2,3) less_trans [of "fst a" "fst b" "fst c"] unfolding elem_less_def by auto
qed

lemma zsl_inv_node:
  assumes "zsl_inv cmp z xs" "x \<in> set xs"
  obtains n ob where "mem z x = Some n" "obj n = Some ob" "elem z x = (score n, ob)" "1 \<le> room n"
    "room n \<le> levels z" "ht z x = room n"
  using assms unfolding zsl_inv_def node_ok_def by (auto simp: elem_def ht_def)

lemma entry_less_elem:
  "mem z x = Some n \<Longrightarrow> obj n = Some ob \<Longrightarrow> entry_less cmp sc ob' n = Some (elem_less cmp (elem z x) (sc, ob'))"
  by (auto simp: entry_less_def elem_less_def elem_def)

text \<open>Where the searches for an entry stop: the part of the list before the entry.\<close>

definition before :: "('o \<Rightarrow> 'o \<Rightarrow> int) \<Rightarrow> ('s :: linorder, 'o) zskiplist \<Rightarrow> 's \<times> 'o \<Rightarrow> nat list \<Rightarrow> nat list" where
  "before cmp z e xs = takeWhile (\<lambda>x. elem_less cmp (elem z x) e) xs"

definition after :: "('o \<Rightarrow> 'o \<Rightarrow> int) \<Rightarrow> ('s :: linorder, 'o) zskiplist \<Rightarrow> 's \<times> 'o \<Rightarrow> nat list \<Rightarrow> nat list" where
  "after cmp z e xs = dropWhile (\<lambda>x. elem_less cmp (elem z x) e) xs"

lemma before_after [simp]: "before cmp z e xs @ after cmp z e xs = xs"
  by (simp add: before_def after_def)

lemma before_less: "x \<in> set (before cmp z e xs) \<Longrightarrow> elem_less cmp (elem z x) e"
  by (auto simp: before_def dest: set_takeWhileD)

lemma after_not_less:
  assumes "objects_ok cmp eq" "sorted_wrt (elem_less cmp) (map (elem z) xs)" "x \<in> set (after cmp z e xs)"
  shows "\<not> elem_less cmp (elem z x) e"
  using assms(2,3)
proof (induction xs)
  case (Cons y ys)
  show ?case
  proof (cases "elem_less cmp (elem z y) e")
    case True
    then show ?thesis
      using Cons by (auto simp: after_def)
  next
    case False
    then have "x = y \<or> x \<in> set ys"
      using Cons.prems(2) by (simp add: after_def)
    then show ?thesis
    proof
      assume "x \<in> set ys"
      then have "elem_less cmp (elem z y) (elem z x)"
        using Cons.prems(1) by simp
      then show ?thesis
        using False elem_less_trans [OF assms(1)] by blast
    qed (use False in simp)
  qed
qed (simp add: after_def)

lemma goes_before:
  assumes "objects_ok cmp eq" "zsl_inv cmp z xs"
  shows "goes z (\<lambda>n r. entry_less cmp sc ob n) r (before cmp z (sc, ob) xs) (after cmp z (sc, ob) xs)"
proof -
  let ?us = "before cmp z (sc, ob) xs" and ?vs = "after cmp z (sc, ob) xs"
  have in_xs: "x \<in> set xs" if "x \<in> set ?us \<or> x \<in> set ?vs" for x
    using that before_after [of cmp z "(sc, ob)" xs] by (metis UnI1 UnI2 set_append)
  have less: "\<exists>n. mem z x = Some n \<and> entry_less cmp sc ob n = Some (elem_less cmp (elem z x) (sc, ob))" if "x \<in> set xs" for x
    using zsl_inv_node [OF assms(2) that] entry_less_elem by metis
  have sorted: "sorted_wrt (elem_less cmp) (map (elem z) xs)"
    using assms(2) by (simp add: zsl_inv_def)
  have "\<exists>n. mem z y = Some n \<and> entry_less cmp sc ob n = Some True" if "?us = a @ y # b" for a y b
  proof -
    have "y \<in> set ?us"
      using that by simp
    then show ?thesis
      using less [of y] in_xs before_less [of y cmp z "(sc, ob)" xs] by metis
  qed
  moreover have "\<exists>n. mem z y = Some n \<and> entry_less cmp sc ob n = Some False" if "?vs = a @ y # b" for a y b
  proof -
    have "y \<in> set ?vs"
      using that by simp
    then show ?thesis
      using less [of y] in_xs after_not_less [OF assms(1) sorted, of y "(sc, ob)"] by metis
  qed
  ultimately show ?thesis
    unfolding goes_def by blast
qed

text \<open>What the search hands on: on every level the last node before the entry and its position.\<close>

lemma search_spec:
  assumes "objects_ok cmp eq" "zsl_inv cmp z xs"
  shows "search_down z (\<lambda>n (r :: u32). entry_less cmp sc ob n) (levels z) (header z) 0 =
    Some (map (\<lambda>j. (upd (header z) (ht z) j (before cmp z (sc, ob) xs),
      word_of_nat (pos (ht z) j (before cmp z (sc, ob) xs)))) [0..<levels z])"
proof -
  let ?us = "before cmp z (sc, ob) xs" and ?vs = "after cmp z (sc, ob) xs"
  have "search_down z (\<lambda>n (r :: u32). entry_less cmp sc ob n) (levels z) (header z) 0 =
    Some (map (\<lambda>j. (upd (header z) (ht z) j ?us, 0 + word_of_nat (pos (ht z) j ?us))) [0..<levels z])"
    by (rule search_down_spec [where vs = ?vs])
      (use assms goes_before [OF assms] in \<open>simp_all add: zsl_inv_def header_ok_def\<close>)
  then show ?thesis
    by simp
qed

end
