(* ===== verification/Skip_Ops.thy ===== *)
theory Skip_Ops
  imports Skip_Inv
begin

text \<open>
  What insertion and deletion do to the links, and that they preserve the invariant. The loops over
  the levels write disjoint array elements, so each has its effect stated level by level.
\<close>

section \<open>Writing levels\<close>

text \<open>All of the list but its links.\<close>

definition bare :: "('s, 'o) zskiplist \<Rightarrow> ('s, 'o) zskiplist" where
  "bare z = z\<lparr>mem := (\<lambda>p. map_option (\<lambda>n. n\<lparr>level := (\<lambda>i. \<lparr>forward = None, zspan = 0\<rparr>)\<rparr>) (mem z p))\<rparr>"

lemma bare_fields:
  assumes "bare z' = bare z"
  shows "header z' = header z" "tail z' = tail z" "len z' = len z" "levels z' = levels z"
proof -
  have "header (bare z') = header (bare z)" "tail (bare z') = tail (bare z)" "len (bare z') = len (bare z)"
    "levels (bare z') = levels (bare z)"
    using assms by simp_all
  then show "header z' = header z" "tail z' = tail z" "len z' = len z" "levels z' = levels z"
    by (simp_all add: bare_def)
qed

lemma bare_levels: "bare (z\<lparr>levels := l\<rparr>) = (bare z)\<lparr>levels := l\<rparr>"
  by (simp add: bare_def)

lemma bare_node:
  assumes "bare z' = bare z"
  shows "mem z p = None \<Longrightarrow> mem z' p = None"
    and "mem z p = Some n \<Longrightarrow> \<exists>n'. mem z' p = Some n' \<and> obj n' = obj n \<and> score n' = score n \<and>
      backward n' = backward n \<and> room n' = room n"
proof -
  have eq: "mem (bare z') p = mem (bare z) p"
    using assms by simp
  then show "mem z p = None \<Longrightarrow> mem z' p = None"
    by (simp add: bare_def)
  assume "mem z p = Some n"
  with eq obtain n' where n': "mem z' p = Some n'"
    "n'\<lparr>level := (\<lambda>i. \<lparr>forward = None, zspan = 0\<rparr>)\<rparr> = n\<lparr>level := (\<lambda>i. \<lparr>forward = None, zspan = 0\<rparr>)\<rparr>"
    by (auto simp: bare_def)
  have "obj n' = obj (n'\<lparr>level := (\<lambda>i. \<lparr>forward = None, zspan = 0\<rparr>)\<rparr>)" "score n' = score (n'\<lparr>level := (\<lambda>i. \<lparr>forward = None, zspan = 0\<rparr>)\<rparr>)"
    "backward n' = backward (n'\<lparr>level := (\<lambda>i. \<lparr>forward = None, zspan = 0\<rparr>)\<rparr>)" "room n' = room (n'\<lparr>level := (\<lambda>i. \<lparr>forward = None, zspan = 0\<rparr>)\<rparr>)"
    by simp_all
  then show "\<exists>n'. mem z' p = Some n' \<and> obj n' = obj n \<and> score n' = score n \<and> backward n' = backward n \<and> room n' = room n"
    using n' by (intro exI [of _ n']) simp
qed

lemma bare_same:
  assumes "bare z' = bare z"
  shows "ht z' = ht z" "elem z' x = elem z x \<or> mem z x = None" "node_ok z' x = node_ok z x" "dom (mem z') = dom (mem z)"
proof -
  have "ht z' p = ht z p" for p
    using bare_node [OF assms, of p] by (cases "mem z p") (auto simp: ht_def)
  then show "ht z' = ht z"
    by blast
  show "elem z' x = elem z x \<or> mem z x = None"
    using bare_node [OF assms, of x] by (cases "mem z x") (auto simp: elem_def)
  show "node_ok z' x = node_ok z x"
    using bare_node [OF assms, of x] bare_fields(4) [OF assms] by (cases "mem z x") (auto simp: node_ok_def)
  show "dom (mem z') = dom (mem z)"
    using bare_node [OF assms] by (force simp: dom_def)
qed

lemma level_of_ht: "(\<exists>l. level_of z x i = Some l) \<longleftrightarrow> i < ht z x"
  by (auto simp: level_of_def ht_def split: option.splits)

lemma set_level_spec:
  assumes "i < ht z x"
  shows "\<exists>z'. set_level x i l z = Some z' \<and> bare z' = bare z \<and>
    (\<forall>q j. level_of z' q j = (if q = x \<and> j = i then Some l else level_of z q j))"
proof -
  obtain n where n: "mem z x = Some n" "i < room n"
    using assms by (auto simp: ht_def split: option.splits)
  let ?z = "z\<lparr>mem := (mem z)(x \<mapsto> n\<lparr>level := (level n)(i := l)\<rparr>)\<rparr>"
  have "bare ?z = bare z"
    using n by (auto simp: bare_def fun_eq_iff)
  moreover have "set_level x i l z = Some ?z"
    using n by (simp add: set_level_def)
  moreover have "level_of ?z q j = (if q = x \<and> j = i then Some l else level_of z q j)" for q j
    using n by (auto simp: level_of_def)
  ultimately show ?thesis
    by blast
qed

definition in_range :: "nat \<Rightarrow> nat \<Rightarrow> nat \<Rightarrow> bool" where
  "in_range i k j \<longleftrightarrow> i \<le> j \<and> j < i + k"

lemma in_range_0 [simp]: "\<not> in_range i 0 j"
  by (simp add: in_range_def)

lemma in_range_Suc: "in_range i (Suc k) j \<longleftrightarrow> j = i \<or> in_range (Suc i) k j"
  by (auto simp: in_range_def)

lemma upt_range: "[i..<i + Suc k] = i # [Suc i..<Suc i + k]"
  by (simp add: upt_rec)

lemma not_in_range [simp]: "\<not> in_range (Suc i) k i"
  by (simp add: in_range_def)

lemma raise_levels_spec:
  "i + k \<le> ht z (header z) \<Longrightarrow> \<exists>z'. raise_levels i k z = Some z' \<and> bare z' = bare z \<and>
     (\<forall>q j. level_of z' q j = (if in_range i k j \<and> q = header z
        then map_option (\<lambda>l. l\<lparr>zspan := ucast (len z)\<rparr>) (level_of z q j) else level_of z q j))"
proof (induction k arbitrary: i z)
  case (Suc k)
  obtain l where l: "level_of z (header z) i = Some l"
    using Suc.prems level_of_ht [of z "header z" i] by auto
  obtain z1 where z1: "set_level (header z) i (l\<lparr>zspan := ucast (len z)\<rparr>) z = Some z1" "bare z1 = bare z"
    "\<And>q j. level_of z1 q j = (if q = header z \<and> j = i then Some (l\<lparr>zspan := ucast (len z)\<rparr>) else level_of z q j)"
    using set_level_spec [of i z "header z" "l\<lparr>zspan := ucast (len z)\<rparr>"] Suc.prems by auto
  note same = bare_fields [OF z1(2)] bare_same(1) [OF z1(2)]
  obtain z2 where z2: "raise_levels (Suc i) k z1 = Some z2" "bare z2 = bare z1"
    "\<And>q j. level_of z2 q j = (if in_range (Suc i) k j \<and> q = header z
        then map_option (\<lambda>l. l\<lparr>zspan := ucast (len z)\<rparr>) (level_of z1 q j) else level_of z1 q j)"
    using Suc.IH [of "Suc i" z1] Suc.prems same by auto
  have "raise_levels i (Suc k) z = Some z2"
    using l z1(1) z2(1) by simp
  moreover have "level_of z2 q j = (if in_range i (Suc k) j \<and> q = header z
        then map_option (\<lambda>l. l\<lparr>zspan := ucast (len z)\<rparr>) (level_of z q j) else level_of z q j)" for q j
    using l by (auto simp: z2(3) z1(3) in_range_Suc)
  ultimately show ?case
    using z1(2) z2(2) by (intro exI [of _ z2]) simp
qed simp

lemma link_levels_spec:
  assumes "\<And>j. in_range i k j \<Longrightarrow> j < ht z (U j) \<and> U j \<noteq> x \<and> j < ht z x"
  shows "\<exists>z'. link_levels x r0 i (map (\<lambda>j. (U j, R j)) [i..<i + k]) z = Some z' \<and> bare z' = bare z \<and>
    (\<forall>q j. level_of z' q j =
       (if in_range i k j \<and> q = U j then Some \<lparr>forward = Some x, zspan = r0 - R j + 1\<rparr>
        else if in_range i k j \<and> q = x then
          map_option (\<lambda>l. \<lparr>forward = forward l, zspan = zspan l - (r0 - R j)\<rparr>) (level_of z (U j) j)
        else level_of z q j))"
  using assms
proof (induction k arbitrary: i z)
  case (Suc k)
  have i: "i < ht z (U i)" "U i \<noteq> x" "i < ht z x"
    using Suc.prems [of i] by (simp_all add: in_range_Suc)
  obtain l where l: "level_of z (U i) i = Some l"
    using i(1) level_of_ht [of z "U i" i] by auto
  let ?lx = "\<lparr>forward = forward l, zspan = zspan l - (r0 - R i)\<rparr>" and ?lu = "\<lparr>forward = Some x, zspan = r0 - R i + 1\<rparr>"
  obtain z1 where z1: "set_level x i ?lx z = Some z1" "bare z1 = bare z"
    "\<And>q j. level_of z1 q j = (if q = x \<and> j = i then Some ?lx else level_of z q j)"
    using set_level_spec [OF i(3)] by blast
  have "i < ht z1 (U i)"
    using i(1) bare_same(1) [OF z1(2)] by simp
  then obtain z2 where z2: "set_level (U i) i ?lu z1 = Some z2" "bare z2 = bare z1"
    "\<And>q j. level_of z2 q j = (if q = U i \<and> j = i then Some ?lu else level_of z1 q j)"
    using set_level_spec by blast
  have same: "ht z2 = ht z"
    using bare_same(1) [OF z1(2)] bare_same(1) [OF z2(2)] by simp
  obtain z3 where z3: "link_levels x r0 (Suc i) (map (\<lambda>j. (U j, R j)) [Suc i..<Suc i + k]) z2 = Some z3" "bare z3 = bare z2"
    "\<And>q j. level_of z3 q j =
       (if in_range (Suc i) k j \<and> q = U j then Some \<lparr>forward = Some x, zspan = r0 - R j + 1\<rparr>
        else if in_range (Suc i) k j \<and> q = x then
          map_option (\<lambda>l. \<lparr>forward = forward l, zspan = zspan l - (r0 - R j)\<rparr>) (level_of z2 (U j) j)
        else level_of z2 q j)"
    using Suc.IH [of "Suc i" z2] Suc.prems same by (auto simp: in_range_Suc)
  have "link_levels x r0 i (map (\<lambda>j. (U j, R j)) [i..<i + Suc k]) z = Some z3"
    using l z1(1) z2(1) z3(1) unfolding upt_range by simp
  moreover have "level_of z3 q j =
       (if in_range i (Suc k) j \<and> q = U j then Some \<lparr>forward = Some x, zspan = r0 - R j + 1\<rparr>
        else if in_range i (Suc k) j \<and> q = x then
          map_option (\<lambda>l. \<lparr>forward = forward l, zspan = zspan l - (r0 - R j)\<rparr>) (level_of z (U j) j)
        else level_of z q j)" for q j
    using l i(2) by (cases "j = i") (auto simp: z3(3) z2(3) z1(3) in_range_Suc)
  ultimately show ?case
    using z1(2) z2(2) z3(2) by (intro exI [of _ z3]) simp
qed simp

lemma stretch_levels_spec:
  assumes "\<And>j. in_range i k j \<Longrightarrow> j < ht z (U j)"
  shows "\<exists>z'. stretch_levels i (map (\<lambda>j. (U j, R j)) [i..<i + k]) z = Some z' \<and> bare z' = bare z \<and>
    (\<forall>q j. level_of z' q j =
       (if in_range i k j \<and> q = U j then map_option (\<lambda>l. l\<lparr>zspan := zspan l + 1\<rparr>) (level_of z q j)
        else level_of z q j))"
  using assms
proof (induction k arbitrary: i z)
  case (Suc k)
  have i: "i < ht z (U i)"
    using Suc.prems [of i] by (simp add: in_range_Suc)
  obtain l where l: "level_of z (U i) i = Some l"
    using i level_of_ht [of z "U i" i] by auto
  obtain z1 where z1: "set_level (U i) i (l\<lparr>zspan := zspan l + 1\<rparr>) z = Some z1" "bare z1 = bare z"
    "\<And>q j. level_of z1 q j = (if q = U i \<and> j = i then Some (l\<lparr>zspan := zspan l + 1\<rparr>) else level_of z q j)"
    using set_level_spec [OF i] by blast
  obtain z2 where z2: "stretch_levels (Suc i) (map (\<lambda>j. (U j, R j)) [Suc i..<Suc i + k]) z1 = Some z2" "bare z2 = bare z1"
    "\<And>q j. level_of z2 q j =
       (if in_range (Suc i) k j \<and> q = U j then map_option (\<lambda>l. l\<lparr>zspan := zspan l + 1\<rparr>) (level_of z1 q j)
        else level_of z1 q j)"
    using Suc.IH [of "Suc i" z1] Suc.prems bare_same(1) [OF z1(2)] by (auto simp: in_range_Suc)
  have "stretch_levels i (map (\<lambda>j. (U j, R j)) [i..<i + Suc k]) z = Some z2"
    using l z1(1) z2(1) unfolding upt_range by simp
  moreover have "level_of z2 q j =
       (if in_range i (Suc k) j \<and> q = U j then map_option (\<lambda>l. l\<lparr>zspan := zspan l + 1\<rparr>) (level_of z q j)
        else level_of z q j)" for q j
    using l by (cases "j = i") (auto simp: z2(3) z1(3) in_range_Suc)
  ultimately show ?case
    using z1(2) z2(2) by (intro exI [of _ z2]) simp
qed simp

section \<open>Insertion\<close>

lemma upd_pos_low:
  assumes "us = d @ us'" "low h j us'" "d = [] \<or> j < h (last d)"
  shows "upd hdr h j us = last (hdr # d)" "pos h j us = length d"
proof -
  have "upd hdr h j us = last (hdr # d) \<and> pos h j us = length d"
  proof (cases d rule: rev_cases)
    case Nil
    then show ?thesis
      using assms by simp
  next
    case (snoc c y)
    then show ?thesis
      using assms upd_reach [of j h y hdr c us'] pos_reach [of j h y c us'] by simp
  qed
  then show "upd hdr h j us = last (hdr # d)" "pos h j us = length d"
    by simp_all
qed

text \<open>The links after the new node \<open>x\<close> of height \<open>lvl\<close> was put behind \<open>us\<close>; \<open>m\<close> levels are in use.\<close>

definition inserted ::
  "nat \<Rightarrow> (nat \<Rightarrow> nat) \<Rightarrow> nat list \<Rightarrow> nat \<Rightarrow> nat \<Rightarrow> nat \<Rightarrow> ('s, 'o) zskiplist \<Rightarrow> ('s, 'o) zskiplist \<Rightarrow> bool" where
  "inserted hdr h us x lvl m z z' \<longleftrightarrow> (\<forall>q j. level_of z' q j =
     (if j < lvl \<and> q = upd hdr h j us then
        Some \<lparr>forward = Some x, zspan = word_of_nat (length us) - word_of_nat (pos h j us) + 1\<rparr>
      else if j < lvl \<and> q = x then
        map_option (\<lambda>l. \<lparr>forward = forward l,
            zspan = zspan l - (word_of_nat (length us) - word_of_nat (pos h j us))\<rparr>) (level_of z (upd hdr h j us) j)
      else if lvl \<le> j \<and> j < m \<and> q = upd hdr h j us then
        map_option (\<lambda>l. l\<lparr>zspan := zspan l + 1\<rparr>) (level_of z q j)
      else level_of z q j))"

lemma word_of_nat_left: "a \<le> b \<Longrightarrow> word_of_nat b - word_of_nat a = (word_of_nat (b - a) :: 'w :: len word)"
  by (simp add: of_nat_diff)

lemma inserted_before:
  assumes ins: "inserted hdr h us x lvl m z z'" and new: "x \<notin> set (us @ vs)" "x \<noteq> hdr" "distinct (hdr # us)"
    and split: "us = d @ us'" "d = [] \<or> j < h (last d)" "j < m"
    and old: "level_of z (last (hdr # d)) j = Some (link_at h j (us' @ vs))"
  shows "level_of z' (last (hdr # d)) j = Some (link_at (h(x := lvl)) j (us' @ x # vs))"
proof -
  let ?q = "last (hdr # d)" and ?h = "h(x := lvl)"
  have q: "?q \<noteq> x"
    using new split(1) by (cases d rule: rev_cases) auto
  have vs: "link_at ?h j vs = link_at h j vs"
    using new(1) by (intro link_at_cong) auto
  show ?thesis
  proof (cases h j us' rule: low_cases)
    case 1
    note up = upd_pos_low [OF split(1) 1 split(2)]
    have low': "low ?h j us'"
      using 1 new(1) split(1) by (auto simp: low_def)
    show ?thesis
    proof (cases "j < lvl")
      case True
      have "level_of z' ?q j = Some \<lparr>forward = Some x, zspan = word_of_nat (length us) - word_of_nat (length d) + 1\<rparr>"
        using ins True up unfolding inserted_def by simp
      moreover have "link_at ?h j (us' @ x # vs) = \<lparr>forward = Some x, zspan = word_of_nat (length us' + 1)\<rparr>"
        using fwd_reach [OF low', of x vs] gap_reach [OF low', of x vs] True by (simp add: link_at_def)
      ultimately show ?thesis
        using split(1) by simp
    next
      case False
      have "level_of z' ?q j = Some ((link_at h j (us' @ vs))\<lparr>zspan := zspan (link_at h j (us' @ vs)) + 1\<rparr>)"
        using ins False up(1) split(3) old q unfolding inserted_def by simp
      moreover have "low ?h j (us' @ [x])"
        using low' False by simp
      ultimately show ?thesis
        using fwd_low [of ?h j "us' @ [x]" vs] gap_low [of ?h j "us' @ [x]" vs] fwd_low [OF 1, of vs] gap_low [OF 1, of vs] vs
        by (simp add: link_at_def)
    qed
  next
    case (2 a y b)
    have "upd hdr h j us \<in> set us'"
      using upd_append [of hdr h j d us'] upd_reach [where h = h and y = y and i = j and hdr = "upd hdr h j d" and a = a and b = b] 2(3) upd_in [of y h j b] 2(1) split(1) by auto
    moreover have "?q \<notin> set us'"
      using new(3) split(1) by (cases d rule: rev_cases) auto
    ultimately have "level_of z' ?q j = level_of z ?q j"
      using ins q unfolding inserted_def by metis
    moreover have "link_at ?h j (us' @ x # vs) = link_at h j (us' @ vs)"
    proof -
      have y: "j < ?h y" "low ?h j a"
        using 2 new(1) split(1) by (auto simp: low_def)
      show ?thesis
        using fwd_reach [of ?h j a y "b @ x # vs"] gap_reach [of ?h j a y "b @ x # vs"] fwd_reach [of h j a y "b @ vs"]
          gap_reach [of h j a y "b @ vs"] 2 y by (simp add: link_at_def)
    qed
    ultimately show ?thesis
      using old by simp
  qed
qed

lemma inserted_at:
  assumes ins: "inserted hdr h us x lvl m z z'" and new: "x \<notin> set (us @ vs)" "x \<noteq> hdr" "distinct (hdr # us)"
    and hdr: "level_of z hdr j = Some (link_at h j (us @ vs))" and linked: "linked z h (us @ vs)" and j: "j < lvl"
  shows "level_of z' x j = Some (link_at (h(x := lvl)) j vs)"
proof -
  have vs: "link_at (h(x := lvl)) j vs = link_at h j vs"
    using new(1) by (intro link_at_cong) auto
  obtain c b where "us = c @ b" "low h j b" "level_of z (upd hdr h j us) j = Some (link_at h j (b @ vs))" "pos h j us = length c"
  proof (cases rule: high_cases [where h = h and i = j and us = us and hdr = hdr])
    case 1
    then show thesis
      using that [of "[]" us] hdr by simp
  next
    case (2 c b)
    have "us @ vs = c @ upd hdr h j us # (b @ vs)"
      using 2(1) by (metis append.assoc append_Cons)
    with linked have "linked z h (c @ upd hdr h j us # (b @ vs))"
      by metis
    from linkedD [OF this 2(3)] have "level_of z (upd hdr h j us) j = Some (link_at h j (b @ vs))" .
    then show thesis
      using that [of "c @ [upd hdr h j us]" b] 2 by simp
  qed
  moreover have "x \<noteq> upd hdr h j us"
    using upd_in [of hdr h j us] new by auto
  ultimately show ?thesis
    using ins j fwd_low [of h j b vs] gap_low [of h j b vs] vs unfolding inserted_def
    by (simp add: link_at_def)
qed

lemma linked_after:
  assumes "linked z h vs" "\<And>q j. q \<in> set vs \<Longrightarrow> level_of z' q j = level_of z q j" "\<And>q. q \<in> set vs \<Longrightarrow> h' q = h q"
  shows "linked z' h' vs"
  using assms
proof (induction vs)
  case (Cons v vs)
  have "link_at h' i vs = link_at h i vs" for i
    using Cons.prems(3) by (intro link_at_cong) simp
  then show ?case
    using Cons by simp
qed simp

lemma inserted_linked:
  assumes ins: "inserted hdr h us x lvl m z z'" and new: "x \<notin> set (us @ vs)" "x \<noteq> hdr" "distinct (hdr # us @ vs)"
    and hdr: "\<And>j. j < m \<Longrightarrow> level_of z hdr j = Some (link_at h j (us @ vs))" and linked: "linked z h (us @ vs)"
    and high: "\<And>y. y \<in> set us \<Longrightarrow> h y \<le> m" and lvl: "lvl \<le> m"
  shows "linked z' (h(x := lvl)) (us @ x # vs)"
proof -
  let ?h = "h(x := lvl)"
  have dist: "distinct (hdr # us)"
    using new(3) by simp
  have "linked z' ?h (us' @ x # vs)" if "us = d @ us'" "linked z h (us' @ vs)" for d us'
    using that
  proof (induction us' arbitrary: d)
    case Nil
    have "linked z' ?h vs"
    proof (rule linked_after)
      show "linked z h vs"
        using Nil.prems(2) by simp
      show "level_of z' q j = level_of z q j" if "q \<in> set vs" for q j
      proof -
        have "q \<noteq> x" "q \<noteq> upd hdr h j us"
          using that new upd_in [of hdr h j us] by auto
        then show ?thesis
          using ins unfolding inserted_def by simp
      qed
      show "?h q = h q" if "q \<in> set vs" for q
        using that new(1) by auto
    qed
    moreover have "level_of z' x j = Some (link_at ?h j vs)" if "j < lvl" for j
      using inserted_at [OF ins new(1,2) dist hdr linked that] that lvl by simp
    ultimately show ?case
      by (simp del: fun_upd_apply add: fun_upd_same)
  next
    case (Cons y us')
    have "level_of z' y j = Some (link_at ?h j (us' @ x # vs))" if "j < ?h y" for j
    proof -
      have y: "y \<noteq> x" "j < h y"
        using that new(1) Cons.prems(1) by auto
      then have "j < m"
        using high [of y] Cons.prems(1) by simp
      then show ?thesis
        using inserted_before [OF ins new(1,2) dist, of "d @ [y]" us' j] y Cons.prems by simp
    qed
    moreover have "linked z' ?h (us' @ x # vs)"
      by (rule Cons.IH [of "d @ [y]"]) (use Cons.prems in simp_all)
    ultimately show ?case
      by (simp del: fun_upd_apply)
  qed
  from this [of "[]" us] show ?thesis
    using linked by simp
qed

lemma zslRandomLevel_range:
  "zslRandomLevel l rnd = Some lvl \<Longrightarrow> 1 \<le> l \<Longrightarrow> 1 \<le> lvl \<and> lvl \<le> ZSKIPLIST_MAXLEVEL"
  by (induction l rnd rule: zslRandomLevel.induct) (auto simp: ZSKIPLIST_MAXLEVEL_def split: if_splits)

lemma heights:
  assumes "zsl_inv cmp z xs" "levels z \<le> j"
  shows "low (ht z) j xs"
  unfolding low_def
proof
  fix y
  assume "y \<in> set xs"
  with assms(1) show "ht z y \<le> j"
    by (rule zsl_inv_node) (use assms(2) in simp)
qed

lemma ucast_len: "ucast (word_of_nat n :: u64) = (word_of_nat n :: u32)"
proof -
  have "take_bit 32 (take_bit 64 n) = take_bit 32 n"
    by simp
  then show ?thesis
    by (simp add: unsigned_of_nat word_of_nat_eq_iff)
qed

lemma raised:
  assumes inv: "zsl_inv cmp z xs" and lvl: "lvl \<le> ZSKIPLIST_MAXLEVEL"
  obtains z1 where
    "(if levels z < lvl then
        do { z' \<leftarrow> raise_levels (levels z) (lvl - levels z) z; Some (z'\<lparr>levels := lvl\<rparr>) }
      else Some z) = Some z1"
    "bare z1 = bare (z\<lparr>levels := max (levels z) lvl\<rparr>)"
    "\<And>j. j < max (levels z) lvl \<Longrightarrow> level_of z1 (header z) j = Some (link_at (ht z) j xs)"
    "\<And>q j. q \<noteq> header z \<or> max (levels z) lvl \<le> j \<Longrightarrow> level_of z1 q j = level_of z q j"
proof -
  let ?hd = "header z"
  have hd: "ht z ?hd = ZSKIPLIST_MAXLEVEL" "header_ok z xs"
    and len: "len z = word_of_nat (length xs)"
    using inv by (auto simp: zsl_inv_def header_ok_def ht_def)
  show thesis
  proof (cases "levels z < lvl")
    case True
    obtain z' where z': "raise_levels (levels z) (lvl - levels z) z = Some z'" "bare z' = bare z"
      "\<And>q j. level_of z' q j = (if in_range (levels z) (lvl - levels z) j \<and> q = ?hd
        then map_option (\<lambda>l. l\<lparr>zspan := ucast (len z)\<rparr>) (level_of z q j) else level_of z q j)"
      using raise_levels_spec [of "levels z" "lvl - levels z" z] hd lvl True by auto
    show thesis
    proof (rule that [of "z'\<lparr>levels := lvl\<rparr>"])
      show "bare (z'\<lparr>levels := lvl\<rparr>) = bare (z\<lparr>levels := max (levels z) lvl\<rparr>)"
        using z'(2) True by (simp add: bare_levels)
      have lv: "level_of (z'\<lparr>levels := lvl\<rparr>) q j = level_of z' q j" for q j
        by (simp add: level_of_def)
      show "level_of (z'\<lparr>levels := lvl\<rparr>) ?hd j = Some (link_at (ht z) j xs)" if j: "j < max (levels z) lvl" for j
      proof (cases "j < levels z")
        case True
        then show ?thesis
          using hd(2) by (simp add: lv z'(3) in_range_def header_ok_def)
      next
        case False
        then have low: "low (ht z) j xs"
          using heights [OF inv] by simp
        have "j < ZSKIPLIST_MAXLEVEL" "levels z \<le> j"
          using False j lvl by auto
        then obtain l where "level_of z ?hd j = Some l" "forward l = None"
          using hd(2) unfolding header_ok_def by blast
        then show ?thesis
          using False j low fwd_None_iff [of "ht z" j xs] len
          by (auto simp: lv z'(3) in_range_def link_at_def gap_def ucast_len)
      qed
      show "level_of (z'\<lparr>levels := lvl\<rparr>) q j = level_of z q j" if "q \<noteq> ?hd \<or> max (levels z) lvl \<le> j" for q j
        using that True by (auto simp: lv z'(3) in_range_def)
    qed (use True z'(1) in simp)
  next
    case False
    then show thesis
      using hd(2) by (intro that [of z]) (simp_all add: header_ok_def max_def)
  qed
qed

text \<open>The two loops over the levels together.\<close>

lemma links_inserted:
  assumes "lvl \<le> m" "x \<noteq> hdr" "x \<notin> set us" "ht z hdr = ZSKIPLIST_MAXLEVEL" "m \<le> ZSKIPLIST_MAXLEVEL" "ht z x = lvl"
    and h: "\<And>y. y \<in> set us \<Longrightarrow> ht z y = h y"
  obtains z3 z4 where
    "link_levels x (word_of_nat (length us)) 0
       (map (\<lambda>j. (upd hdr h j us, word_of_nat (pos h j us))) [0..<lvl]) z = Some z3"
    "stretch_levels lvl (map (\<lambda>j. (upd hdr h j us, word_of_nat (pos h j us))) [lvl..<m]) z3 = Some z4"
    "bare z4 = bare z" "inserted hdr h us x lvl m z z4"
proof -
  let ?U = "\<lambda>j. upd hdr h j us" and ?R = "\<lambda>j. word_of_nat (pos h j us) :: u32"
  have U: "j < ht z (?U j)" "?U j \<noteq> x" if "j < m" for j
  proof -
    have "?U j = hdr \<or> ?U j \<in> set us \<and> j < h (?U j)"
      by (rule upd_in)
    then show "j < ht z (?U j)" "?U j \<noteq> x"
      using assms that by auto
  qed
  obtain z3 where z3: "link_levels x (word_of_nat (length us)) 0 (map (\<lambda>j. (?U j, ?R j)) [0..<0 + lvl]) z = Some z3" "bare z3 = bare z"
    "\<And>q j. level_of z3 q j =
       (if in_range 0 lvl j \<and> q = ?U j then Some \<lparr>forward = Some x, zspan = word_of_nat (length us) - ?R j + 1\<rparr>
        else if in_range 0 lvl j \<and> q = x then
          map_option (\<lambda>l. \<lparr>forward = forward l, zspan = zspan l - (word_of_nat (length us) - ?R j)\<rparr>) (level_of z (?U j) j)
        else level_of z q j)"
    using link_levels_spec [of 0 lvl z ?U x "word_of_nat (length us)" ?R] U assms(1,6) by (auto simp: in_range_def)
  have "j < ht z3 (?U j)" if "in_range lvl (m - lvl) j" for j
    using U(1) bare_same(1) [OF z3(2)] that assms(1) by (simp add: in_range_def)
  then obtain z4 where z4: "stretch_levels lvl (map (\<lambda>j. (?U j, ?R j)) [lvl..<lvl + (m - lvl)]) z3 = Some z4" "bare z4 = bare z3"
    "\<And>q j. level_of z4 q j =
       (if in_range lvl (m - lvl) j \<and> q = ?U j then map_option (\<lambda>l. l\<lparr>zspan := zspan l + 1\<rparr>) (level_of z3 q j)
        else level_of z3 q j)"
    using stretch_levels_spec [of lvl "m - lvl" z3 ?U ?R] by blast
  have "inserted hdr h us x lvl m z z4"
    using assms(1) by (simp add: inserted_def z4(3) z3(3) in_range_def)
  then show thesis
    using that [of z3 z4] z3(1,2) z4(1,2) assms(1) by simp
qed

lemma set_backward_spec:
  assumes "mem z x = Some n"
  obtains z' where "set_backward x b z = Some z'" "z' = z\<lparr>mem := (mem z)(x \<mapsto> n\<lparr>backward := b\<rparr>)\<rparr>"
    "level_of z' = level_of z" "ht z' = ht z"
proof -
  let ?z = "z\<lparr>mem := (mem z)(x \<mapsto> n\<lparr>backward := b\<rparr>)\<rparr>"
  have "level_of ?z = level_of z" "ht ?z = ht z"
    using assms by (auto simp: level_of_def ht_def fun_eq_iff)
  then show thesis
    using that [of ?z] assms by (simp add: set_backward_def)
qed

text \<open>What is left of a list when its links are forgotten: nodes before and after an insertion.\<close>

definition nodes_inserted ::
  "nat list \<Rightarrow> nat list \<Rightarrow> nat \<Rightarrow> nat \<Rightarrow> 's \<Rightarrow> 'o \<Rightarrow> ('s, 'o) zskiplist \<Rightarrow> ('s, 'o) zskiplist \<Rightarrow> bool" where
  "nodes_inserted us vs x lvl sc ob z z' \<longleftrightarrow> header z' = header z \<and> levels z' = max (levels z) lvl \<and>
     len z' = len z + 1 \<and> tail z' = (if vs = [] then Some x else tail z) \<and>
     (\<exists>n. mem z' x = Some n \<and> obj n = Some ob \<and> score n = sc \<and> room n = lvl \<and> backward n = last_of None us) \<and>
     (\<forall>p. p \<noteq> x \<longrightarrow> (case mem z p of None \<Rightarrow> mem z' p = None
        | Some n \<Rightarrow> \<exists>n'. mem z' p = Some n' \<and> obj n' = obj n \<and> score n' = score n \<and> room n' = room n \<and>
            backward n' = (if vs \<noteq> [] \<and> p = hd vs then Some x else backward n)))"

lemma insert_levels:
  assumes ok: "objects_ok cmp eq" and inv: "zsl_inv cmp z xs"
    and lvl: "1 \<le> lvl" "lvl \<le> ZSKIPLIST_MAXLEVEL"
  shows "map (\<lambda>j. (upd (header z) (ht z) j (before cmp z e xs), word_of_nat (pos (ht z) j (before cmp z e xs)) :: u32)) [0..<levels z]
      @ replicate (lvl - levels z) (header z, 0) =
    map (\<lambda>j. (upd (header z) (ht z) j (before cmp z e xs), word_of_nat (pos (ht z) j (before cmp z e xs)))) [0..<max (levels z) lvl]"
proof -
  let ?f = "\<lambda>j. (upd (header z) (ht z) j (before cmp z e xs), word_of_nat (pos (ht z) j (before cmp z e xs)) :: u32)"
  have "?f j = (header z, 0)" if "levels z \<le> j" for j
  proof -
    have "set (before cmp z e xs) \<subseteq> set xs"
      by (auto simp: before_def dest: set_takeWhileD)
    then have "low (ht z) j (before cmp z e xs)"
      using heights [OF inv that] by (auto simp: low_def)
    then show ?thesis
      by simp
  qed
  then have "map ?f [levels z..<max (levels z) lvl] = replicate (lvl - levels z) (header z, 0)"
    by (intro nth_equalityI) (auto simp: max_def split: if_splits)
  moreover have "[0..<max (levels z) lvl] = [0..<levels z] @ [levels z..<max (levels z) lvl]"
    using upt_add_eq_append [of 0 "levels z" "lvl - levels z"] by (cases "levels z \<le> lvl") (simp_all add: max_def)
  ultimately show ?thesis
    by simp
qed

lemma zslInsert_run:
  assumes ok: "objects_ok cmp eq" and inv: "zsl_inv cmp z xs" and new: "mem z x = None"
    and rnd: "zslRandomLevel 1 rnd = Some lvl"
    and us: "us = before cmp z (sc, ob) xs" and vs: "vs = after cmp z (sc, ob) xs"
  obtains z' z2 where "zslInsert cmp (Some x) junk junk_back rnd z sc ob = Some (x, z')"
    "nodes_inserted us vs x lvl sc ob z z'"
    "inserted (header z) (ht z) us x lvl (max (levels z) lvl) z2 z'"
    "\<And>j. j < max (levels z) lvl \<Longrightarrow> level_of z2 (header z) j = Some (link_at (ht z) j xs)"
    "\<And>q j. q \<noteq> x \<Longrightarrow> q \<noteq> header z \<or> max (levels z) lvl \<le> j \<Longrightarrow> level_of z2 q j = level_of z q j"
proof -
  let ?hd = "header z" and ?h = "ht z" and ?m = "max (levels z) lvl"
  let ?f = "\<lambda>j. (upd ?hd ?h j us, word_of_nat (pos ?h j us) :: u32)"
  note inv' = inv [unfolded zsl_inv_def]
  have xs: "xs = us @ vs"
    by (simp add: us vs)
  have lvl: "1 \<le> lvl" "lvl \<le> ZSKIPLIST_MAXLEVEL"
    using zslRandomLevel_range [OF rnd] by simp_all
  have x: "x \<noteq> ?hd" "x \<notin> set xs"
    using inv' new by auto
  have m: "?m \<le> ZSKIPLIST_MAXLEVEL" "1 \<le> ?m" "lvl \<le> ?m"
    using inv' lvl by (auto simp: levels_ok_def)
  obtain z1 where z1: "(if levels z < lvl then
        do { z' \<leftarrow> raise_levels (levels z) (lvl - levels z) z; Some (z'\<lparr>levels := lvl\<rparr>) }
      else Some z) = Some z1"
    "bare z1 = bare (z\<lparr>levels := ?m\<rparr>)"
    "\<And>j. j < ?m \<Longrightarrow> level_of z1 ?hd j = Some (link_at ?h j xs)"
    "\<And>q j. q \<noteq> ?hd \<or> ?m \<le> j \<Longrightarrow> level_of z1 q j = level_of z q j"
    using raised [OF inv lvl(2)] by blast
  define n where "n = \<lparr>obj = Some ob, score = sc, backward = junk_back, room = lvl, level = junk\<rparr>"
  define z2 where "z2 = z1\<lparr>mem := (mem z1)(x \<mapsto> n)\<rparr>"
  have "ht z1 = ?h"
    using bare_same(1) [OF z1(2)] by (simp add: ht_def fun_eq_iff)
  then have ht2: "ht z2 = ?h(x := lvl)"
    by (auto simp: z2_def ht_def n_def fun_eq_iff)
  have lev2: "level_of z2 q j = level_of z1 q j" if "q \<noteq> x" for q j
    using that by (simp add: z2_def level_of_def)
  have hd_room: "?h ?hd = ZSKIPLIST_MAXLEVEL"
    using inv' by (auto simp: header_ok_def ht_def)
  have pre: "x \<notin> set us" "ht z2 ?hd = ZSKIPLIST_MAXLEVEL" "ht z2 x = lvl"
    using x xs hd_room by (simp_all add: ht2)
  have same: "ht z2 y = ?h y" if "y \<in> set us" for y
    using that x xs by (auto simp: ht2)
  obtain z3 z4 where z3: "link_levels x (word_of_nat (length us)) 0 (map ?f [0..<lvl]) z2 = Some z3"
    and z4: "stretch_levels lvl (map ?f [lvl..<?m]) z3 = Some z4" "bare z4 = bare z2" "inserted ?hd ?h us x lvl ?m z2 z4"
    by (rule links_inserted [OF m(3) x(1) pre(1,2) m(1) pre(3) same])
  have ge1: "0 < ?h y" if "y \<in> set us" for y
  proof -
    from that have "y \<in> set xs"
      by (simp add: xs)
    with inv show ?thesis
      by (rule zsl_inv_node) simp
  qed
  have r0: "pos ?h 0 us = length us" "upd ?hd ?h 0 us = last (?hd # us)"
    using ge1 by (simp_all add: pos_all upd_all)
  have hd_us: "last (?hd # us) = ?hd \<longleftrightarrow> us = []"
  proof (cases "us = []")
    case False
    then have "last us \<in> set xs"
      by (simp add: xs)
    then show ?thesis
      using inv' False by auto
  qed simp
  have us1: "map ?f [0..<levels z] @ replicate (lvl - levels z) (?hd, 0) = map ?f [0..<?m]"
    using insert_levels [OF ok inv lvl, of "(sc, ob)"] unfolding us .
  have m0: "[0..<?m] = 0 # [1..<?m]"
    using m(2) by (simp add: upt_conv_Cons)
  have bare4: "bare z4 = bare z2"
    by (rule z4)
  obtain n4 where n4: "mem z4 x = Some n4" "obj n4 = Some ob" "score n4 = sc" "room n4 = lvl"
    using bare_node(2) [OF bare4, of x n] by (auto simp: z2_def n_def)
  let ?b = "if last (?hd # us) = ?hd then None else Some (last (?hd # us))"
  have b: "?b = last_of None us"
    using hd_us by (auto simp: last_of_def)
  obtain z5 where z5: "set_backward x ?b z4 = Some z5" "z5 = z4\<lparr>mem := (mem z4)(x \<mapsto> n4\<lparr>backward := ?b\<rparr>)\<rparr>"
    "level_of z5 = level_of z4" "ht z5 = ht z4"
    using set_backward_spec [OF n4(1)] by blast
  have dist: "x \<notin> set (us @ vs)" "distinct (?hd # us)"
    using inv' xs x by auto
  have "linked z2 ?h (us @ vs)"
  proof (rule linked_after)
    show "linked z ?h (us @ vs)"
      using inv' by (simp add: xs)
    show "level_of z2 q j = level_of z q j" if "q \<in> set (us @ vs)" for q j
    proof -
      have "q \<noteq> x" "q \<noteq> ?hd"
        using that inv' xs x(2) by auto
      then show ?thesis
        using lev2 z1(4) by simp
    qed
  qed simp
  moreover have "level_of z2 ?hd j = Some (link_at ?h j (us @ vs))" if "j < ?m" for j
    using z1(3) [OF that] lev2 [of ?hd j] x(1) xs by simp
  ultimately have "level_of z4 x 0 = Some (link_at (?h(x := lvl)) 0 vs)"
    using inserted_at [OF z4(3) dist(1) x(1) dist(2), of 0] lvl(1) m(2) by simp
  then have lx: "level_of z5 x 0 = Some (link_at (?h(x := lvl)) 0 vs)"
    using z5(3) by simp
  have node5: "case mem z p of None \<Rightarrow> mem z5 p = None
      | Some n \<Rightarrow> \<exists>n'. mem z5 p = Some n' \<and> obj n' = obj n \<and> score n' = score n \<and> room n' = room n \<and> backward n' = backward n"
    if "p \<noteq> x" for p
  proof -
    have "mem z5 p = mem z4 p" "mem z2 p = mem z1 p"
      using that z5(2) by (simp_all add: z2_def)
    then show ?thesis
      using bare_node [OF z1(2), of p] bare_node [OF bare4, of p] by (cases "mem z p") fastforce+
  qed
  have fields5: "header z5 = ?hd" "levels z5 = ?m" "len z5 = len z" "tail z5 = tail z"
    using bare_fields [OF z1(2)] bare_fields [OF bare4] z5(2) by (simp_all add: z2_def)
  have x5: "\<exists>n. mem z5 x = Some n \<and> obj n = Some ob \<and> score n = sc \<and> room n = lvl \<and> backward n = last_of None us"
    using z5(2) n4 b by simp
  obtain z6 where z6: "(case forward (link_at (?h(x := lvl)) 0 vs) of
        Some y \<Rightarrow> set_backward y (Some x) z5 | None \<Rightarrow> Some (z5\<lparr>tail := Some x\<rparr>)) = Some z6"
    "level_of z6 = level_of z5" "nodes_inserted us vs x lvl sc ob z (z6\<lparr>len := len z6 + 1\<rparr>)"
  proof (cases vs)
    case Nil
    have "level_of (z5\<lparr>tail := Some x\<rparr>) = level_of z5"
      by (simp add: level_of_def fun_eq_iff)
    moreover have "nodes_inserted us vs x lvl sc ob z (z5\<lparr>tail := Some x, len := len z5 + 1\<rparr>)"
      unfolding nodes_inserted_def
    proof (intro conjI allI impI)
      fix p
      assume "p \<noteq> x"
      then show "case mem z p of None \<Rightarrow> mem (z5\<lparr>tail := Some x, len := len z5 + 1\<rparr>) p = None
        | Some n \<Rightarrow> \<exists>n'. mem (z5\<lparr>tail := Some x, len := len z5 + 1\<rparr>) p = Some n' \<and> obj n' = obj n \<and> score n' = score n \<and>
            room n' = room n \<and> backward n' = (if vs \<noteq> [] \<and> p = hd vs then Some x else backward n)"
        using node5 [of p] Nil by (auto split: option.splits)
    qed (use fields5 x5 Nil in simp_all)
    ultimately show thesis
      using Nil by (intro that [of "z5\<lparr>tail := Some x\<rparr>"]) (simp_all add: fwd_def)
  next
    case (Cons v vs')
    have v: "v \<in> set xs" "v \<noteq> x"
      using Cons xs x by auto
    from inv v(1) have hv: "0 < ?h v" "\<exists>n. mem z v = Some n"
      by (rule zsl_inv_node, simp)+
    obtain nv where nv: "mem z5 v = Some nv"
      using node5 [OF v(2)] hv(2) by auto
    obtain z6 where z6: "set_backward v (Some x) z5 = Some z6" "z6 = z5\<lparr>mem := (mem z5)(v \<mapsto> nv\<lparr>backward := Some x\<rparr>)\<rparr>"
      "level_of z6 = level_of z5"
      using set_backward_spec [OF nv] by blast
    have "nodes_inserted us vs x lvl sc ob z (z6\<lparr>len := len z6 + 1\<rparr>)"
      unfolding nodes_inserted_def
    proof (intro conjI allI impI)
      fix p
      assume "p \<noteq> x"
      then show "case mem z p of None \<Rightarrow> mem (z6\<lparr>len := len z6 + 1\<rparr>) p = None
        | Some n \<Rightarrow> \<exists>n'. mem (z6\<lparr>len := len z6 + 1\<rparr>) p = Some n' \<and> obj n' = obj n \<and> score n' = score n \<and> room n' = room n \<and>
            backward n' = (if vs \<noteq> [] \<and> p = hd vs then Some x else backward n)"
        using node5 [of p] nv Cons z6(2) by (auto split: option.splits)
    qed (use fields5 x5 z6(2) v Cons in simp_all)
    then show thesis
      using that [of z6] z6 Cons hv(1) v(2) by simp
  qed
  have run: "zslInsert cmp (Some x) junk junk_back rnd z sc ob = Some (x, z6\<lparr>len := len z6 + 1\<rparr>)"
  proof -
    have parts: "take lvl (map ?f [0..<?m]) = map ?f [0..<lvl]" "drop lvl (map ?f [0..<?m]) = map ?f [lvl..<?m]"
      "map ?f [0..<?m] ! 0 = (last (?hd # us), word_of_nat (length us))"
      using m r0 by (simp_all add: take_map drop_map)
    have search: "search_down z (\<lambda>n (r :: u32). entry_less cmp sc ob n) (levels z) ?hd 0 = Some (map ?f [0..<levels z])"
      using search_spec [OF ok inv, of sc ob] unfolding us .
    have create: "zslCreateNode (Some x) junk junk_back lvl sc (Some ob) = Some (x, n)"
      by (simp add: zslCreateNode_def n_def)
    show ?thesis
      by (simp only: zslInsert_def search rnd z1(1) us1 create parts Option.bind.bind_lunit Let_def prod.case
          z2_def [symmetric] fst_conv snd_conv z3 z4(1) z5(1) lx z6(1))
  qed
  show thesis
  proof (rule that [OF run z6(3)])
    show "inserted ?hd ?h us x lvl ?m z2 (z6\<lparr>len := len z6 + 1\<rparr>)"
      using z4(3) z5(3) z6(2) by (simp add: inserted_def level_of_def fun_eq_iff)
    show "level_of z2 ?hd j = Some (link_at ?h j xs)" if "j < ?m" for j
      using z1(3) [OF that] lev2 [of ?hd j] x(1) by simp
    show "level_of z2 q j = level_of z q j" if "q \<noteq> x" "q \<noteq> ?hd \<or> ?m \<le> j" for q j
      using lev2 [OF that(1)] z1(4) [OF that(2)] by simp
  qed
qed

lemma nodes_insertedD:
  assumes "nodes_inserted us vs x lvl sc ob z z'" "mem z x = None"
  shows "header z' = header z" "levels z' = max (levels z) lvl" "len z' = len z + 1"
    "tail z' = (if vs = [] then Some x else tail z)" "ht z' = (ht z)(x := lvl)"
    "dom (mem z') = insert x (dom (mem z))" "elem z' x = (sc, ob)"
    "\<And>p n. mem z p = Some n \<Longrightarrow> \<exists>n'. mem z' p = Some n' \<and> obj n' = obj n \<and> score n' = score n \<and> room n' = room n \<and>
       backward n' = (if vs \<noteq> [] \<and> p = hd vs then Some x else backward n)"
    "\<exists>n. mem z' x = Some n \<and> obj n = Some ob \<and> room n = lvl \<and> backward n = last_of None us"
proof -
  note nodes = assms(1) [unfolded nodes_inserted_def]
  show "header z' = header z" "levels z' = max (levels z) lvl" "len z' = len z + 1"
    "tail z' = (if vs = [] then Some x else tail z)"
    "\<exists>n. mem z' x = Some n \<and> obj n = Some ob \<and> room n = lvl \<and> backward n = last_of None us"
    using nodes by blast+
  have old: "case mem z p of None \<Rightarrow> mem z' p = None
        | Some n \<Rightarrow> \<exists>n'. mem z' p = Some n' \<and> obj n' = obj n \<and> score n' = score n \<and> room n' = room n \<and>
            backward n' = (if vs \<noteq> [] \<and> p = hd vs then Some x else backward n)" if "p \<noteq> x" for p
    using nodes that by blast
  show "\<exists>n'. mem z' p = Some n' \<and> obj n' = obj n \<and> score n' = score n \<and> room n' = room n \<and>
       backward n' = (if vs \<noteq> [] \<and> p = hd vs then Some x else backward n)" if "mem z p = Some n" for p n
    using old [of p] that assms(2) by (cases "p = x") auto
  have "ht z' p = ((ht z)(x := lvl)) p" for p
    using old [of p] nodes by (cases "p = x"; cases "mem z p") (auto simp: ht_def)
  then show "ht z' = (ht z)(x := lvl)"
    by blast
  have "p \<in> dom (mem z') \<longleftrightarrow> p \<in> insert x (dom (mem z))" for p
    using old [of p] nodes by (cases "p = x"; cases "mem z p") auto
  then show "dom (mem z') = insert x (dom (mem z))"
    by blast
  show "elem z' x = (sc, ob)"
    using nodes by (auto simp: elem_def)
qed

lemma backs_inserted:
  assumes "backs_ok z (us @ vs)" "nodes_inserted us vs x lvl sc ob z z'" "mem z x = None" "distinct (us @ vs)"
  shows "backs_ok z' (us @ x # vs)"
proof -
  note nodes = nodes_insertedD [OF assms(2,3)]
  have old: "bchain (mem z) None us" "bchain (mem z) (last_of None us) vs" "tail z = last_of None (us @ vs)"
    using assms(1) by (simp_all add: backs_ok_def bchain_append)
  have "bchain (mem z') None us"
  proof (rule bchain_cong [OF old(1)])
    fix p n
    assume "p \<in> set us" "mem z p = Some n"
    moreover have "\<not> (vs \<noteq> [] \<and> p = hd vs)"
      using \<open>p \<in> set us\<close> assms(4) by (cases vs) auto
    ultimately show "\<exists>n'. mem z' p = Some n' \<and> backward n' = backward n"
      using nodes(8) by metis
  qed
  moreover have "bchain (mem z') (Some x) vs"
  proof (cases vs)
    case (Cons v vs')
    then obtain n where n: "mem z v = Some n" "bchain (mem z) (Some v) vs'"
      using old(2) by auto
    have "bchain (mem z') (Some v) vs'"
    proof (rule bchain_cong [OF n(2)])
      fix p n
      assume "p \<in> set vs'" "mem z p = Some n"
      moreover have "p \<noteq> v"
        using \<open>p \<in> set vs'\<close> assms(4) Cons by auto
      ultimately show "\<exists>n'. mem z' p = Some n' \<and> backward n' = backward n"
        using nodes(8) Cons by (metis list.sel(1))
    qed
    then show ?thesis
      using nodes(8) [OF n(1)] Cons by auto
  qed simp
  ultimately show ?thesis
    using nodes(4,9) old(3) by (auto simp: backs_ok_def bchain_append last_of_def)
qed

lemma zslInsert_inv:
  assumes ok: "objects_ok cmp eq" and inv: "zsl_inv cmp z xs" and new: "mem z x = None"
    and rnd: "zslRandomLevel 1 rnd = Some lvl"
    and fresh: "\<And>y. y \<in> set xs \<Longrightarrow> elem_less cmp (elem z y) (sc, ob) \<or> elem_less cmp (sc, ob) (elem z y)"
    and us: "us = before cmp z (sc, ob) xs" and vs: "vs = after cmp z (sc, ob) xs"
  shows "\<exists>z'. zslInsert cmp (Some x) junk junk_back rnd z sc ob = Some (x, z') \<and> zsl_inv cmp z' (us @ x # vs) \<and>
    elem z' x = (sc, ob) \<and> (\<forall>y\<in>set xs. elem z' y = elem z y) \<and> header z' = header z"
proof -
  let ?hd = "header z" and ?h = "ht z" and ?m = "max (levels z) lvl"
  obtain z' z2 where run: "zslInsert cmp (Some x) junk junk_back rnd z sc ob = Some (x, z')"
    and nodes': "nodes_inserted us vs x lvl sc ob z z'" and ins: "inserted ?hd ?h us x lvl ?m z2 z'"
    and hd2: "\<And>j. j < ?m \<Longrightarrow> level_of z2 ?hd j = Some (link_at ?h j xs)"
    and lev2: "\<And>q j. q \<noteq> x \<Longrightarrow> q \<noteq> ?hd \<or> ?m \<le> j \<Longrightarrow> level_of z2 q j = level_of z q j"
    using zslInsert_run [OF ok inv new rnd us vs] by metis
  note nodes = nodes_insertedD [OF nodes' new] and inv' = inv [unfolded zsl_inv_def]
  have xs: "xs = us @ vs"
    by (simp add: us vs)
  have lvl: "1 \<le> lvl" "lvl \<le> ZSKIPLIST_MAXLEVEL"
    using zslRandomLevel_range [OF rnd] by simp_all
  have x: "x \<noteq> ?hd" "x \<notin> set (us @ vs)"
    using inv' new xs by auto
  have dist: "distinct (?hd # us)" "distinct (?hd # us @ vs)"
    using inv' xs by auto
  have high: "?h y \<le> levels z" if "y \<in> set xs" for y
    using heights [OF inv order_refl] that by (simp add: low_def)
  have elems: "elem z' y = elem z y" if "y \<in> set xs" for y
  proof -
    from inv that obtain n where "mem z y = Some n"
      by (rule zsl_inv_node)
    then show ?thesis
      using nodes(8) [of y n] by (auto simp: elem_def)
  qed
  have "linked z2 ?h (us @ vs)"
  proof (rule linked_after)
    show "linked z ?h (us @ vs)"
      using inv' by (simp add: xs)
    show "level_of z2 q j = level_of z q j" if "q \<in> set (us @ vs)" for q j
      using that inv' xs x(2) by (intro lev2) auto
  qed simp
  moreover have "?h y \<le> ?m" if "y \<in> set us" for y
    using high [of y] that xs by simp
  ultimately have linked: "linked z' (ht z') (us @ x # vs)"
    using inserted_linked [OF ins x(2,1) dist(2)] hd2 by (simp add: nodes(5) xs)
  have header: "header_ok z' (us @ x # vs)"
    unfolding header_ok_def nodes(1,2,5)
  proof (intro conjI allI impI)
    show "\<exists>n. mem z' ?hd = Some n \<and> obj n = None \<and> room n = ZSKIPLIST_MAXLEVEL"
      using inv' nodes(8) [of ?hd] by (auto simp: header_ok_def)
    show "level_of z' ?hd j = Some (link_at (?h(x := lvl)) j (us @ x # vs))" if "j < ?m" for j
      using inserted_before [OF ins x(2,1) dist(1), of "[]" us j] hd2 [OF that] that xs by simp
    fix j
    assume j: "j < ZSKIPLIST_MAXLEVEL" "?m \<le> j"
    then have "\<not> j < ?m" "\<not> j < lvl"
      by linarith+
    then have "level_of z' ?hd j = level_of z2 ?hd j" "level_of z2 ?hd j = level_of z ?hd j"
      using ins x(1) lev2 [of ?hd j] j(2) unfolding inserted_def by presburger+
    then show "\<exists>l. level_of z' ?hd j = Some l \<and> forward l = None"
      using inv' j by (auto simp: header_ok_def)
  qed
  have "node_ok z' y" if "y \<in> set (us @ x # vs)" for y
  proof (cases "y = x")
    case True
    then show ?thesis
      using nodes(2,9) lvl by (auto simp: node_ok_def)
  next
    case False
    with that xs have "y \<in> set xs"
      by auto
    with inv obtain n ob' where "mem z y = Some n" "obj n = Some ob'" "1 \<le> room n" "room n \<le> levels z"
      by (rule zsl_inv_node)
    then show ?thesis
      using nodes(8) [of y n] nodes(2) by (auto simp: node_ok_def)
  qed
  moreover have "levels_ok z' (us @ x # vs)"
  proof (cases "levels z \<le> lvl")
    case True
    then show ?thesis
      using lvl by (simp add: levels_ok_def nodes(2,5) max_def)
  next
    case False
    then obtain y where "y \<in> set xs" "?h y = levels z"
      using inv' lvl by (auto simp: levels_ok_def)
    then have "\<exists>y\<in>set (us @ x # vs). (?h(x := lvl)) y = levels z"
      using x(2) xs by (intro bexI [of _ y]) auto
    then show ?thesis
      using inv' False by (simp add: levels_ok_def nodes(2,5) max_def)
  qed
  moreover have "sorted_wrt (elem_less cmp) (map (elem z') (us @ x # vs))"
  proof -
    have "elem_less cmp (sc, ob) (elem z v)" if "v \<in> set vs" for v
    proof -
      have "v \<in> set xs"
        using that by (simp add: xs)
      moreover have "\<not> elem_less cmp (elem z v) (sc, ob)"
        using after_not_less [OF ok, of z xs v "(sc, ob)"] inv' that unfolding vs by blast
      ultimately show ?thesis
        using fresh by blast
    qed
    moreover have "elem_less cmp (elem z u) (sc, ob)" if "u \<in> set us" for u
      using before_less that unfolding us by blast
    moreover have "sorted_wrt (elem_less cmp) (map (elem z) us @ map (elem z) vs)"
      using inv' by (simp add: xs)
    moreover have eq: "map (elem z') (us @ x # vs) = map (elem z) us @ (sc, ob) # map (elem z) vs"
      using elems nodes(7) by (simp add: xs)
    ultimately show ?thesis
      unfolding eq by (auto simp: sorted_wrt_append)
  qed
  moreover have "backs_ok z' (us @ x # vs)"
    using backs_inserted [OF _ nodes' new] inv' by (simp add: xs)
  ultimately have "zsl_inv cmp z' (us @ x # vs)"
    using linked header inv' x nodes(1,3,6) by (auto simp: zsl_inv_def xs)
  then show ?thesis
    using run nodes(1,7) elems by blast
qed

end
