(* ===== verification/Skip_Delete.thy ===== *)
theory Skip_Delete
  imports Skip_Ops
begin

text \<open>
  Deletion from the skip list: the links that led to the node are led past it, empty levels are given
  up, and the invariant holds of the shorter list.
\<close>

section \<open>The links\<close>

definition unlinked_link :: "nat \<Rightarrow> zskiplistLevel option \<Rightarrow> zskiplistLevel \<Rightarrow> zskiplistLevel" where
  "unlinked_link x lx l =
     (if forward l = Some x then
        (case lx of None \<Rightarrow> l | Some m \<Rightarrow> \<lparr>forward = forward m, zspan = zspan l + (zspan m - 1)\<rparr>)
      else l\<lparr>zspan := zspan l - 1\<rparr>)"

lemma unlink_levels_spec:
  assumes "\<And>j. in_range i k j \<Longrightarrow> j < ht z (U j) \<and> U j \<noteq> x \<and>
      (\<forall>l. level_of z (U j) j = Some l \<longrightarrow> forward l = Some x \<longrightarrow> j < ht z x)"
  shows "\<exists>z'. unlink_levels x i (map (\<lambda>j. (U j, R j)) [i..<i + k]) z = Some z' \<and> bare z' = bare z \<and>
    (\<forall>q j. level_of z' q j =
       (if in_range i k j \<and> q = U j then map_option (unlinked_link x (level_of z x j)) (level_of z q j)
        else level_of z q j))"
  using assms
proof (induction k arbitrary: i z)
  case (Suc k)
  have i: "i < ht z (U i)" "U i \<noteq> x"
    using Suc.prems [of i] by (simp_all add: in_range_Suc)
  obtain l where l: "level_of z (U i) i = Some l"
    using i level_of_ht [of z "U i" i] by auto
  let ?l = "unlinked_link x (level_of z x i) l"
  obtain z1 where z1: "set_level (U i) i ?l z = Some z1" "bare z1 = bare z"
    "\<And>q j. level_of z1 q j = (if q = U i \<and> j = i then Some ?l else level_of z q j)"
    using set_level_spec [OF i(1)] by blast
  have step: "(if forward l = Some x then
                 do { lx \<leftarrow> level_of z x i;
                      set_level (U i) i \<lparr>forward = forward lx, zspan = zspan l + (zspan lx - 1)\<rparr> z }
               else set_level (U i) i (l\<lparr>zspan := zspan l - 1\<rparr>) z) = Some z1"
  proof (cases "forward l = Some x")
    case True
    then obtain lx where "level_of z x i = Some lx"
      using Suc.prems [of i] l level_of_ht [of z x i] by (auto simp: in_range_Suc)
    then show ?thesis
      using True z1(1) by (simp add: unlinked_link_def)
  next
    case False
    then show ?thesis
      using z1(1) by (simp add: unlinked_link_def)
  qed
  have same: "ht z1 = ht z" "level_of z1 x = level_of z x" "\<And>j. j \<noteq> i \<Longrightarrow> level_of z1 (U j) j = level_of z (U j) j"
    using bare_same(1) [OF z1(2)] i(2) by (auto simp: z1(3) fun_eq_iff)
  obtain z2 where z2: "unlink_levels x (Suc i) (map (\<lambda>j. (U j, R j)) [Suc i..<Suc i + k]) z1 = Some z2" "bare z2 = bare z1"
    "\<And>q j. level_of z2 q j =
       (if in_range (Suc i) k j \<and> q = U j then map_option (unlinked_link x (level_of z1 x j)) (level_of z1 q j)
        else level_of z1 q j)"
  proof -
    have "j < ht z1 (U j) \<and> U j \<noteq> x \<and> (\<forall>l. level_of z1 (U j) j = Some l \<longrightarrow> forward l = Some x \<longrightarrow> j < ht z1 x)"
      if "in_range (Suc i) k j" for j
    proof -
      have "j \<noteq> i" "in_range i (Suc k) j"
        using that by (auto simp: in_range_def)
      then show ?thesis
        using Suc.prems [of j] same by simp
    qed
    from Suc.IH [OF this] show thesis
      using that by blast
  qed
  have "unlink_levels x i (map (\<lambda>j. (U j, R j)) [i..<i + Suc k]) z = Some z2"
    using l step z2(1) unfolding upt_range by simp
  moreover have "level_of z2 q j =
       (if in_range i (Suc k) j \<and> q = U j then map_option (unlinked_link x (level_of z x j)) (level_of z q j)
        else level_of z q j)" for q j
    using l same(2) by (cases "j = i") (auto simp: z2(3) z1(3) in_range_Suc)
  ultimately show ?case
    using z1(2) z2(2) by (intro exI [of _ z2]) simp
qed simp

text \<open>The links after \<open>x\<close>, between \<open>us\<close> and \<open>ws\<close>, was led past.\<close>

definition passed :: "nat \<Rightarrow> (nat \<Rightarrow> nat) \<Rightarrow> nat list \<Rightarrow> nat \<Rightarrow> nat \<Rightarrow> ('s, 'o) zskiplist \<Rightarrow> ('s, 'o) zskiplist \<Rightarrow> bool" where
  "passed hdr h us x m z z' \<longleftrightarrow> (\<forall>q j. level_of z' q j =
     (if j < m \<and> q = upd hdr h j us then map_option (unlinked_link x (level_of z x j)) (level_of z q j)
      else level_of z q j))"

lemma passed_before:
  assumes pas: "passed hdr h us x m z z'" and dist: "distinct (hdr # us @ x # ws)"
    and split: "us = d @ us'" "d = [] \<or> j < h (last d)" "j < m"
    and old: "level_of z (last (hdr # d)) j = Some (link_at h j (us' @ x # ws))"
      "\<And>i. i < h x \<Longrightarrow> level_of z x i = Some (link_at h i ws)"
  shows "level_of z' (last (hdr # d)) j = Some (link_at h j (us' @ ws))"
proof (cases h j us' rule: low_cases)
  case 1
  note up = upd_pos_low [OF split(1) 1 split(2)]
  have new: "level_of z' (last (hdr # d)) j =
      Some (unlinked_link x (level_of z x j) (link_at h j (us' @ x # ws)))"
    using pas up(1) split(3) old(1) unfolding passed_def by simp
  show ?thesis
  proof (cases "j < h x")
    case True
    then show ?thesis
      using new old(2) [OF True] fwd_reach [OF 1, of x ws] gap_reach [OF 1, of x ws] fwd_low [OF 1, of ws] gap_low [OF 1, of ws]
      by (simp add: unlinked_link_def link_at_def)
  next
    case False
    then have low: "low h j (us' @ [x])"
      using 1 by simp
    have "fwd h j ws \<noteq> Some x"
    proof
      assume "fwd h j ws = Some x"
      then have "x \<in> set ws"
        by (auto simp: fwd_def find_Some_iff)
      then show False
        using dist by simp
    qed
    then show ?thesis
      using new fwd_low [OF low, of ws] gap_low [OF low, of ws] fwd_low [OF 1, of ws] gap_low [OF 1, of ws]
      by (simp add: unlinked_link_def link_at_def)
  qed
next
  case (2 a y b)
  let ?q = "last (hdr # d)"
  have "upd hdr h j us \<in> set us'"
    using upd_append [of hdr h j d us'] upd_reach [where h = h and y = y and i = j and hdr = "upd hdr h j d" and a = a and b = b]
      2(3) upd_in [of y h j b] 2(1) split(1) by auto
  moreover have "?q \<notin> set us'"
    using dist split(1) by (cases d rule: rev_cases) auto
  ultimately have "level_of z' ?q j = level_of z ?q j"
    using pas unfolding passed_def by metis
  moreover have "link_at h j (us' @ x # ws) = link_at h j (us' @ ws)"
    using fwd_reach [of h j a y "b @ x # ws"] gap_reach [of h j a y "b @ x # ws"] fwd_reach [of h j a y "b @ ws"]
      gap_reach [of h j a y "b @ ws"] 2 by (simp add: link_at_def)
  ultimately show ?thesis
    using old(1) by simp
qed

lemma passed_linked:
  assumes pas: "passed hdr h us x m z z'" and dist: "distinct (hdr # us @ x # ws)"
    and linked: "linked z h (us @ x # ws)" and high: "\<And>y. y \<in> set us \<Longrightarrow> h y \<le> m"
  shows "linked z' h (us @ ws)"
proof -
  have x: "level_of z x i = Some (link_at h i ws)" if "i < h x" for i
    using linkedD [OF linked that] .
  have ws: "linked z' h ws"
  proof (rule linked_after)
    show "linked z h ws"
      using linked linked_append [of z h "us @ [x]" ws] by simp
    show "level_of z' q j = level_of z q j" if "q \<in> set ws" for q j
    proof -
      have "q \<noteq> upd hdr h j us"
        using that dist upd_in [of hdr h j us] by auto
      then show ?thesis
        using pas unfolding passed_def by simp
    qed
  qed simp
  have "linked z' h (us' @ ws)" if "us = d @ us'" "linked z h (us' @ x # ws)" for d us'
    using that
  proof (induction us' arbitrary: d)
    case Nil
    then show ?case
      using ws by simp
  next
    case (Cons y us')
    have "level_of z' y j = Some (link_at h j (us' @ ws))" if "j < h y" for j
    proof -
      have "j < m"
        using that high [of y] Cons.prems(1) by simp
      then show ?thesis
        using passed_before [OF pas dist, of "d @ [y]" us' j] that Cons.prems x by simp
    qed
    moreover have "linked z' h (us' @ ws)"
      by (rule Cons.IH [of "d @ [y]"]) (use Cons.prems in simp_all)
    ultimately show ?case
      by simp
  qed
  from this [of "[]" us] show ?thesis
    using linked by simp
qed

lemma trim_levels_spec:
  assumes "\<And>j. j < n \<Longrightarrow> \<exists>l. level_of z (header z) j = Some l" "1 \<le> n"
  shows "\<exists>lv. trim_levels n z = Some lv \<and> 1 \<le> lv \<and> lv \<le> n \<and>
    (\<forall>j. lv \<le> j \<longrightarrow> j < n \<longrightarrow> (\<exists>l. level_of z (header z) j = Some l \<and> forward l = None)) \<and>
    (1 < lv \<longrightarrow> (\<exists>l. level_of z (header z) (lv - 1) = Some l \<and> forward l \<noteq> None))"
  using assms
proof (induction n)
  case (Suc n)
  show ?case
  proof (cases "n = 0")
    case False
    obtain l where l: "level_of z (header z) n = Some l"
      using Suc.prems(1) [of n] by auto
    show ?thesis
    proof (cases "forward l = None")
      case True
      obtain lv where "trim_levels n z = Some lv" "1 \<le> lv" "lv \<le> n"
        "\<forall>j. lv \<le> j \<longrightarrow> j < n \<longrightarrow> (\<exists>l. level_of z (header z) j = Some l \<and> forward l = None)"
        "1 < lv \<longrightarrow> (\<exists>l. level_of z (header z) (lv - 1) = Some l \<and> forward l \<noteq> None)"
        using Suc.IH Suc.prems(1) False by auto
      then show ?thesis
        using True l False by (intro exI [of _ lv]) (auto simp: less_Suc_eq)
    next
      case notnull: False
      then show ?thesis
        using l False by (intro exI [of _ "Suc n"]) auto
    qed
  qed auto
qed simp

section \<open>The nodes\<close>

definition nodes_deleted ::
  "nat list \<Rightarrow> nat list \<Rightarrow> nat \<Rightarrow> ('s, 'o) zskiplist \<Rightarrow> ('s, 'o) zskiplist \<Rightarrow> bool" where
  "nodes_deleted us ws x z z' \<longleftrightarrow> header z' = header z \<and> len z' = len z - 1 \<and>
     tail z' = (if ws = [] then last_of None us else tail z) \<and> mem z' x = None \<and>
     (\<forall>p. p \<noteq> x \<longrightarrow> (case mem z p of None \<Rightarrow> mem z' p = None
        | Some n \<Rightarrow> \<exists>n'. mem z' p = Some n' \<and> obj n' = obj n \<and> score n' = score n \<and> room n' = room n \<and>
            backward n' = (if ws \<noteq> [] \<and> p = hd ws then last_of None us else backward n)))"

lemma nodes_deletedD:
  assumes "nodes_deleted us ws x z z'"
  shows "header z' = header z" "len z' = len z - 1" "tail z' = (if ws = [] then last_of None us else tail z)"
    "dom (mem z') = dom (mem z) - {x}" "\<And>p. p \<noteq> x \<Longrightarrow> ht z' p = ht z p"
    "\<And>p n. p \<noteq> x \<Longrightarrow> mem z p = Some n \<Longrightarrow> \<exists>n'. mem z' p = Some n' \<and> obj n' = obj n \<and> score n' = score n \<and> room n' = room n \<and>
       backward n' = (if ws \<noteq> [] \<and> p = hd ws then last_of None us else backward n)"
    "\<And>p n. p \<noteq> x \<Longrightarrow> mem z p = Some n \<Longrightarrow> elem z' p = elem z p"
proof -
  note nodes = assms [unfolded nodes_deleted_def]
  show "header z' = header z" "len z' = len z - 1" "tail z' = (if ws = [] then last_of None us else tail z)"
    using nodes by blast+
  have old: "case mem z p of None \<Rightarrow> mem z' p = None
        | Some n \<Rightarrow> \<exists>n'. mem z' p = Some n' \<and> obj n' = obj n \<and> score n' = score n \<and> room n' = room n \<and>
            backward n' = (if ws \<noteq> [] \<and> p = hd ws then last_of None us else backward n)" if "p \<noteq> x" for p
    using nodes that by blast
  show ex: "\<exists>n'. mem z' p = Some n' \<and> obj n' = obj n \<and> score n' = score n \<and> room n' = room n \<and>
       backward n' = (if ws \<noteq> [] \<and> p = hd ws then last_of None us else backward n)" if "p \<noteq> x" "mem z p = Some n" for p n
    using old [OF that(1)] that(2) by simp
  show "ht z' p = ht z p" if "p \<noteq> x" for p
    using old [OF that] by (cases "mem z p") (auto simp: ht_def)
  show "elem z' p = elem z p" if "p \<noteq> x" "mem z p = Some n" for p n
    using ex [OF that] that(2) by (auto simp: elem_def)
  have "p \<in> dom (mem z') \<longleftrightarrow> p \<in> dom (mem z) - {x}" for p
    using old [of p] nodes by (cases "p = x"; cases "mem z p") auto
  then show "dom (mem z') = dom (mem z) - {x}"
    by blast
qed

lemma backs_deleted:
  assumes "backs_ok z (us @ x # ws)" "nodes_deleted us ws x z z'" "distinct (us @ x # ws)"
  shows "backs_ok z' (us @ ws)"
proof -
  note nodes = nodes_deletedD [OF assms(2)]
  have old: "bchain (mem z) None us" "bchain (mem z) (Some x) ws" "tail z = last_of None (us @ x # ws)"
    using assms(1) by (auto simp: backs_ok_def bchain_append)
  have "bchain (mem z') None us"
  proof (rule bchain_cong [OF old(1)])
    fix p n
    assume p: "p \<in> set us" "mem z p = Some n"
    have "p \<noteq> x" "\<not> (ws \<noteq> [] \<and> p = hd ws)"
      using p(1) assms(3) by (cases ws, auto)
    then show "\<exists>n'. mem z' p = Some n' \<and> backward n' = backward n"
      using nodes(6) p(2) by metis
  qed
  moreover have "bchain (mem z') (last_of None us) ws"
  proof (cases ws)
    case (Cons w ws')
    then obtain n where n: "mem z w = Some n" "bchain (mem z) (Some w) ws'"
      using old(2) by auto
    have "bchain (mem z') (Some w) ws'"
    proof (rule bchain_cong [OF n(2)])
      fix p n
      assume p: "p \<in> set ws'" "mem z p = Some n"
      have "p \<noteq> w" "p \<noteq> x"
        using p(1) assms(3) Cons by auto
      then show "\<exists>n'. mem z' p = Some n' \<and> backward n' = backward n"
        using nodes(6) p(2) Cons by (metis list.sel(1))
    qed
    moreover have "w \<noteq> x"
      using assms(3) Cons by auto
    ultimately show ?thesis
      using nodes(6) [OF _ n(1)] Cons by auto
  qed simp
  ultimately show ?thesis
    using nodes(3) old(3) by (auto simp: backs_ok_def bchain_append last_of_def)
qed

section \<open>Deletion\<close>

lemma first_after:
  assumes inv: "zsl_inv cmp z (us @ vs)"
  shows "level_of z (upd (header z) (ht z) 0 us) 0 = Some (link_at (ht z) 0 vs)"
proof -
  note inv' = inv [unfolded zsl_inv_def]
  have ge1: "0 < ht z y" if "y \<in> set (us @ vs)" for y
    using inv that by (rule zsl_inv_node) simp
  then have u0: "upd (header z) (ht z) 0 us = last (header z # us)"
    by (intro upd_all) simp
  show ?thesis
  proof (cases us rule: rev_cases)
    case Nil
    then show ?thesis
      using inv' u0 by (simp add: header_ok_def levels_ok_def)
  next
    case (snoc c y)
    then show ?thesis
      using linkedD [of z "ht z" c y vs 0] inv' ge1 [of y] u0 by simp
  qed
qed

lemma zslDelete_run:
  assumes ok: "objects_ok cmp eq" and inv: "zsl_inv cmp z xs"
    and us: "us = before cmp z (sc, ob) xs" and ws: "after cmp z (sc, ob) xs = x # ws"
    and same: "fst (elem z x) = sc" "eq (snd (elem z x)) ob"
  obtains z' z2 where "zslDelete cmp eq z sc ob = Some (1, z')" "nodes_deleted us ws x z z'"
    "passed (header z) (ht z) us x (levels z) z z2" "\<And>q. q \<noteq> x \<Longrightarrow> level_of z' q = level_of z2 q"
    "trim_levels (levels z) z2 = Some (levels z')" "header z2 = header z" "ht z2 = ht z"
proof -
  let ?hd = "header z" and ?h = "ht z"
  let ?f = "\<lambda>j. (upd ?hd ?h j us, word_of_nat (pos ?h j us) :: u32)"
  note inv' = inv [unfolded zsl_inv_def]
  have xs: "xs = us @ x # ws"
    using before_after [of cmp z "(sc, ob)" xs] by (simp add: us ws)
  have x: "x \<in> set xs" "x \<noteq> ?hd" "?hd \<notin> set us" "x \<notin> set us" "x \<notin> set ws"
    using inv' xs by auto
  from inv x(1) obtain n ob' where n: "mem z x = Some n" "obj n = Some ob'" "elem z x = (score n, ob')"
    "1 \<le> room n" "ht z x = room n"
    by (rule zsl_inv_node)
  have search: "search_down z (\<lambda>n (r :: u32). entry_less cmp sc ob n) (levels z) ?hd 0 = Some (map ?f [0..<levels z])"
    using search_spec [OF ok inv, of sc ob] unfolding us .
  have lv: "1 \<le> levels z"
    using inv' by (simp add: levels_ok_def)
  have ge1: "0 < ?h y" if "y \<in> set xs" for y
    using inv that by (rule zsl_inv_node) simp
  have l0: "level_of z (upd ?hd ?h 0 us) 0 = Some (link_at ?h 0 (x # ws))"
    by (rule first_after [where cmp = cmp]) (use inv xs in simp)
  have forward0: "forward (link_at ?h 0 (x # ws)) = Some x"
    using ge1 [OF x(1)] by simp
  have first: "map ?f [0..<levels z] ! 0 = ?f 0"
    using lv by simp
  have U: "j < ht z (upd ?hd ?h j us)" "upd ?hd ?h j us \<noteq> x" if "j < levels z" for j
  proof -
    have "?h ?hd = ZSKIPLIST_MAXLEVEL" "levels z \<le> ZSKIPLIST_MAXLEVEL"
      using inv' by (auto simp: header_ok_def ht_def levels_ok_def)
    then show "j < ht z (upd ?hd ?h j us)" "upd ?hd ?h j us \<noteq> x"
      using upd_in [of ?hd ?h j us] that x by auto
  qed
  have toward: "j < ?h x" if j: "j < levels z" and l: "level_of z (upd ?hd ?h j us) j = Some l" "forward l = Some x" for j l
  proof -
    obtain ys where "level_of z (upd ?hd ?h j us) j = Some (link_at ?h j ys)"
    proof (cases "upd ?hd ?h j us = ?hd")
      case True
      then show thesis
        using that j inv' by (simp add: header_ok_def)
    next
      case False
      then have y: "upd ?hd ?h j us \<in> set us" "j < ?h (upd ?hd ?h j us)"
        using upd_in [of ?hd ?h j us] by auto
      then have "upd ?hd ?h j us \<in> set xs"
        by (simp add: xs)
      then obtain c b where "xs = c @ upd ?hd ?h j us # b"
        by (meson split_list)
      then show thesis
        using that linkedD [of z ?h c "upd ?hd ?h j us" b j] inv' y(2) by metis
    qed
    then have "fwd ?h j ys = Some x"
      using l by simp
    then show ?thesis
      by (auto simp: fwd_def find_Some_iff)
  qed
  obtain z1 where z1: "unlink_levels x 0 (map ?f [0..<0 + levels z]) z = Some z1" "bare z1 = bare z"
    "\<And>q j. level_of z1 q j =
       (if in_range 0 (levels z) j \<and> q = upd ?hd ?h j us then map_option (unlinked_link x (level_of z x j)) (level_of z q j)
        else level_of z q j)"
    using unlink_levels_spec [of 0 "levels z" z "\<lambda>j. upd ?hd ?h j us" x "\<lambda>j. word_of_nat (pos ?h j us)"] U toward
    by (auto simp: in_range_def)
  have pas: "passed ?hd ?h us x (levels z) z z1"
    unfolding passed_def by (simp add: z1(3) in_range_def)
  have "backward n = last_of None us"
    using inv' n(1) by (auto simp: xs backs_ok_def bchain_append)
  then obtain n1 where n1: "mem z1 x = Some n1" "backward n1 = last_of None us"
    using bare_node(2) [OF z1(2) n(1)] by auto
  have "level_of z1 x 0 = level_of z x 0"
    using U(2) [of 0] lv by (simp add: z1(3) in_range_def)
  then have l1: "level_of z1 x 0 = Some (link_at ?h 0 ws)"
    using linkedD [of z ?h us x ws 0] inv' xs ge1 [OF x(1)] by simp
  note fields1 = bare_fields [OF z1(2)] bare_same(1) [OF z1(2)]
  obtain z2 where z2: "(case forward (link_at ?h 0 ws) of
        Some y \<Rightarrow> set_backward y (backward n1) z1 | None \<Rightarrow> Some (z1\<lparr>tail := backward n1\<rparr>)) = Some z2"
    "level_of z2 = level_of z1" "ht z2 = ht z" "levels z2 = levels z"
    "\<And>l. nodes_deleted us ws x z (z2\<lparr>levels := l, len := len z2 - 1, mem := (mem z2)(x := None)\<rparr>)" "header z2 = ?hd"
  proof (cases ws)
    case Nil
    let ?z2 = "z1\<lparr>tail := backward n1\<rparr>"
    have "level_of ?z2 = level_of z1" "ht ?z2 = ht z"
      using fields1 by (simp_all add: level_of_def ht_def fun_eq_iff)
    moreover have "nodes_deleted us ws x z (?z2\<lparr>levels := l, len := len ?z2 - 1, mem := (mem ?z2)(x := None)\<rparr>)" for l
      unfolding nodes_deleted_def
    proof (intro conjI allI impI)
      fix p
      assume "p \<noteq> x"
      then show "case mem z p of None \<Rightarrow> mem (?z2\<lparr>levels := l, len := len ?z2 - 1, mem := (mem ?z2)(x := None)\<rparr>) p = None
        | Some n \<Rightarrow> \<exists>n'. mem (?z2\<lparr>levels := l, len := len ?z2 - 1, mem := (mem ?z2)(x := None)\<rparr>) p = Some n' \<and>
            obj n' = obj n \<and> score n' = score n \<and> room n' = room n \<and>
            backward n' = (if ws \<noteq> [] \<and> p = hd ws then last_of None us else backward n)"
        using bare_node [OF z1(2), of p] Nil by (auto split: option.split)
    qed (use fields1 n1 Nil in simp_all)
    ultimately show thesis
      using Nil fields1 by (intro that [of ?z2]) (simp_all add: fwd_def)
  next
    case (Cons w ws')
    have w: "w \<in> set xs" "w \<noteq> x"
      using Cons xs x by auto
    then obtain nw0 where nw0: "mem z w = Some nw0"
      using zsl_inv_node [OF inv] by metis
    then obtain nw1 where nw: "mem z1 w = Some nw1"
      using bare_node(2) [OF z1(2)] by blast
    obtain z2 where z2: "set_backward w (backward n1) z1 = Some z2" "z2 = z1\<lparr>mem := (mem z1)(w \<mapsto> nw1\<lparr>backward := backward n1\<rparr>)\<rparr>"
      "level_of z2 = level_of z1" "ht z2 = ht z1"
      using set_backward_spec [OF nw] by blast
    have "nodes_deleted us ws x z (z2\<lparr>levels := l, len := len z2 - 1, mem := (mem z2)(x := None)\<rparr>)" for l
      unfolding nodes_deleted_def
    proof (intro conjI allI impI)
      fix p
      assume "p \<noteq> x"
      then show "case mem z p of None \<Rightarrow> mem (z2\<lparr>levels := l, len := len z2 - 1, mem := (mem z2)(x := None)\<rparr>) p = None
        | Some n \<Rightarrow> \<exists>n'. mem (z2\<lparr>levels := l, len := len z2 - 1, mem := (mem z2)(x := None)\<rparr>) p = Some n' \<and>
            obj n' = obj n \<and> score n' = score n \<and> room n' = room n \<and>
            backward n' = (if ws \<noteq> [] \<and> p = hd ws then last_of None us else backward n)"
        using bare_node [OF z1(2), of p] nw0 nw Cons z2(2) n1 by (auto split: option.split)
    qed (use fields1 n1 z2(2) Cons in simp_all)
    then show thesis
      using z2 Cons fields1 ge1 [OF w(1)] by (intro that [of z2]) simp_all
  qed
  obtain lvl where lvl: "trim_levels (levels z2) z2 = Some lvl"
  proof -
    have "\<exists>l. level_of z2 (header z2) j = Some l" if "j < levels z2" for j
    proof -
      have "j < ht z2 ?hd"
        using that z2(3,4) inv' by (auto simp: header_ok_def ht_def levels_ok_def)
      then show ?thesis
        using level_of_ht z2(6) by metis
    qed
    from trim_levels_spec [OF this] show thesis
      using that lv z2(4) by auto
  qed
  let ?z' = "z2\<lparr>levels := lvl, len := len z2 - 1, mem := (mem z2)(x := None)\<rparr>"
  have node: "zslDeleteNode z x (map ?f [0..<levels z]) = Some (z2\<lparr>levels := lvl, len := len z2 - 1\<rparr>)"
  proof -
    have all: "take (levels z) (map ?f [0..<levels z]) = map ?f [0..<0 + levels z]"
      by simp
    show ?thesis
      by (simp only: zslDeleteNode_def all z1(1) n1(1) l1 z2(1) lvl Option.bind.bind_lunit)
  qed
  have run: "zslDelete cmp eq z sc ob = Some (1, ?z')"
    using search first l0 forward0 n same node by (simp add: zslDelete_def)
  show thesis
  proof (rule that [OF run z2(5)])
    show "passed ?hd ?h us x (levels z) z z2"
      using pas z2(2) by (simp add: passed_def)
    show "level_of ?z' q = level_of z2 q" if "q \<noteq> x" for q
      using that by (simp add: level_of_def fun_eq_iff)
    show "trim_levels (levels z) z2 = Some (levels ?z')"
      using lvl z2(4) by simp
  qed (use z2 in simp_all)
qed

text \<open>The levels of the shorter list, before and after the empty ones are given up.\<close>

lemma deleted_levels:
  assumes hd: "\<And>j. j < m \<Longrightarrow> level_of z (header z) j = Some (link_at h j ys)"
    and trim: "trim_levels m z = Some lv" and m: "1 \<le> m" and high: "\<And>y. y \<in> set ys \<Longrightarrow> h y \<le> m"
  shows "1 \<le> lv" "lv \<le> m" "\<And>j. lv \<le> j \<Longrightarrow> j < m \<Longrightarrow> fwd h j ys = None" "\<And>y. y \<in> set ys \<Longrightarrow> h y \<le> lv"
    "1 < lv \<Longrightarrow> \<exists>y\<in>set ys. h y = lv"
proof -
  have all: "1 \<le> lv \<and> lv \<le> m \<and>
    (\<forall>j. lv \<le> j \<longrightarrow> j < m \<longrightarrow> (\<exists>l. level_of z (header z) j = Some l \<and> forward l = None)) \<and>
    (1 < lv \<longrightarrow> (\<exists>l. level_of z (header z) (lv - 1) = Some l \<and> forward l \<noteq> None))"
    using trim_levels_spec [of m z] hd m trim by fastforce
  then show lv: "1 \<le> lv" "lv \<le> m"
    by auto
  show none: "fwd h j ys = None" if "lv \<le> j" "j < m" for j
    using all that hd [OF that(2)] by fastforce
  have low: "h y \<le> lv" if "y \<in> set ys" for y
  proof (rule ccontr)
    assume "\<not> h y \<le> lv"
    then have j: "lv \<le> h y - 1" "h y - 1 < m" "h y - 1 < h y"
      using high [OF that] by auto
    then have "low h (h y - 1) ys"
      using none by (simp add: fwd_None_iff)
    then have "h y \<le> h y - 1"
      using that unfolding low_def by blast
    then show False
      using j by simp
  qed
  then show "h y \<le> lv" if "y \<in> set ys" for y
    using that by blast
  assume "1 < lv"
  then have "fwd h (lv - 1) ys \<noteq> None"
    using all hd [of "lv - 1"] lv by auto
  then obtain y where "y \<in> set ys" "lv - 1 < h y"
    by (auto simp: fwd_None_iff low_def not_le)
  then show "\<exists>y\<in>set ys. h y = lv"
    using low [of y] \<open>1 < lv\<close> by (intro bexI [of _ y]) auto
qed

lemma zslDelete_inv:
  assumes ok: "objects_ok cmp eq" and inv: "zsl_inv cmp z xs"
    and us: "us = before cmp z (sc, ob) xs" and ws: "after cmp z (sc, ob) xs = x # ws"
    and same: "fst (elem z x) = sc" "eq (snd (elem z x)) ob"
  shows "\<exists>z'. zslDelete cmp eq z sc ob = Some (1, z') \<and> zsl_inv cmp z' (us @ ws) \<and>
    (\<forall>y\<in>set (us @ ws). elem z' y = elem z y) \<and> mem z' x = None \<and> header z' = header z"
proof -
  let ?hd = "header z" and ?h = "ht z"
  obtain z' z2 where run: "zslDelete cmp eq z sc ob = Some (1, z')" and nodes': "nodes_deleted us ws x z z'"
    and pas: "passed ?hd ?h us x (levels z) z z2" and off: "\<And>q. q \<noteq> x \<Longrightarrow> level_of z' q = level_of z2 q"
    and trim: "trim_levels (levels z) z2 = Some (levels z')" and z2: "header z2 = ?hd" "ht z2 = ?h"
    by (rule zslDelete_run [OF assms]) metis
  note nodes = nodes_deletedD [OF nodes'] and inv' = inv [unfolded zsl_inv_def]
  have xs: "xs = us @ x # ws"
    using before_after [of cmp z "(sc, ob)" xs] by (simp add: us ws)
  have dist: "distinct (?hd # us @ x # ws)" and not_x: "x \<noteq> ?hd" "x \<notin> set (us @ ws)" "?hd \<notin> set (us @ ws)"
    using inv' xs by auto
  have link_x: "level_of z x i = Some (link_at ?h i ws)" if "i < ?h x" for i
    using linkedD [of z ?h us x ws i] inv' that by (simp add: xs)
  have high: "?h y \<le> levels z" "1 \<le> ?h y" if "y \<in> set xs" for y
    using inv that by (rule zsl_inv_node, simp)+
  have hd2: "level_of z2 ?hd j = Some (link_at ?h j (us @ ws))" if "j < levels z" for j
    using passed_before [OF pas dist, of "[]" us j] inv' that link_x by (simp add: header_ok_def xs)
  have lv1: "1 \<le> levels z"
    using inv' by (simp add: levels_ok_def)
  have high': "?h y \<le> levels z" if "y \<in> set (us @ ws)" for y
    using that by (intro high(1)) (auto simp: xs)
  have hd3: "level_of z2 (header z2) j = Some (link_at ?h j (us @ ws))" if "j < levels z" for j
    using hd2 [OF that] z2(1) by simp
  note lv = deleted_levels [OF hd3 trim lv1 high']
  have same_h: "ht z' y = ?h y" if "y \<in> set (us @ ws)" for y
    using nodes(5) that not_x(2) by metis
  have level': "level_of z' ?hd j = level_of z2 ?hd j" for j
    using off not_x(1) by simp
  have header': "header_ok z' (us @ ws)"
    unfolding header_ok_def nodes(1)
  proof (intro conjI allI impI)
    show "\<exists>n. mem z' ?hd = Some n \<and> obj n = None \<and> room n = ZSKIPLIST_MAXLEVEL"
      using inv' nodes(6) [OF not_x(1) [symmetric]] by (fastforce simp: header_ok_def)
    show "level_of z' ?hd j = Some (link_at (ht z') j (us @ ws))" if "j < levels z'" for j
      using hd2 [of j] that lv(2) level' link_at_cong [of "us @ ws" "ht z'" ?h j] same_h by simp
    show "\<exists>l. level_of z' ?hd j = Some l \<and> forward l = None" if "j < ZSKIPLIST_MAXLEVEL" "levels z' \<le> j" for j
    proof (cases "j < levels z")
      case True
      then show ?thesis
        using hd2 [OF True] lv(3) [of j] that(2) True level' by simp
    next
      case False
      then have "level_of z2 ?hd j = level_of z ?hd j"
        using pas unfolding passed_def by simp
      then show ?thesis
        using inv' False that(1) level' by (simp add: header_ok_def)
    qed
  qed
  have nodes_ok': "node_ok z' y" if "y \<in> set (us @ ws)" for y
  proof -
    have "y \<in> set xs" "y \<noteq> x"
      using that not_x(2) by (auto simp: xs)
    with inv obtain n ob' where n: "mem z y = Some n" "obj n = Some ob'" "1 \<le> room n" "ht z y = room n"
      by (metis zsl_inv_node)
    then show ?thesis
      using nodes(6) [OF \<open>y \<noteq> x\<close> n(1)] lv(4) [of y] that by (auto simp: node_ok_def)
  qed
  have linked': "linked z' (ht z') (us @ ws)"
  proof (rule linked_after)
    show "linked z2 ?h (us @ ws)"
      using inv' high(1) by (intro passed_linked [OF pas dist]) (simp_all add: xs)
    show "level_of z' q j = level_of z2 q j" if "q \<in> set (us @ ws)" for q j
      using off that not_x(2) by metis
  qed (rule same_h)
  have elems: "\<forall>y\<in>set (us @ ws). elem z' y = elem z y"
  proof
    fix y
    assume y: "y \<in> set (us @ ws)"
    then have "y \<in> set xs" "y \<noteq> x"
      using not_x(2) by (auto simp: xs)
    then show "elem z' y = elem z y"
      using nodes(7) zsl_inv_node [OF inv] by metis
  qed
  have "zsl_inv cmp z' (us @ ws)"
    unfolding zsl_inv_def nodes(1)
  proof (intro conjI ballI)
    show "?hd \<notin> set (us @ ws)" "distinct (us @ ws)" "header_ok z' (us @ ws)" "linked z' (ht z') (us @ ws)"
      using not_x dist header' linked' by simp_all
    show "dom (mem z') = insert ?hd (set (us @ ws))"
      using inv' not_x nodes(4) by (auto simp: xs)
    show "backs_ok z' (us @ ws)"
      using inv' dist by (intro backs_deleted [OF _ nodes']) (simp_all add: xs)
    show "levels_ok z' (us @ ws)"
      using lv inv' same_h unfolding levels_ok_def by (metis le_trans)
    show "len z' = word_of_nat (length (us @ ws))"
      using inv' nodes(2) by (simp add: xs)
    have "map (elem z') (us @ ws) = map (elem z) (us @ ws)"
      using elems by (intro map_cong) auto
    then show "sorted_wrt (elem_less cmp) (map (elem z') (us @ ws))"
      using inv' by (simp only: xs) (simp add: sorted_wrt_append)
  qed (rule nodes_ok')
  moreover have "mem z' x = None"
    using nodes' by (simp add: nodes_deleted_def)
  ultimately show ?thesis
    using run elems nodes(1) by blast
qed

text \<open>An entry that is not there is not deleted.\<close>

lemma zslDelete_absent:
  assumes ok: "objects_ok cmp eq" and inv: "zsl_inv cmp z xs"
    and absent: "\<And>y. y \<in> set xs \<Longrightarrow> \<not> (fst (elem z y) = sc \<and> eq (snd (elem z y)) ob)"
  shows "zslDelete cmp eq z sc ob = Some (0, z)"
proof -
  let ?us = "before cmp z (sc, ob) xs" and ?vs = "after cmp z (sc, ob) xs"
  note inv' = inv [unfolded zsl_inv_def]
  have lv: "1 \<le> levels z"
    using inv' by (simp add: levels_ok_def)
  have ge1: "0 < ht z y" if "y \<in> set xs" for y
    using inv that by (rule zsl_inv_node) simp
  have l0: "level_of z (upd (header z) (ht z) 0 ?us) 0 = Some (link_at (ht z) 0 ?vs)"
    by (rule first_after [where cmp = cmp]) (simp add: inv)
  show ?thesis
  proof (cases ?vs)
    case Nil
    then show ?thesis
      using search_spec [OF ok inv, of sc ob] lv l0 by (simp add: zslDelete_def fwd_def)
  next
    case (Cons y vs)
    have y: "y \<in> set xs"
      using Cons before_after [of cmp z "(sc, ob)" xs] by (metis in_set_conv_decomp)
    with inv obtain n ob' where "mem z y = Some n" "obj n = Some ob'" "elem z y = (score n, ob')"
      by (metis zsl_inv_node)
    then show ?thesis
      using search_spec [OF ok inv, of sc ob] lv l0 Cons ge1 [OF y] absent [OF y] by (auto simp: zslDelete_def)
  qed
qed

end
