(* ===== verification/Skip_Rank.thy ===== *)
theory Skip_Rank
  imports Skip_Delete
begin

text \<open>
  Ranks in the skip list, and its creation and destruction. The two rank functions go down the levels
  as the searches do and stop at the first level whose last node fits.
\<close>

section \<open>Ranks as searches\<close>

definition holds :: "('s, 'o) zskiplist \<Rightarrow> ('o \<Rightarrow> 'o \<Rightarrow> bool) \<Rightarrow> 'o \<Rightarrow> nat \<Rightarrow> bool" where
  "holds z eq ob y \<longleftrightarrow>
     (case mem z y of None \<Rightarrow> False | Some n \<Rightarrow> (case obj n of None \<Rightarrow> False | Some ob' \<Rightarrow> eq ob' ob))"

lemma rank_down_search:
  assumes "search_down z (\<lambda>n r. entry_le cmp sc ob n) i x r = Some us" "\<And>y r'. (y, r') \<in> set us \<Longrightarrow> mem z y \<noteq> None"
  shows "rank_down cmp eq z sc ob i x r =
    Some (case find (\<lambda>(y, r'). holds z eq ob y) (rev us) of None \<Rightarrow> 0 | Some (y, r') \<Rightarrow> r')"
  using assms
proof (induction i arbitrary: x r us)
  case (Suc i)
  obtain y r' us' where walk: "walk z (\<lambda>n r. entry_le cmp sc ob n) i x r = Some (y, r')"
    and down: "search_down z (\<lambda>n r. entry_le cmp sc ob n) i y r' = Some us'" and us: "us = us' @ [(y, r')]"
    using Suc.prems(1) by (auto split: option.splits prod.splits)
  then obtain n where n: "mem z y = Some n"
    using Suc.prems(2) by fastforce
  then have "(case obj n of None \<Rightarrow> False | Some ob' \<Rightarrow> eq ob' ob) \<longleftrightarrow> holds z eq ob y"
    by (simp add: holds_def)
  moreover have "rank_down cmp eq z sc ob i y r' =
      Some (case find (\<lambda>(y, r'). holds z eq ob y) (rev us') of None \<Rightarrow> 0 | Some (y, r') \<Rightarrow> r')"
    using us Suc.prems(2) by (intro Suc.IH [OF down]) auto
  ultimately show ?case
    using walk n us by simp
qed simp

lemma element_down_search:
  assumes "search_down z (\<lambda>n r'. Some (r' \<le> rank)) i x r = Some us"
  shows "element_down z rank i x r = Some (map_option fst (find (\<lambda>(y, r'). r' = rank) (rev us)))"
  using assms
proof (induction i arbitrary: x r us)
  case (Suc i)
  obtain y r' us' where walk: "walk z (\<lambda>n r'. Some (r' \<le> rank)) i x r = Some (y, r')"
    and down: "search_down z (\<lambda>n r'. Some (r' \<le> rank)) i y r' = Some us'" and us: "us = us' @ [(y, r')]"
    using Suc.prems(1) by (auto split: option.splits prod.splits)
  then show ?case
    using Suc.IH [OF down] by simp
qed simp

text \<open>The result of a search that passes \<open>us\<close>, on the levels of the list.\<close>

lemma search_down_header:
  assumes inv: "zsl_inv cmp z (us @ vs)" and goes: "goes z go 0 us vs" and short: "length (us @ vs) < 2 ^ 32"
  shows "search_down z go (levels z) (header z) (0 :: u64) =
    Some (map (\<lambda>j. (upd (header z) (ht z) j us, word_of_nat (pos (ht z) j us))) [0..<levels z])"
proof -
  have "search_down z go (levels z) (header z) (0 :: u64) =
    Some (map (\<lambda>j. (upd (header z) (ht z) j us, 0 + word_of_nat (pos (ht z) j us))) [0..<levels z])"
    by (rule search_down_spec [where vs = vs]) (use assms in \<open>simp_all add: zsl_inv_def header_ok_def\<close>)
  then show ?thesis
    by simp
qed

text \<open>A search from the top among values that agree where the test holds.\<close>

lemma find_from_top:
  assumes "\<And>j. j < m \<Longrightarrow> P (f j) \<Longrightarrow> g (f j) = v" "\<exists>j<m. P (f j)"
  shows "\<exists>w. find P (rev (map f [0..<m])) = Some w \<and> g w = v"
proof (cases "find P (rev (map f [0..<m]))")
  case None
  then show ?thesis
    using assms(2) by (auto simp: find_None_iff)
next
  case (Some w)
  then have "P w" and "\<exists>i<length (rev (map f [0..<m])). w = rev (map f [0..<m]) ! i"
    unfolding find_Some_iff by blast+
  then have "w \<in> set (rev (map f [0..<m]))"
    by (metis nth_mem)
  then show ?thesis
    using Some assms(1) \<open>P w\<close> by auto
qed

lemma word_of_nat_eq_small: "a < 2 ^ 64 \<Longrightarrow> b < 2 ^ 64 \<Longrightarrow> (word_of_nat a :: u64) = word_of_nat b \<longleftrightarrow> a = b"
  by (simp add: word_of_nat_eq_iff take_bit_nat_eq_self)

lemma word_of_nat_le_small: "a < 2 ^ 64 \<Longrightarrow> b < 2 ^ 64 \<Longrightarrow> (word_of_nat a :: u64) \<le> word_of_nat b \<longleftrightarrow> a \<le> b"
  by (simp add: word_le_nat_alt unat_of_nat)

lemma upd_last:
  assumes "pos h j us = length us"
  shows "upd hdr h j us = last (hdr # us)"
proof (cases rule: high_cases [where h = h and i = j and us = us and hdr = hdr])
  case 1
  then show ?thesis
    using assms by simp
next
  case (2 c b)
  then have "length us = length c + 1 + length b"
    by (metis One_nat_def add.right_neutral add_Suc_right length_Cons length_append plus_1_eq_Suc add.assoc)
  then have "b = []"
    using assms 2(4) by simp
  then show ?thesis
    using 2(1) by (metis last.simps last_snoc snoc_eq_iff_butlast)
qed

section \<open>The node at a rank\<close>

lemma goes_rank:
  assumes inv: "zsl_inv cmp z xs" and short: "length xs < 2 ^ 32" and k: "k < 2 ^ 64"
  shows "goes z (\<lambda>n r'. Some (r' \<le> (word_of_nat k :: u64))) 0 (take k xs) (drop k xs)"
proof -
  have node: "\<exists>n. mem z y = Some n" if "y \<in> set xs" for y
    using zsl_inv_node [OF inv that] by metis
  have "\<exists>n. mem z y = Some n \<and> (word_of_nat (Suc (length a)) :: u64) \<le> word_of_nat k" if "take k xs = a @ y # b" for a y b
  proof -
    have "length (a @ y # b) \<le> k" "length (a @ y # b) \<le> length xs"
      using that [symmetric] by simp_all
    then have "Suc (length a) \<le> k" "Suc (length a) < 2 ^ 64"
      using k by simp_all
    moreover have "y \<in> set xs"
      using that by (metis in_set_conv_decomp in_set_takeD)
    ultimately show ?thesis
      using node k word_of_nat_le_small [of "Suc (length a)" k] by (simp del: of_nat_Suc)
  qed
  moreover have "\<exists>n. mem z y = Some n \<and> \<not> (word_of_nat (length (take k xs) + Suc (length a)) :: u64) \<le> word_of_nat k"
    if "drop k xs = a @ y # b" for a y b
  proof -
    have "length (drop k xs) = length (a @ y # b)"
      using that by simp
    then have "length (take k xs) + Suc (length a) \<le> length xs" "k < length (take k xs) + Suc (length a)"
      by simp_all
    moreover have "y \<in> set xs"
      using that by (metis in_set_conv_decomp in_set_dropD)
    ultimately show ?thesis
      using node k short word_of_nat_le_small [of "length (take k xs) + Suc (length a)" k] by simp
  qed
  ultimately show ?thesis
    unfolding goes_def by auto
qed

lemma zslGetElementByRank_spec:
  assumes inv: "zsl_inv cmp z xs" and short: "length xs < 2 ^ 32" and k: "k < 2 ^ 64"
  shows "zslGetElementByRank z (word_of_nat k) =
    Some (if k = 0 then Some (header z) else if k \<le> length xs then Some (xs ! (k - 1)) else None)"
proof -
  let ?us = "take k xs"
  let ?f = "\<lambda>j. (upd (header z) (ht z) j ?us, word_of_nat (pos (ht z) j ?us) :: u64)"
  have lv: "1 \<le> levels z"
    using inv by (simp add: zsl_inv_def levels_ok_def)
  have "search_down z (\<lambda>n r'. Some (r' \<le> word_of_nat k)) (levels z) (header z) (0 :: u64) = Some (map ?f [0..<levels z])"
    by (rule search_down_header [where vs = "drop k xs"]) (use inv short goes_rank [OF inv short k] in simp_all)
  then have run: "zslGetElementByRank z (word_of_nat k) =
      Some (map_option fst (find (\<lambda>(y, r'). r' = word_of_nat k) (rev (map ?f [0..<levels z]))))"
    unfolding zslGetElementByRank_def by (rule element_down_search)
  have pos: "(word_of_nat (pos (ht z) j ?us) :: u64) = word_of_nat k \<longleftrightarrow> pos (ht z) j ?us = k" for j
  proof -
    have "pos (ht z) j ?us < 2 ^ 64"
      using pos_le [of "ht z" j ?us] short by simp
    then show ?thesis
      using k by (rule word_of_nat_eq_small)
  qed
  show ?thesis
  proof (cases "k \<le> length xs")
    case False
    then have "pos (ht z) j ?us \<noteq> k" for j
      using pos_le [of "ht z" j ?us] by simp
    then show ?thesis
      using run pos False by (simp add: find_None_iff)
  next
    case True
    have top: "upd (header z) (ht z) j ?us = last (header z # ?us)" if "pos (ht z) j ?us = k" for j
      using that True by (intro upd_last) simp
    have "\<exists>w. find (\<lambda>(y, r'). r' = word_of_nat k) (rev (map ?f [0..<levels z])) = Some w \<and> fst w = last (header z # ?us)"
    proof (rule find_from_top)
      show "fst (?f j) = last (header z # ?us)" if "case ?f j of (y, r') \<Rightarrow> r' = word_of_nat k" for j
        using that top pos by simp
      have "0 < ht z y" if "y \<in> set ?us" for y
        using inv in_set_takeD [OF that] by (rule zsl_inv_node) simp
      then have "pos (ht z) 0 ?us = k"
        using True pos_all [of ?us 0 "ht z"] by simp
      then show "\<exists>j<levels z. case ?f j of (y, r') \<Rightarrow> r' = word_of_nat k"
        using lv by (intro exI [of _ 0]) simp
    qed
    moreover have "last (header z # ?us) = (if k = 0 then header z else xs ! (k - 1))"
      using True by (cases "k = 0") (auto simp: last_conv_nth min_def)
    ultimately show ?thesis
      using run True by auto
  qed
qed

section \<open>The rank of an entry\<close>

definition elem_le :: "('o \<Rightarrow> 'o \<Rightarrow> int) \<Rightarrow> 's :: linorder \<times> 'o \<Rightarrow> 's \<times> 'o \<Rightarrow> bool" where
  "elem_le cmp e e' \<longleftrightarrow> fst e < fst e' \<or> fst e = fst e' \<and> cmp (snd e) (snd e') \<le> 0"

lemma entry_le_elem:
  "mem z x = Some n \<Longrightarrow> obj n = Some ob \<Longrightarrow> entry_le cmp sc ob' n = Some (elem_le cmp (elem z x) (sc, ob'))"
  by (auto simp: entry_le_def elem_le_def elem_def)

lemma elem_less_le:
  assumes ok: "objects_ok cmp eq" and less: "elem_less cmp a b" and le: "elem_le cmp b c"
  shows "elem_less cmp a c"
proof -
  have "cmp (snd a) (snd c) < 0" if "cmp (snd a) (snd b) < 0" "cmp (snd b) (snd c) \<le> 0"
    using ok that le_less [of "cmp (snd b) (snd c)" 0] unfolding objects_ok_def by blast
  then show ?thesis
    using less le less_trans [of "fst a" "fst b" "fst c"] unfolding elem_less_def elem_le_def by auto
qed

lemma elem_less_imp_le: "elem_less cmp a b \<Longrightarrow> elem_le cmp a b"
  by (auto simp: elem_less_def elem_le_def)

text \<open>The list up to an entry, the entry included, and the rest.\<close>

definition upto :: "('o \<Rightarrow> 'o \<Rightarrow> int) \<Rightarrow> ('s :: linorder, 'o) zskiplist \<Rightarrow> 's \<times> 'o \<Rightarrow> nat list \<Rightarrow> nat list" where
  "upto cmp z e xs = takeWhile (\<lambda>x. elem_le cmp (elem z x) e) xs"

definition beyond :: "('o \<Rightarrow> 'o \<Rightarrow> int) \<Rightarrow> ('s :: linorder, 'o) zskiplist \<Rightarrow> 's \<times> 'o \<Rightarrow> nat list \<Rightarrow> nat list" where
  "beyond cmp z e xs = dropWhile (\<lambda>x. elem_le cmp (elem z x) e) xs"

lemma upto_beyond [simp]: "upto cmp z e xs @ beyond cmp z e xs = xs"
  by (simp add: upto_def beyond_def)

lemma beyond_not_le:
  assumes "objects_ok cmp eq" "sorted_wrt (elem_less cmp) (map (elem z) xs)" "x \<in> set (beyond cmp z e xs)"
  shows "\<not> elem_le cmp (elem z x) e"
  using assms(2,3)
proof (induction xs)
  case (Cons y ys)
  show ?case
  proof (cases "elem_le cmp (elem z y) e")
    case True
    then show ?thesis
      using Cons by (auto simp: beyond_def)
  next
    case False
    then have "x = y \<or> x \<in> set ys"
      using Cons.prems(2) by (simp add: beyond_def)
    then show ?thesis
    proof
      assume "x \<in> set ys"
      then have "elem_less cmp (elem z y) (elem z x)"
        using Cons.prems(1) by simp
      then show ?thesis
        using False elem_less_le [OF assms(1)] elem_less_imp_le by blast
    qed (use False in simp)
  qed
qed (simp add: beyond_def)

lemma goes_upto:
  assumes "objects_ok cmp eq" "zsl_inv cmp z xs"
  shows "goes z (\<lambda>n r. entry_le cmp sc ob n) r (upto cmp z (sc, ob) xs) (beyond cmp z (sc, ob) xs)"
proof -
  let ?us = "upto cmp z (sc, ob) xs" and ?vs = "beyond cmp z (sc, ob) xs"
  have in_xs: "x \<in> set xs" if "x \<in> set ?us \<or> x \<in> set ?vs" for x
    using that upto_beyond [of cmp z "(sc, ob)" xs] by (metis UnI1 UnI2 set_append)
  have le: "\<exists>n. mem z x = Some n \<and> entry_le cmp sc ob n = Some (elem_le cmp (elem z x) (sc, ob))" if "x \<in> set xs" for x
    using zsl_inv_node [OF assms(2) that] entry_le_elem by metis
  have sorted: "sorted_wrt (elem_less cmp) (map (elem z) xs)"
    using assms(2) by (simp add: zsl_inv_def)
  have "\<exists>n. mem z y = Some n \<and> entry_le cmp sc ob n = Some True" if "?us = a @ y # b" for a y b
  proof -
    have y: "y \<in> set ?us"
      using that by simp
    then have "elem_le cmp (elem z y) (sc, ob)"
      by (auto simp: upto_def dest: set_takeWhileD)
    then show ?thesis
      using le [of y] in_xs y by metis
  qed
  moreover have "\<exists>n. mem z y = Some n \<and> entry_le cmp sc ob n = Some False" if "?vs = a @ y # b" for a y b
  proof -
    have "y \<in> set ?vs"
      using that by simp
    then show ?thesis
      using le [of y] in_xs beyond_not_le [OF assms(1) sorted, of y "(sc, ob)"] by metis
  qed
  ultimately show ?thesis
    unfolding goes_def by blast
qed

text \<open>The rank of an entry is read off the highest level that ends at a node with its object.\<close>

lemma zslGetRank_find:
  assumes ok: "objects_ok cmp eq" and inv: "zsl_inv cmp z xs" and short: "length xs < 2 ^ 32"
    and us: "us = upto cmp z (sc, ob) xs"
  shows "zslGetRank cmp eq z sc ob =
    Some (case find (\<lambda>(y, r'). holds z eq ob y)
        (rev (map (\<lambda>j. (upd (header z) (ht z) j us, word_of_nat (pos (ht z) j us))) [0..<levels z])) of
      None \<Rightarrow> 0 | Some (y, r') \<Rightarrow> r')"
  unfolding zslGetRank_def
proof (rule rank_down_search)
  show "search_down z (\<lambda>n r. entry_le cmp sc ob n) (levels z) (header z) (0 :: u64) =
    Some (map (\<lambda>j. (upd (header z) (ht z) j us, word_of_nat (pos (ht z) j us))) [0..<levels z])"
    by (rule search_down_header [where vs = "beyond cmp z (sc, ob) xs"])
      (use inv short goes_upto [OF ok inv] in \<open>simp_all add: us\<close>)
  show "mem z y \<noteq> None"
    if w: "(y, r' :: u64) \<in> set (map (\<lambda>j. (upd (header z) (ht z) j us, word_of_nat (pos (ht z) j us))) [0..<levels z])" for y r'
  proof -
    obtain j where "y = upd (header z) (ht z) j us"
      using w by auto
    then have "y = header z \<or> y \<in> set us"
      using upd_in [of "header z" "ht z" j us] by auto
    then have "y \<in> insert (header z) (set xs)"
      using us by (auto simp: upto_def dest: set_takeWhileD)
    then show ?thesis
      using inv by (auto simp: zsl_inv_def)
  qed
qed

lemma holds_header: "zsl_inv cmp z xs \<Longrightarrow> \<not> holds z eq ob (header z)"
  by (auto simp: zsl_inv_def header_ok_def holds_def)

lemma holds_elem:
  assumes "zsl_inv cmp z xs" "y \<in> set xs"
  shows "holds z eq ob y \<longleftrightarrow> eq (snd (elem z y)) ob"
  by (rule zsl_inv_node [OF assms]) (simp add: holds_def)

lemma zslGetRank_absent:
  assumes ok: "objects_ok cmp eq" and inv: "zsl_inv cmp z xs" and short: "length xs < 2 ^ 32"
    and none: "\<And>y. y \<in> set (upto cmp z (sc, ob) xs) \<Longrightarrow> \<not> eq (snd (elem z y)) ob"
  shows "zslGetRank cmp eq z sc ob = Some 0"
proof -
  let ?us = "upto cmp z (sc, ob) xs"
  have "\<not> holds z eq ob (upd (header z) (ht z) j ?us)" for j
  proof (cases "upd (header z) (ht z) j ?us = header z")
    case False
    then have "upd (header z) (ht z) j ?us \<in> set ?us"
      using upd_in [of "header z" "ht z" j ?us] by blast
    moreover have "set ?us \<subseteq> set xs"
      by (auto simp: upto_def dest: set_takeWhileD)
    ultimately show ?thesis
      using none holds_elem [OF inv] by blast
  qed (use holds_header [OF inv] in simp)
  then have "find (\<lambda>(y, r'). holds z eq ob y)
        (rev (map (\<lambda>j. (upd (header z) (ht z) j ?us, word_of_nat (pos (ht z) j ?us) :: u64)) [0..<levels z])) = None"
    by (auto simp: find_None_iff)
  then show ?thesis
    using zslGetRank_find [OF ok inv short refl, of sc ob] by simp
qed

lemma zslGetRank_found:
  assumes ok: "objects_ok cmp eq" and inv: "zsl_inv cmp z xs" and short: "length xs < 2 ^ 32"
    and us: "upto cmp z (sc, ob) xs = us @ [x]" and x: "eq (snd (elem z x)) ob"
    and none: "\<And>y. y \<in> set us \<Longrightarrow> \<not> eq (snd (elem z y)) ob"
  shows "zslGetRank cmp eq z sc ob = Some (word_of_nat (Suc (length us)))"
proof -
  let ?f = "\<lambda>j. (upd (header z) (ht z) j (us @ [x]), word_of_nat (pos (ht z) j (us @ [x])) :: u64)"
  have lv: "1 \<le> levels z"
    using inv by (simp add: zsl_inv_def levels_ok_def)
  have "set (us @ [x]) \<subseteq> set xs"
    unfolding us [symmetric] by (auto simp: upto_def dest: set_takeWhileD)
  then have x_in: "x \<in> set xs" and us_in: "\<And>y. y \<in> set us \<Longrightarrow> y \<in> set xs"
    by auto
  have "0 < ht z x"
    using inv x_in by (rule zsl_inv_node) simp
  have high: "j < ht z x \<Longrightarrow> ?f j = (x, word_of_nat (Suc (length us)))" for j
    using upd_reach [of j "ht z" x "header z" us "[]"] pos_reach [of j "ht z" x us "[]"] by (simp add: upd_def)
  have only: "j < ht z x" if h: "holds z eq ob (upd (header z) (ht z) j (us @ [x]))" for j
  proof (rule ccontr)
    assume "\<not> j < ht z x"
    then have "upd (header z) (ht z) j (us @ [x]) = upd (header z) (ht z) j us"
      by (simp add: upd_def)
    then have "upd (header z) (ht z) j (us @ [x]) \<in> set us"
      using h holds_header [OF inv] upd_in [of "header z" "ht z" j us] by metis
    then show False
      using h holds_elem [OF inv us_in] none by blast
  qed
  have "\<exists>w. find (\<lambda>(y, r'). holds z eq ob y) (rev (map ?f [0..<levels z])) = Some w \<and>
      w = (x, word_of_nat (Suc (length us)))"
  proof (rule find_from_top [where g = "\<lambda>w. w"])
    show "?f j = (x, word_of_nat (Suc (length us)))" if "case ?f j of (y, r') \<Rightarrow> holds z eq ob y" for j
      using that only by (intro high) simp
    show "\<exists>j<levels z. case ?f j of (y, r') \<Rightarrow> holds z eq ob y"
      using lv high [OF \<open>0 < ht z x\<close>] holds_elem [OF inv x_in] x by (intro exI [of _ 0]) simp
  qed
  then show ?thesis
    using zslGetRank_find [OF ok inv short us [symmetric]] by simp
qed

section \<open>Creation and destruction\<close>

lemma zslCreate_inv:
  "\<exists>z. zslCreate zr (Some h) junk = Some z \<and> zsl_inv cmp z [] \<and> header z = h"
  by (simp add: zslCreate_def zslCreateNode_def zsl_inv_def header_ok_def levels_ok_def backs_ok_def last_of_def
      level_of_def link_at_def fwd_def gap_def ZSKIPLIST_MAXLEVEL_def)

lemma free_nodes_spec:
  assumes "\<And>x. x \<in> set xs \<Longrightarrow> m x = mem z x" "linked z h xs" "\<And>x. x \<in> set xs \<Longrightarrow> 0 < h x" "distinct xs"
  shows "free_nodes m (fwd h 0 xs) = Some xs"
  using assms
proof (induction xs arbitrary: m)
  case Nil
  then show ?case
    by (simp add: fwd_def free_nodes.simps)
next
  case (Cons x xs)
  have "level_of z x 0 = Some (link_at h 0 xs)"
    using Cons.prems(2,3) by simp
  then obtain n where n: "mem z x = Some n" "0 < room n" "level n 0 = link_at h 0 xs"
    by (auto simp: level_of_def split: option.splits if_splits)
  have "free_nodes (m(x := None)) (fwd h 0 xs) = Some xs"
    by (rule Cons.IH) (use Cons.prems in auto)
  then show ?case
    using n Cons.prems(1,3) by (simp add: free_nodes.simps [of m "Some x"])
qed

lemma zslFree_spec:
  assumes "zsl_inv cmp z xs"
  shows "zslFree z = Some (header z # xs)"
proof -
  note inv' = assms [unfolded zsl_inv_def]
  have "level_of z (header z) 0 = Some (link_at (ht z) 0 xs)"
    using inv' by (simp add: header_ok_def levels_ok_def)
  moreover have "free_nodes ((mem z)(header z := None)) (fwd (ht z) 0 xs) = Some xs"
  proof (rule free_nodes_spec)
    show "((mem z)(header z := None)) x = mem z x" if "x \<in> set xs" for x
      using that inv' by auto
    show "0 < ht z x" if "x \<in> set xs" for x
      using assms that by (rule zsl_inv_node) simp
  qed (use inv' in simp_all)
  ultimately show ?thesis
    by (simp add: zslFree_def)
qed

end
