(* ===== verification/Skip_Service.thy ===== *)
theory Skip_Service
  imports Skip_Rank Simulation
begin

text \<open>
  The skip list as its callers see it: a sorted sequence of entries at addresses. Any sequence of
  insertions, deletions and rank queries on a new list returns what it returns on the sequence.
\<close>

section \<open>Calls on a skip list\<close>

text \<open>
  An insertion comes with the address and the content of the memory it gets and with the values of
  \<^verbatim>\<open>random\<close>.
\<close>

datatype ('s, 'o) zsl_op =
  ZInsert nat "nat \<Rightarrow> zskiplistLevel" "nat option" "nat list" 's 'o
| ZDelete 's 'o
| ZRank 's 'o
| ZElement nat

datatype zsl_result = ZNode "nat option" | ZFlag int | ZPosition u64

fun run_zsl_op ::
  "('o \<Rightarrow> 'o \<Rightarrow> int) \<Rightarrow> ('o \<Rightarrow> 'o \<Rightarrow> bool) \<Rightarrow> ('s :: linorder, 'o) zsl_op \<Rightarrow> ('s, 'o) zskiplist \<Rightarrow>
   (zsl_result \<times> ('s, 'o) zskiplist) option" where
  "run_zsl_op cmp eq (ZInsert x junk junk_back rnd sc ob) z =
     map_option (\<lambda>(y, z'). (ZNode (Some y), z')) (zslInsert cmp (Some x) junk junk_back rnd z sc ob)"
| "run_zsl_op cmp eq (ZDelete sc ob) z = map_option (\<lambda>(f, z'). (ZFlag f, z')) (zslDelete cmp eq z sc ob)"
| "run_zsl_op cmp eq (ZRank sc ob) z = map_option (\<lambda>r. (ZPosition r, z)) (zslGetRank cmp eq z sc ob)"
| "run_zsl_op cmp eq (ZElement k) z = map_option (\<lambda>y. (ZNode y, z)) (zslGetElementByRank z (word_of_nat k))"

section \<open>The sorted sequence\<close>

text \<open>The header's address and the entries with theirs, in order.\<close>

type_synonym ('s, 'o) zseq = "nat \<times> (nat \<times> 's \<times> 'o) list"

definition same_entry :: "('o \<Rightarrow> 'o \<Rightarrow> bool) \<Rightarrow> 's \<times> 'o \<Rightarrow> 's \<times> 'o \<Rightarrow> bool" where
  "same_entry eq e e' \<longleftrightarrow> fst e' = fst e \<and> eq (snd e') (snd e)"

fun spec_zsl_op ::
  "('o \<Rightarrow> 'o \<Rightarrow> int) \<Rightarrow> ('o \<Rightarrow> 'o \<Rightarrow> bool) \<Rightarrow> ('s :: linorder, 'o) zsl_op \<Rightarrow> ('s, 'o) zseq \<Rightarrow>
   zsl_result \<times> ('s, 'o) zseq" where
  "spec_zsl_op cmp eq (ZInsert x junk junk_back rnd sc ob) (h, es) =
     (ZNode (Some x), h, takeWhile (\<lambda>p. elem_less cmp (snd p) (sc, ob)) es @
        (x, sc, ob) # dropWhile (\<lambda>p. elem_less cmp (snd p) (sc, ob)) es)"
| "spec_zsl_op cmp eq (ZDelete sc ob) (h, es) =
     (ZFlag (if \<exists>p\<in>set es. same_entry eq (sc, ob) (snd p) then 1 else 0), h,
      filter (\<lambda>p. \<not> same_entry eq (sc, ob) (snd p)) es)"
| "spec_zsl_op cmp eq (ZRank sc ob) (h, es) =
     (ZPosition (if \<exists>p\<in>set es. same_entry eq (sc, ob) (snd p)
        then word_of_nat (Suc (length (takeWhile (\<lambda>p. \<not> same_entry eq (sc, ob) (snd p)) es))) else 0), h, es)"
| "spec_zsl_op cmp eq (ZElement k) (h, es) =
     (ZNode (if k \<le> length es then Some (fst (es ! (k - 1))) else None), h, es)"

text \<open>
  What a caller has to see to: the memory is fresh, \<^verbatim>\<open>random\<close> ends the loop, the entry is new, the
  list keeps below \<open>2 ^ 32\<close> entries, ranks are asked of objects that have no smaller score in the
  list, and ranks are 1-based.
\<close>

fun zsl_ready :: "('o \<Rightarrow> 'o \<Rightarrow> bool) \<Rightarrow> ('s :: linorder, 'o) zsl_op \<Rightarrow> ('s, 'o) zseq \<Rightarrow> bool" where
  "zsl_ready eq (ZInsert x junk junk_back rnd sc ob) (h, es) =
     (x \<noteq> h \<and> x \<notin> fst ` set es \<and> zslRandomLevel 1 rnd \<noteq> None \<and> Suc (length es) < 2 ^ 32 \<and>
      (\<forall>p\<in>set es. \<not> same_entry eq (sc, ob) (snd p)))"
| "zsl_ready eq (ZDelete sc ob) (h, es) = True"
| "zsl_ready eq (ZRank sc ob) (h, es) = (\<forall>p\<in>set es. eq (snd (snd p)) ob \<longrightarrow> sc \<le> fst (snd p))"
| "zsl_ready eq (ZElement k) (h, es) = (1 \<le> k \<and> k < 2 ^ 64)"

definition entries :: "('s, 'o) zskiplist \<Rightarrow> nat list \<Rightarrow> (nat \<times> 's \<times> 'o) list" where
  "entries z xs = map (\<lambda>x. (x, elem z x)) xs"

definition zsl_rel ::
  "('o \<Rightarrow> 'o \<Rightarrow> int) \<Rightarrow> ('o \<Rightarrow> 'o \<Rightarrow> bool) \<Rightarrow> ('s :: linorder, 'o) zskiplist \<Rightarrow> ('s, 'o) zseq \<Rightarrow> bool" where
  "zsl_rel cmp eq z a \<longleftrightarrow> objects_ok cmp eq \<and> header z = fst a \<and> zsl_inv cmp z (map fst (snd a)) \<and>
     snd a = entries z (map fst (snd a)) \<and> length (snd a) < 2 ^ 32"

lemma zsl_relI:
  "objects_ok cmp eq \<Longrightarrow> zsl_inv cmp z xs \<Longrightarrow> length xs < 2 ^ 32 \<Longrightarrow> zsl_rel cmp eq z (header z, entries z xs)"
  by (simp add: zsl_rel_def entries_def o_def)

lemma zsl_relE:
  assumes "zsl_rel cmp eq z (h, es)"
  obtains xs where "objects_ok cmp eq" "zsl_inv cmp z xs" "header z = h" "es = entries z xs" "length xs < 2 ^ 32"
  using assms that [of "map fst es"] by (simp add: zsl_rel_def)

lemma entries_simps [simp]:
  "entries z [] = []" "entries z (x # xs) = (x, elem z x) # entries z xs" "entries z (xs @ ys) = entries z xs @ entries z ys"
  "length (entries z xs) = length xs" "map fst (entries z xs) = xs" "fst ` set (entries z xs) = set xs"
  by (simp_all add: entries_def o_def image_image)

lemma entries_cong: "(\<And>x. x \<in> set xs \<Longrightarrow> elem z' x = elem z x) \<Longrightarrow> entries z' xs = entries z xs"
  by (simp add: entries_def)

lemma takeWhile_entries: "takeWhile (\<lambda>p. Q (snd p)) (entries z xs) = entries z (takeWhile (\<lambda>x. Q (elem z x)) xs)"
  by (simp add: entries_def takeWhile_map o_def)

lemma dropWhile_entries: "dropWhile (\<lambda>p. Q (snd p)) (entries z xs) = entries z (dropWhile (\<lambda>x. Q (elem z x)) xs)"
  by (simp add: entries_def dropWhile_map o_def)

lemma ex_entries: "(\<exists>p\<in>set (entries z xs). Q (snd p)) \<longleftrightarrow> (\<exists>x\<in>set xs. Q (elem z x))"
  by (simp add: entries_def)

lemma all_entries: "(\<forall>p\<in>set (entries z xs). Q (snd p)) \<longleftrightarrow> (\<forall>x\<in>set xs. Q (elem z x))"
  by (simp add: entries_def)

section \<open>The position of an entry\<close>

text \<open>An entry that is in the list splits it into those before and those after.\<close>

lemma cmp_zero:
  assumes "objects_ok cmp eq"
  shows "eq a b \<longleftrightarrow> cmp a b = 0" "cmp a b = 0 \<Longrightarrow> cmp b a = 0"
    "cmp a b < 0 \<Longrightarrow> \<not> cmp b a < 0" "cmp a b < 0 \<or> cmp b a < 0 \<or> cmp a b = 0"
  using assms unfolding objects_ok_def by (metis less_imp_not_less linorder_neqE)+

lemma present_split:
  assumes ok: "objects_ok cmp eq" and inv: "zsl_inv cmp z xs" and x: "x \<in> set xs" "same_entry eq e (elem z x)"
  obtains us ws where "xs = us @ x # ws" "before cmp z e xs = us" "after cmp z e xs = x # ws" "upto cmp z e xs = us @ [x]"
    "\<And>y. y \<in> set us \<Longrightarrow> elem_less cmp (elem z y) e" "\<And>y. y \<in> set ws \<Longrightarrow> \<not> elem_le cmp (elem z y) e"
proof -
  obtain us ws where xs: "xs = us @ x # ws"
    using x(1) by (meson split_list)
  have sorted: "sorted_wrt (elem_less cmp) (map (elem z) xs)"
    using inv by (simp add: zsl_inv_def)
  have le: "elem_le cmp (elem z x) e" "\<not> elem_less cmp (elem z x) e"
    using x(2) cmp_zero(1) [OF ok] by (simp_all add: same_entry_def elem_le_def elem_less_def)
  have us: "elem_less cmp (elem z y) e" if "y \<in> set us" for y
    using sorted that elem_less_le [OF ok _ le(1)] by (simp add: xs sorted_wrt_append)
  have ws: "\<not> elem_le cmp (elem z y) e" if "y \<in> set ws" for y
  proof
    assume "elem_le cmp (elem z y) e"
    moreover have "elem_less cmp (elem z x) (elem z y)"
      using sorted that by (simp add: xs sorted_wrt_append)
    ultimately show False
      using le(2) elem_less_le [OF ok] by blast
  qed
  have "before cmp z e xs = us" "after cmp z e xs = x # ws"
    using us le(2) by (simp_all add: before_def after_def xs takeWhile_append2 dropWhile_append2)
  moreover have "upto cmp z e xs = us @ [x]"
  proof -
    have "elem_le cmp (elem z y) e" if "y \<in> set us" for y
      using us [OF that] by (rule elem_less_imp_le)
    moreover have "takeWhile (\<lambda>y. elem_le cmp (elem z y) e) ws = []"
      using ws by (cases ws) simp_all
    ultimately show ?thesis
      using le(1) by (simp add: upto_def xs takeWhile_append2)
  qed
  ultimately show thesis
    using that xs us ws by blast
qed

text \<open>An entry that is not there: every entry is before it or after it.\<close>

lemma absent_less:
  assumes "objects_ok cmp eq" "\<not> same_entry eq e e'"
  shows "elem_less cmp e' e \<or> elem_less cmp e e'"
  using assms(2) cmp_zero(1,2,4) [OF assms(1)] unfolding same_entry_def elem_less_def
  by (metis linorder_neqE)

section \<open>One call\<close>

lemma insert_simulates:
  assumes rel: "zsl_rel cmp eq z (h, es)" and ready: "zsl_ready eq (ZInsert x junk junk_back rnd sc ob) (h, es)"
    and spec: "spec_zsl_op cmp eq (ZInsert x junk junk_back rnd sc ob) (h, es) = (r, a')"
  shows "\<exists>z'. run_zsl_op cmp eq (ZInsert x junk junk_back rnd sc ob) z = Some (r, z') \<and> zsl_rel cmp eq z' a'"
proof -
  obtain xs where ok: "objects_ok cmp eq" and inv: "zsl_inv cmp z xs" and h: "header z = h" and es: "es = entries z xs"
    using rel by (rule zsl_relE)
  let ?us = "before cmp z (sc, ob) xs" and ?vs = "after cmp z (sc, ob) xs"
  obtain lvl where lvl: "zslRandomLevel 1 rnd = Some lvl"
    using ready by auto
  have new: "mem z x = None"
    using inv ready h es unfolding zsl_inv_def by auto
  have fresh: "elem_less cmp (elem z y) (sc, ob) \<or> elem_less cmp (sc, ob) (elem z y)" if "y \<in> set xs" for y
  proof -
    have "\<not> same_entry eq (sc, ob) (elem z y)"
      using ready that by (auto simp: es entries_def)
    then show ?thesis
      by (rule absent_less [OF ok])
  qed
  obtain z' where z': "zslInsert cmp (Some x) junk junk_back rnd z sc ob = Some (x, z')"
    "zsl_inv cmp z' (?us @ x # ?vs)" "elem z' x = (sc, ob)" "\<forall>y\<in>set xs. elem z' y = elem z y" "header z' = header z"
    using zslInsert_inv [OF ok inv new lvl fresh refl refl] by blast
  have parts: "set ?us \<subseteq> set xs" "set ?vs \<subseteq> set xs"
    by (auto simp: before_def after_def dest: set_takeWhileD set_dropWhileD)
  then have same: "entries z' ?us = entries z ?us" "entries z' ?vs = entries z ?vs"
    using z'(4) by (intro entries_cong; blast)+
  have "a' = (header z', entries z' (?us @ x # ?vs))" "r = ZNode (Some x)"
    using spec h same z'(3,5)
    by (simp_all add: es takeWhile_entries [of "\<lambda>e. elem_less cmp e (sc, ob)"]
        dropWhile_entries [of "\<lambda>e. elem_less cmp e (sc, ob)"] before_def after_def)
  moreover have "length (?us @ x # ?vs) < 2 ^ 32"
  proof -
    have "length ?us + length ?vs = length xs"
      by (metis before_after length_append)
    then show ?thesis
      using ready by (simp add: es)
  qed
  ultimately show ?thesis
    using z'(1) zsl_relI [OF ok z'(2)] by simp
qed

lemma delete_simulates:
  assumes rel: "zsl_rel cmp eq z (h, es)" and spec: "spec_zsl_op cmp eq (ZDelete sc ob) (h, es) = (r, a')"
  shows "\<exists>z'. run_zsl_op cmp eq (ZDelete sc ob) z = Some (r, z') \<and> zsl_rel cmp eq z' a'"
proof -
  obtain xs where ok: "objects_ok cmp eq" and inv: "zsl_inv cmp z xs" and h: "header z = h" and es: "es = entries z xs"
    and short: "length xs < 2 ^ 32"
    using rel by (rule zsl_relE)
  show ?thesis
  proof (cases "\<exists>x\<in>set xs. same_entry eq (sc, ob) (elem z x)")
    case False
    then have "filter (\<lambda>p. \<not> same_entry eq (sc, ob) (snd p)) es = es" "r = ZFlag 0"
      using spec by (auto simp: es entries_def)
    moreover have "zslDelete cmp eq z sc ob = Some (0, z)"
      using False by (intro zslDelete_absent [OF ok inv]) (auto simp: same_entry_def)
    ultimately show ?thesis
      using spec rel by simp
  next
    case True
    then obtain x where x: "x \<in> set xs" "same_entry eq (sc, ob) (elem z x)"
      by blast
    obtain us ws where xs: "xs = us @ x # ws" "before cmp z (sc, ob) xs = us" "after cmp z (sc, ob) xs = x # ws"
      and us: "\<And>y. y \<in> set us \<Longrightarrow> elem_less cmp (elem z y) (sc, ob)"
      and ws: "\<And>y. y \<in> set ws \<Longrightarrow> \<not> elem_le cmp (elem z y) (sc, ob)"
      by (rule present_split [OF ok inv x]) metis
    obtain z' where z': "zslDelete cmp eq z sc ob = Some (1, z')" "zsl_inv cmp z' (us @ ws)"
      "\<forall>y\<in>set (us @ ws). elem z' y = elem z y" "header z' = header z"
      using zslDelete_inv [OF ok inv xs(2) [symmetric] xs(3)] x(2) by (auto simp: same_entry_def)
    have other: "\<not> same_entry eq (sc, ob) (elem z y)" if "y \<in> set (us @ ws)" for y
      using that us [of y] ws [of y] cmp_zero(1) [OF ok] by (auto simp: same_entry_def elem_less_def elem_le_def)
    have "filter (\<lambda>p. \<not> same_entry eq (sc, ob) (snd p)) es = entries z (us @ ws)"
      using other x(2) by (simp add: es xs(1)) (simp add: entries_def)
    also have "\<dots> = entries z' (us @ ws)"
      using z'(3) by (intro entries_cong [symmetric]) simp
    finally have "filter (\<lambda>p. \<not> same_entry eq (sc, ob) (snd p)) es = entries z' (us @ ws)" .
    moreover have "header z' = h"
      using z'(4) h by simp
    moreover have "\<exists>p\<in>set es. same_entry eq (sc, ob) (snd p)"
      using True by (simp add: es ex_entries)
    ultimately have "r = ZFlag 1" "a' = (header z', entries z' (us @ ws))"
      using spec by simp_all
    then show ?thesis
      using z'(1) zsl_relI [OF ok z'(2)] short by (simp add: xs(1))
  qed
qed

lemma rank_simulates:
  assumes rel: "zsl_rel cmp eq z (h, es)" and ready: "zsl_ready eq (ZRank sc ob) (h, es)"
    and spec: "spec_zsl_op cmp eq (ZRank sc ob) (h, es) = (r, a')"
  shows "\<exists>z'. run_zsl_op cmp eq (ZRank sc ob) z = Some (r, z') \<and> zsl_rel cmp eq z' a'"
proof -
  obtain xs where ok: "objects_ok cmp eq" and inv: "zsl_inv cmp z xs" and h: "header z = h" and es: "es = entries z xs"
    and short: "length xs < 2 ^ 32"
    using rel by (rule zsl_relE)
  have no_less: "sc \<le> fst (elem z y)" if "y \<in> set xs" "eq (snd (elem z y)) ob" for y
    using ready that by (auto simp: es entries_def)
  show ?thesis
  proof (cases "\<exists>x\<in>set xs. same_entry eq (sc, ob) (elem z x)")
    case False
    have "\<not> eq (snd (elem z y)) ob" if "y \<in> set (upto cmp z (sc, ob) xs)" for y
    proof
      assume eq: "eq (snd (elem z y)) ob"
      have y: "y \<in> set xs" "elem_le cmp (elem z y) (sc, ob)"
        using that by (auto simp: upto_def dest: set_takeWhileD)
      then have "fst (elem z y) = sc"
        using no_less [OF y(1) eq] by (auto simp: elem_le_def)
      then show False
        using False y(1) eq by (auto simp: same_entry_def)
    qed
    then have "zslGetRank cmp eq z sc ob = Some 0"
      by (rule zslGetRank_absent [OF ok inv short])
    moreover have "r = ZPosition 0" "a' = (h, es)"
      using spec False by (auto simp: es entries_def)
    ultimately show ?thesis
      using rel by simp
  next
    case True
    then obtain x where x: "x \<in> set xs" "same_entry eq (sc, ob) (elem z x)"
      by blast
    obtain us ws where xs: "xs = us @ x # ws" "upto cmp z (sc, ob) xs = us @ [x]"
      and us: "\<And>y. y \<in> set us \<Longrightarrow> elem_less cmp (elem z y) (sc, ob)"
      by (rule present_split [OF ok inv x]) metis
    have "\<not> eq (snd (elem z y)) ob" if "y \<in> set us" for y
      using us [OF that] no_less [of y] that cmp_zero(1) [OF ok] by (auto simp: xs(1) elem_less_def)
    then have run: "zslGetRank cmp eq z sc ob = Some (word_of_nat (Suc (length us)))"
      using zslGetRank_found [OF ok inv short xs(2)] x(2) by (simp add: same_entry_def)
    have "\<not> same_entry eq (sc, ob) (elem z y)" if "y \<in> set us" for y
      using us [OF that] cmp_zero(1) [OF ok] by (auto simp: same_entry_def elem_less_def)
    then have "takeWhile (\<lambda>y. \<not> same_entry eq (sc, ob) (elem z y)) xs = us"
      using x(2) by (simp add: xs(1) takeWhile_append2)
    then have "takeWhile (\<lambda>p. \<not> same_entry eq (sc, ob) (snd p)) es = entries z us"
      by (simp add: es takeWhile_entries [of "\<lambda>e. \<not> same_entry eq (sc, ob) e"])
    moreover have "\<exists>p\<in>set es. same_entry eq (sc, ob) (snd p)"
      using True by (simp add: es ex_entries)
    ultimately have "r = ZPosition (word_of_nat (Suc (length us)))" "a' = (h, es)"
      using spec by simp_all
    then show ?thesis
      using run rel by simp
  qed
qed

lemma element_simulates:
  assumes rel: "zsl_rel cmp eq z (h, es)" and ready: "zsl_ready eq (ZElement k) (h, es)"
    and spec: "spec_zsl_op cmp eq (ZElement k) (h, es) = (r, a')"
  shows "\<exists>z'. run_zsl_op cmp eq (ZElement k) z = Some (r, z') \<and> zsl_rel cmp eq z' a'"
proof -
  obtain xs where inv: "zsl_inv cmp z xs" and es: "es = entries z xs" and short: "length xs < 2 ^ 32"
    using rel by (rule zsl_relE)
  have "fst (es ! (k - 1)) = xs ! (k - 1)" if "k \<le> length xs"
  proof -
    have "k - 1 < length xs"
      using that ready by (simp only: zsl_ready.simps) linarith
    then show ?thesis
      by (simp only: es entries_def nth_map fst_conv)
  qed
  then show ?thesis
    using zslGetElementByRank_spec [OF inv short, of k] ready spec rel by (auto simp: es split: if_splits)
qed

interpretation zsl: simulated "run_zsl_op cmp eq" "spec_zsl_op cmp eq" "zsl_ready eq" "zsl_rel cmp eq"
  for cmp :: "'o \<Rightarrow> 'o \<Rightarrow> int" and eq :: "'o \<Rightarrow> 'o \<Rightarrow> bool"
proof unfold_locales
  fix z :: "('s :: linorder, 'o) zskiplist" and a c
  assume assms: "zsl_rel cmp eq z a" "zsl_ready eq c a"
  obtain h es where a: "a = (h, es)"
    by (cases a)
  obtain r a' where spec: "spec_zsl_op cmp eq c (h, es) = (r, a')"
    by (cases "spec_zsl_op cmp eq c (h, es)")
  have "\<exists>z'. run_zsl_op cmp eq c z = Some (r, z') \<and> zsl_rel cmp eq z' a'"
  proof (cases c)
    case (ZInsert x1 x2 x3 x4 x5 x6)
    then show ?thesis
      using assms spec insert_simulates unfolding a by metis
  next
    case (ZDelete x1 x2)
    then show ?thesis
      using assms spec delete_simulates unfolding a by metis
  next
    case (ZRank x1 x2)
    then show ?thesis
      using assms spec rank_simulates unfolding a by metis
  next
    case (ZElement x)
    then show ?thesis
      using assms spec element_simulates unfolding a by metis
  qed
  then show "\<exists>z'. run_zsl_op cmp eq c z = Some (fst (spec_zsl_op cmp eq c a), z') \<and>
      zsl_rel cmp eq z' (snd (spec_zsl_op cmp eq c a))"
    using spec a by simp
qed

text \<open>The nodes up to an entry, when the nodes around it are known.\<close>

lemma upto_at:
  assumes ok: "objects_ok cmp eq" and inv: "zsl_inv cmp z (us @ x # ws)" and x_le: "elem_le cmp (elem z x) e"
    and after_x: "\<And>y. y \<in> set ws \<Longrightarrow> elem_less cmp e (elem z y)"
  shows "upto cmp z e (us @ x # ws) = us @ [x]"
proof -
  have irrefl: "\<not> (elem_less cmp a b \<and> elem_le cmp b a)" for a b
    using elem_less_le [OF ok, of a b a] cmp_zero(3) [OF ok, of "snd a" "snd a"] by (auto simp: elem_less_def)
  have before_x: "elem_le cmp (elem z y) e" if "y \<in> set us" for y
  proof -
    have "sorted_wrt (elem_less cmp) (map (elem z) (us @ x # ws))"
      using inv by (simp add: zsl_inv_def)
    then have "elem_less cmp (elem z y) (elem z x)"
      using that unfolding map_append list.map(2) sorted_wrt_append by auto
    then show ?thesis
      using elem_less_le [OF ok _ x_le] elem_less_imp_le by blast
  qed
  have "takeWhile (\<lambda>y. elem_le cmp (elem z y) e) ws = []"
  proof (cases ws)
    case (Cons w ws')
    then show ?thesis
      using after_x [of w] irrefl [of e "elem z w"] by simp
  qed simp
  then show ?thesis
    unfolding upto_def using before_x x_le by (subst takeWhile_append2) auto
qed

section \<open>Properties\<close>

text \<open>A list with two entries for the concrete instances.\<close>

definition demo_cmp :: "int \<Rightarrow> int \<Rightarrow> int" where
  "demo_cmp a b = a - b"

definition demo_junk :: "nat \<Rightarrow> zskiplistLevel" where
  "demo_junk i = \<lparr>forward = Some 77, zspan = 7\<rparr>"

definition demo_calls :: "(int, int) zsl_op list" where
  "demo_calls = [ZInsert 101 demo_junk None [0, 7, 65535] 3 30, ZInsert 102 demo_junk None [20000] 1 10]"

lemma demo_objects: "objects_ok demo_cmp (=)"
  by (simp add: objects_ok_def demo_cmp_def)

lemma new_list:
  assumes "objects_ok cmp eq"
  obtains z where "zslCreate zr (Some h) junk = Some z" "zsl_rel cmp eq z (h, [])"
  using zslCreate_inv [of zr h junk cmp] zsl_relI [OF assms, of _ "[]"] by fastforce

lemma demo_list:
  obtains z :: "(int, int) zskiplist" where "zsl_rel demo_cmp (=) z (100, [(102, 1, 10), (101, 3, 30)])"
proof -
  obtain z0 :: "(int, int) zskiplist" where z0: "zsl_rel demo_cmp (=) z0 (100, [])"
    by (rule new_list [OF demo_objects])
  have ready: "ready_steps (zsl_ready (=)) (spec_zsl_op demo_cmp (=)) demo_calls (100, [])"
    by (simp add: demo_calls_def elem_less_def same_entry_def)
  have "snd (spec_steps (spec_zsl_op demo_cmp (=)) demo_calls (100, [])) = (100, [(102, 1, 10), (101, 3, 30)])"
    by (simp add: demo_calls_def elem_less_def)
  then show thesis
    using zsl.steps_simulate [OF z0 ready] that by auto
qed

text \<open>C10: whatever sequence of insertions, deletions and rank queries follows the creation of a skip
  list, each call returns, and with what it gives on a sequence of entries sorted by score and
  object; the list holds that sequence at the end.\<close>

theorem zsl_implements_sorted_list:
  fixes z :: "('s :: linorder, 'o) zskiplist"
  assumes "objects_ok cmp eq" "zslCreate zr (Some h) junk = Some z"
    and "ready_steps (zsl_ready eq) (spec_zsl_op cmp eq) cs (h, [])"
    and "spec_steps (spec_zsl_op cmp eq) cs (h, []) = (rs, h, es)"
  shows "\<exists>z' xs. run_steps (run_zsl_op cmp eq) cs z = Some (rs, z') \<and> zsl_inv cmp z' xs \<and>
    es = map (\<lambda>x. (x, elem z' x)) xs \<and> unat (len z') = length es"
proof -
  obtain z0 where z0: "zslCreate zr (Some h) junk = Some z0" "zsl_rel cmp eq z0 (h, [])"
    by (rule new_list [OF assms(1)])
  then obtain z' where z': "run_steps (run_zsl_op cmp eq) cs z = Some (rs, z')" "zsl_rel cmp eq z' (h, es)"
    using zsl.steps_simulate [OF z0(2) assms(3)] assms(2,4) by auto
  from z'(2) obtain xs where "zsl_inv cmp z' xs" "es = entries z' xs" "length xs < 2 ^ 32"
    by (rule zsl_relE)
  then show ?thesis
    using z'(1) by (intro exI [of _ z'] exI [of _ xs]) (simp add: entries_def zsl_inv_def unat_of_nat)
qed

lemma zsl_implements_sorted_list_witness:
  "\<exists>z z'. zslCreate (0 :: int) (Some 100) demo_junk = Some z \<and>
    run_steps (run_zsl_op demo_cmp (=)) (demo_calls @ [ZRank 3 30, ZDelete 1 10, ZElement 1, ZElement 2]) z =
      Some ([ZNode (Some 101), ZNode (Some 102), ZPosition 2, ZFlag 1, ZNode (Some 101), ZNode None], z')"
proof -
  obtain z :: "(int, int) zskiplist" where z: "zslCreate 0 (Some 100) demo_junk = Some z"
    by (rule new_list [OF demo_objects])
  show ?thesis
    using zsl_implements_sorted_list [OF demo_objects z,
        of "demo_calls @ [ZRank 3 30, ZDelete 1 10, ZElement 1, ZElement 2]"
           "[ZNode (Some 101), ZNode (Some 102), ZPosition 2, ZFlag 1, ZNode (Some 101), ZNode None]"] z
    by (simp add: demo_calls_def elem_less_def same_entry_def) blast
qed

text \<open>C11: the rank of an entry leads back to it: \<open>zslGetRank\<close> gives its 1-based position, and
  \<open>zslGetElementByRank\<close> at that position gives its node.\<close>

theorem zsl_rank_roundtrip:
  fixes z :: "('s :: linorder, 'o) zskiplist"
  assumes "zsl_rel cmp eq z (h, es)" "i < length es" "es ! i = (x, sc, ob)"
    and "\<forall>p\<in>set es. eq (snd (snd p)) ob \<longrightarrow> sc \<le> fst (snd p)"
  shows "zslGetRank cmp eq z sc ob = Some (word_of_nat (Suc i)) \<and>
    zslGetElementByRank z (word_of_nat (Suc i)) = Some (Some x)"
proof -
  obtain xs where ok: "objects_ok cmp eq" and inv: "zsl_inv cmp z xs" and es: "es = entries z xs"
    and short: "length xs < 2 ^ 32"
    using assms(1) by (rule zsl_relE)
  have i: "i < length xs" "xs ! i = x" "elem z x = (sc, ob)"
    using assms(2,3) by (auto simp: es entries_def)
  then have x: "x \<in> set xs" "same_entry eq (sc, ob) (elem z x)"
    using cmp_zero [OF ok, of ob ob] by (auto simp: same_entry_def)
  obtain us ws where xs: "xs = us @ x # ws" "upto cmp z (sc, ob) xs = us @ [x]"
    and us: "\<And>y. y \<in> set us \<Longrightarrow> elem_less cmp (elem z y) (sc, ob)"
    by (rule present_split [OF ok inv x]) metis
  have "distinct xs"
    using inv by (simp add: zsl_inv_def)
  then have "i = length us"
    using i(1,2) xs(1) nth_eq_iff_index_eq [of xs i "length us"] by simp
  have "\<not> eq (snd (elem z y)) ob" if "y \<in> set us" for y
  proof
    assume eq: "eq (snd (elem z y)) ob"
    have "(y, elem z y) \<in> set es"
      using that by (simp add: es entries_def xs(1))
    then have "sc \<le> fst (elem z y)"
      using assms(4) eq by fastforce
    then show False
      using us [OF that] eq cmp_zero(1) [OF ok] by (auto simp: elem_less_def)
  qed
  then have "zslGetRank cmp eq z sc ob = Some (word_of_nat (Suc i))"
    using zslGetRank_found [OF ok inv short xs(2)] x(2) \<open>i = length us\<close> by (simp add: same_entry_def)
  then show ?thesis
    using zslGetElementByRank_spec [OF inv short, of "Suc i"] i short by simp
qed

lemma zsl_rank_roundtrip_witness:
  "\<exists>z :: (int, int) zskiplist. zslGetRank demo_cmp (=) z 3 30 = Some 2 \<and> zslGetElementByRank z 2 = Some (Some 101)"
proof -
  obtain z :: "(int, int) zskiplist" where "zsl_rel demo_cmp (=) z (100, [(102, 1, 10), (101, 3, 30)])"
    by (rule demo_list)
  from zsl_rank_roundtrip [OF this, of 1 101 3 30] show ?thesis
    by auto
qed

text \<open>C37: \<open>zslFree\<close> gives back the header and every node of the list, each exactly once.\<close>

theorem zsl_free_releases_all:
  fixes z :: "('s :: linorder, 'o) zskiplist"
  assumes "zsl_rel cmp eq z (h, es)"
  shows "\<exists>freed. zslFree z = Some freed \<and> distinct freed \<and> set freed = dom (mem z) \<and> freed = h # map fst es"
proof -
  obtain xs where "zsl_inv cmp z xs" "header z = h" "es = entries z xs"
    using assms by (rule zsl_relE)
  then show ?thesis
    using zslFree_spec [of cmp z xs] by (auto simp: zsl_inv_def)
qed

lemma zsl_free_releases_all_witness: "\<exists>z :: (int, int) zskiplist. zslFree z = Some [100, 102, 101]"
proof -
  obtain z :: "(int, int) zskiplist" where "zsl_rel demo_cmp (=) z (100, [(102, 1, 10), (101, 3, 30)])"
    by (rule demo_list)
  from zsl_free_releases_all [OF this] show ?thesis
    by auto
qed

text \<open>The level of a new node is one more than the number of values of \<open>random\<close> in a row whose
  low 16 bits are below 16383.75, and at most 32.\<close>

theorem zslRandomLevel_exact:
  assumes "\<exists>r\<in>set rnd. 65535 \<le> 4 * (r mod 65536)"
  shows "zslRandomLevel 1 rnd = Some (min 32 (Suc (length (takeWhile (\<lambda>r. 4 * (r mod 65536) < 65535) rnd))))"
proof -
  have "zslRandomLevel l rnd = Some (min 32 (l + length (takeWhile (\<lambda>r. 4 * (r mod 65536) < 65535) rnd)))" for l
    using assms
  proof (induction rnd arbitrary: l)
    case (Cons r rs)
    show ?case
    proof (cases "4 * (r mod 65536) < 65535")
      case True
      then have "\<exists>r\<in>set rs. 65535 \<le> 4 * (r mod 65536)"
        using Cons.prems by auto
      then show ?thesis
        using Cons.IH [of "Suc l"] True by simp
    qed (simp add: ZSKIPLIST_MAXLEVEL_def min_def)
  qed simp
  then show ?thesis
    by simp
qed

lemma zslRandomLevel_exact_witness: "zslRandomLevel 1 [5, 65536 + 16383, 16384] = Some 3"
  using zslRandomLevel_exact [of "[5, 65536 + 16383, 16384]"] by simp

text \<open>C40: the rank of an entry that is not in the list need not be 0: an entry with the same object
  and a smaller score, if no entry stands between, answers for it with its own rank.\<close>

theorem zslGetRank_wrong_score:
  fixes z :: "('s :: linorder, 'o) zskiplist"
  assumes "zsl_rel cmp eq z (h, as @ (x, sc', ob') # bs)" "eq ob' ob" "sc' < sc"
    and "\<forall>p\<in>set bs. elem_less cmp (sc, ob) (snd p)" "\<forall>p\<in>set as. \<not> eq (snd (snd p)) ob"
  shows "\<not> (\<exists>p\<in>set (as @ (x, sc', ob') # bs). same_entry eq (sc, ob) (snd p)) \<and>
    zslGetRank cmp eq z sc ob = Some (word_of_nat (Suc (length as)))"
proof -
  obtain xs where ok: "objects_ok cmp eq" and inv: "zsl_inv cmp z xs" and short: "length xs < 2 ^ 32"
    and es: "as @ (x, sc', ob') # bs = entries z xs"
    using assms(1) by (rule zsl_relE)
  let ?us = "map fst as" and ?ws = "map fst bs"
  have xs: "xs = ?us @ x # ?ws"
    using arg_cong [OF es, of "map fst"] by simp
  have parts: "as = entries z ?us" "elem z x = (sc', ob')" "bs = entries z ?ws"
    using es by (simp_all add: xs)
  have x_le: "elem_le cmp (elem z x) (sc, ob)"
    using assms(3) by (simp add: parts(2) elem_le_def)
  have after_x: "elem_less cmp (sc, ob) (elem z y)" if "y \<in> set ?ws" for y
    using assms(4) that by (subst (asm) parts(3)) (auto simp: entries_def)
  have upto: "upto cmp z (sc, ob) xs = ?us @ [x]"
    using upto_at [OF ok _ x_le after_x] inv unfolding xs by blast
  have "\<not> eq (snd (elem z y)) ob" if "y \<in> set ?us" for y
    using assms(5) that by (subst (asm) parts(1)) (auto simp: entries_def)
  then have "zslGetRank cmp eq z sc ob = Some (word_of_nat (Suc (length as)))"
    using zslGetRank_found [OF ok inv short upto] assms(2) parts(2) by simp
  moreover have "\<not> same_entry eq (sc, ob) (snd p)" if "p \<in> set bs" for p
    using assms(4) that cmp_zero(1,2) [OF ok] by (auto simp: same_entry_def elem_less_def)
  ultimately show ?thesis
    using assms(3,5) by (auto simp: same_entry_def)
qed

lemma zslGetRank_wrong_score_witness: "\<exists>z :: (int, int) zskiplist. zslGetRank demo_cmp (=) z 5 30 = Some 2"
proof -
  obtain z :: "(int, int) zskiplist" where "zsl_rel demo_cmp (=) z (100, [(102, 1, 10)] @ (101, 3, 30) # [])"
    by (rule demo_list) simp
  from zslGetRank_wrong_score [OF this, of 30 5] show ?thesis
    by auto
qed

end
