(* ===== verification/Uc_Util.thy ===== *)
theory Uc_Util
  imports Hash_Key
begin

text \<open>
  The address helpers (\<^verbatim>\<open>util/uc_util.c\<close>): MAC addresses read and printed in hexadecimal, the host part
  of an IPv4 network, IPv4 addresses in dotted form. A C string is the list of its characters without
  the terminator.
\<close>

section \<open>MAC addresses\<close>

text \<open>The value of a hexadecimal digit, as the three tests of the code give it.\<close>

definition hex_digit :: "char \<Rightarrow> u8 option" where
  "hex_digit c =
     (let n = of_char c :: int in
      if 65 \<le> n \<and> n \<le> 70 then Some (of_int (n - 65 + 10))
      else if 97 \<le> n \<and> n \<le> 102 then Some (of_int (n - 97 + 10))
      else if 48 \<le> n \<and> n \<le> 57 then Some (of_int (n - 48))
      else None)"

text \<open>The loop over the string; \<open>i\<close> bytes of \<open>mac\<close> are written. The result is the return value and the array.\<close>

fun mac_loop :: "nat \<Rightarrow> string \<Rightarrow> u8 list \<Rightarrow> int \<times> u8 list" where
  "mac_loop i [] mac = (if i \<noteq> UC_MAC_LEN_BYTES then -1 else 0, mac)"
| "mac_loop i (c # s) mac =
     (if UC_MAC_LEN_BYTES \<le> i then (if i \<noteq> UC_MAC_LEN_BYTES then -1 else 0, mac)
      else case hex_digit c of
        None \<Rightarrow> mac_loop i s mac
      | Some hi \<Rightarrow>
          (case s of
             [] \<Rightarrow> (-1, mac)
           | c' # s' \<Rightarrow>
               (case hex_digit c' of
                  None \<Rightarrow> (-1, mac)
                | Some lo \<Rightarrow> mac_loop (Suc i) s' (mac[i := or (push_bit 4 hi) lo]))))"

definition uc_utils_mac_hexstr_to_digit :: "string \<Rightarrow> u8 list \<Rightarrow> int \<times> u8 list" where
  "uc_utils_mac_hexstr_to_digit s mac = mac_loop 0 s mac"

text \<open>The conversion \<^verbatim>\<open>%02x\<close> and its use for the six bytes.\<close>

definition hex_char :: "nat \<Rightarrow> char" where
  "hex_char n = ''0123456789abcdef'' ! n"

definition print_02x :: "u8 \<Rightarrow> string" where
  "print_02x b = [hex_char (unat b div 16), hex_char (unat b mod 16)]"

definition uc_utils_mac_digit_to_hexstr :: "u8 list \<Rightarrow> int \<times> string" where
  "uc_utils_mac_digit_to_hexstr mac =
     (let out = print_02x (mac ! 0) @ '':'' @ print_02x (mac ! 1) @ '':'' @ print_02x (mac ! 2) @ '':'' @
                print_02x (mac ! 3) @ '':'' @ print_02x (mac ! 4) @ '':'' @ print_02x (mac ! 5)
      in (if length out = UC_MAC_LEN_STR_00 - 1 then 0 else -1, out))"

definition uc_utils_mac_hexstr_to_lower :: "string \<Rightarrow> int \<times> string" where
  "uc_utils_mac_hexstr_to_lower s =
     (let (ret, mac) = uc_utils_mac_hexstr_to_digit s (replicate UC_MAC_LEN_BYTES 0) in
      if ret \<noteq> 0 then (ret, []) else uc_utils_mac_digit_to_hexstr mac)"

text \<open>In place, on an array of 18 characters, the terminator among them.\<close>

definition lower_char :: "char \<Rightarrow> char" where
  "lower_char c = (if 65 \<le> (of_char c :: int) \<and> (of_char c :: int) \<le> 90 then char_of ((of_char c :: int) + 32) else c)"

definition uc_utils_mac_to_lower :: "string \<Rightarrow> string" where
  "uc_utils_mac_to_lower buf =
     (let buf' = buf[UC_MAC_LEN_STR_00 - 1 := CHR 0x00]
      in map lower_char (take 17 buf') @ drop 17 buf')"

section \<open>Hosts of a network\<close>

text \<open>\<open>None\<close> is a shift by a count the language leaves undefined. The \<open>int\<close> arithmetic wraps as on the target.\<close>

definition uc_utils_host_count :: "u32 \<Rightarrow> u32 option" where
  "uc_utils_host_count msk =
     (let bits = wrap_s32 (uint (32 - msk)) in
      if bits < 0 \<or> 32 \<le> bits then None
      else Some (of_int (wrap_s32 (wrap_s32 (2 ^ nat bits) - 2))))"

definition uc_utils_host_range :: "u32 \<Rightarrow> u32 \<Rightarrow> (u32 \<times> u32) option" where
  "uc_utils_host_range ip bits_mask =
     (if 32 \<le> unat (32 - bits_mask) \<or> 32 \<le> unat bits_mask then None
      else
        let mask_w = 0xffffffff :: u32;
            net_mask = push_bit (unat (32 - bits_mask)) mask_w;
            host_mask = drop_bit (unat bits_mask) mask_w
        in Some (and ip net_mask + 1, and ip net_mask + host_mask - 1))"

section \<open>Addresses in dotted form\<close>

text \<open>
  The library's byte order conversion on a little-endian machine (\<^verbatim>\<open>ntohl\<close> is the same function), and the
  bytes of an address in memory.
\<close>

definition htonl :: "u32 \<Rightarrow> u32" where
  "htonl w = or (push_bit 24 w) (or (and (push_bit 8 w) 0xff0000) (or (and (drop_bit 8 w) 0xff00) (drop_bit 24 w)))"

definition addr_bytes :: "u32 \<Rightarrow> u8 list" where
  "addr_bytes w = [ucast w, ucast (drop_bit 8 w), ucast (drop_bit 16 w), ucast (drop_bit 24 w)]"

definition addr_of_bytes :: "u8 list \<Rightarrow> u32" where
  "addr_of_bytes bs = or (ucast (bs ! 0)) (or (push_bit 8 (ucast (bs ! 1)))
     (or (push_bit 16 (ucast (bs ! 2))) (push_bit 24 (ucast (bs ! 3)))))"

text \<open>A decimal number without leading zeros, and \<^verbatim>\<open>inet_ntop\<close> on the four bytes of an address.\<close>

fun decimal :: "nat \<Rightarrow> string" where
  "decimal n = (if n < 10 then [''0123456789'' ! n] else decimal (n div 10) @ [''0123456789'' ! (n mod 10)])"

declare decimal.simps [simp del]

definition inet_ntop :: "u8 list \<Rightarrow> string" where
  "inet_ntop bs = decimal (unat (bs ! 0)) @ ''.'' @ decimal (unat (bs ! 1)) @ ''.'' @
     decimal (unat (bs ! 2)) @ ''.'' @ decimal (unat (bs ! 3))"

text \<open>
  \<^verbatim>\<open>inet_pton\<close>: four decimal numbers up to 255, of one to three digits, with a dot between them. \<open>done\<close>
  are the bytes read, \<open>cur\<close> the digits of the current one.
\<close>

definition digit_val :: "char \<Rightarrow> nat option" where
  "digit_val c = (let n = of_char c :: nat in if 48 \<le> n \<and> n \<le> 57 then Some (n - 48) else None)"

fun octet :: "nat list \<Rightarrow> nat option" where
  "octet ds =
     (let v = foldl (\<lambda>v d. 10 * v + d) 0 ds
      in if ds \<noteq> [] \<and> length ds \<le> 3 \<and> v \<le> 255 then Some v else None)"

fun pton_loop :: "u8 list \<Rightarrow> nat list \<Rightarrow> string \<Rightarrow> u8 list option" where
  "pton_loop bs cur [] =
     (case octet cur of
        None \<Rightarrow> None
      | Some v \<Rightarrow> if length bs = 3 then Some (bs @ [word_of_nat v]) else None)"
| "pton_loop bs cur (c # s) =
     (if c = CHR ''.'' then (case octet cur of None \<Rightarrow> None | Some v \<Rightarrow> pton_loop (bs @ [word_of_nat v]) [] s)
      else case digit_val c of None \<Rightarrow> None | Some d \<Rightarrow> pton_loop bs (cur @ [d]) s)"

definition inet_pton :: "string \<Rightarrow> u8 list option" where
  "inet_pton s = pton_loop [] [] s"

text \<open>The text, if the buffer has room for it and its terminator; otherwise the buffer is left alone.\<close>

definition uc_utils_ipv4_host_to_str :: "u32 \<Rightarrow> nat \<Rightarrow> string option" where
  "uc_utils_ipv4_host_to_str ip buf_len =
     (let s = inet_ntop (addr_bytes (htonl ip)) in if length s < buf_len then Some s else None)"

text \<open>\<open>junk\<close> is what the local variable holds when \<^verbatim>\<open>inet_pton\<close> does not write it.\<close>

definition uc_utils_ipv4_str_to_host :: "u32 \<Rightarrow> string option \<Rightarrow> u32" where
  "uc_utils_ipv4_str_to_host junk ip =
     (case ip of
        None \<Rightarrow> 0
      | Some s \<Rightarrow>
          htonl (case inet_pton s of None \<Rightarrow> junk | Some bs \<Rightarrow> addr_of_bytes bs))"

section \<open>Reading MAC addresses\<close>

text \<open>
  What the reader accepts: six times any text without hexadecimal digits, then two such digits, and
  anything after that.
\<close>

definition mac_item_ok :: "string \<times> char \<times> char \<Rightarrow> bool" where
  "mac_item_ok it \<longleftrightarrow> (\<forall>c\<in>set (fst it). hex_digit c = None) \<and> hex_digit (fst (snd it)) \<noteq> None \<and>
     hex_digit (snd (snd it)) \<noteq> None"

definition mac_item_text :: "string \<times> char \<times> char \<Rightarrow> string" where
  "mac_item_text it = fst it @ [fst (snd it), snd (snd it)]"

definition mac_item_byte :: "string \<times> char \<times> char \<Rightarrow> u8" where
  "mac_item_byte it = or (push_bit 4 (the (hex_digit (fst (snd it))))) (the (hex_digit (snd (snd it))))"

lemma mac_loop_skip:
  "\<forall>c\<in>set sep. hex_digit c = None \<Longrightarrow> i < UC_MAC_LEN_BYTES \<Longrightarrow> mac_loop i (sep @ s) mac = mac_loop i s mac"
  by (induction sep) simp_all

lemma mac_loop_done: "mac_loop UC_MAC_LEN_BYTES s mac = (0, mac)"
  by (cases s) simp_all

lemma take_update: "i < length xs \<Longrightarrow> take (Suc i) (xs[i := x]) = take i xs @ [x]"
  by (simp add: take_Suc_conv_app_nth)

lemma mac_loop_complete:
  assumes "i + length items = UC_MAC_LEN_BYTES" "\<forall>it\<in>set items. mac_item_ok it" "length mac = UC_MAC_LEN_BYTES"
  shows "mac_loop i (concat (map mac_item_text items) @ rest) mac = (0, take i mac @ map mac_item_byte items)"
  using assms
proof (induction items arbitrary: i mac)
  case Nil
  then show ?case
    using mac_loop_done [of rest mac] by simp
next
  case (Cons it items)
  obtain hi lo where digits: "hex_digit (fst (snd it)) = Some hi" "hex_digit (snd (snd it)) = Some lo"
    using Cons.prems(2) by (auto simp: mac_item_ok_def)
  let ?s = "concat (map mac_item_text items) @ rest"
  have i: "i < UC_MAC_LEN_BYTES"
    using Cons.prems(1) by simp
  have "mac_loop i (mac_item_text it @ ?s) mac = mac_loop i (fst (snd it) # snd (snd it) # ?s) mac"
    using mac_loop_skip [of "fst it" i "fst (snd it) # snd (snd it) # ?s" mac] Cons.prems(2) i
    by (simp add: mac_item_text_def mac_item_ok_def)
  also have "\<dots> = mac_loop (Suc i) ?s (mac[i := mac_item_byte it])"
    using digits i by (simp add: mac_item_byte_def)
  also have "\<dots> = (0, take (Suc i) (mac[i := mac_item_byte it]) @ map mac_item_byte items)"
    using Cons.prems by (intro Cons.IH) simp_all
  finally show ?case
    using i Cons.prems(3) by (simp add: take_update)
qed

lemma mac_loop_sound:
  assumes "mac_loop i s mac = (0, mac')" "i \<le> UC_MAC_LEN_BYTES" "length mac = UC_MAC_LEN_BYTES"
  shows "\<exists>items rest. i + length items = UC_MAC_LEN_BYTES \<and> (\<forall>it\<in>set items. mac_item_ok it) \<and>
    s = concat (map mac_item_text items) @ rest \<and> mac' = take i mac @ map mac_item_byte items"
  using assms
proof (induction i s mac rule: mac_loop.induct)
  case (1 i mac)
  then show ?case
    by (intro exI [of _ "[]"]) (simp split: if_splits)
next
  case (2 i c s mac)
  show ?case
  proof (cases "UC_MAC_LEN_BYTES \<le> i")
    case True
    then show ?thesis
      using 2(3-5) by (intro exI [of _ "[]"] exI [of _ "c # s"]) simp
  next
    case i: False
    show ?thesis
    proof (cases "hex_digit c")
      case None
      then obtain items rest where ih: "i + length items = UC_MAC_LEN_BYTES" "\<forall>it\<in>set items. mac_item_ok it"
        "s = concat (map mac_item_text items) @ rest" "mac' = take i mac @ map mac_item_byte items"
        using 2(1) [OF i None] 2(3-5) i by auto
      then obtain it items' where items: "items = it # items'"
        using i by (cases items) auto
      let ?it = "(c # fst it, snd it)"
      have "mac_item_ok ?it" "mac_item_text ?it = c # mac_item_text it" "mac_item_byte ?it = mac_item_byte it"
        using ih(2) items None by (auto simp: mac_item_ok_def mac_item_text_def mac_item_byte_def)
      then show ?thesis
        using ih items by (intro exI [of _ "?it # items'"] exI [of _ rest]) simp
    next
      case (Some hi)
      then obtain c' s' lo where s: "s = c' # s'" "hex_digit c' = Some lo"
        using 2(3) i by (auto split: list.splits option.splits)
      let ?b = "or (push_bit 4 hi) lo"
      have "mac_loop (Suc i) s' (mac[i := ?b]) = (0, mac')"
        using 2(3) i Some s by simp
      then obtain items rest where ih: "Suc i + length items = UC_MAC_LEN_BYTES" "\<forall>it\<in>set items. mac_item_ok it"
        "s' = concat (map mac_item_text items) @ rest" "mac' = take (Suc i) (mac[i := ?b]) @ map mac_item_byte items"
        using 2(2) [OF i Some s] 2(4,5) i by auto
      have "mac_item_ok ([], c, c')" "mac_item_text ([], c, c') = [c, c']" "mac_item_byte ([], c, c') = ?b"
        using Some s(2) by (simp_all add: mac_item_ok_def mac_item_text_def mac_item_byte_def)
      then show ?thesis
        using ih s(1) i 2(5) by (intro exI [of _ "([], c, c') # items"] exI [of _ rest]) (simp add: take_update)
    qed
  qed
qed

section \<open>Hexadecimal digits\<close>

lemma hex_digit_hex_char: "n < 16 \<Longrightarrow> hex_digit (hex_char n) = Some (word_of_nat n)"
proof -
  assume "n < 16"
  then have "n \<in> set [0..<16]"
    by simp
  moreover have "\<forall>n\<in>set [0..<16]. hex_digit (hex_char n) = Some (word_of_nat n)"
    by (simp add: upt_rec hex_digit_def hex_char_def Let_def)
  ultimately show ?thesis
    by blast
qed

lemma digits_byte: "or (push_bit 4 (word_of_nat (unat b div 16))) (word_of_nat (unat b mod 16)) = (b :: u8)"
proof -
  have "unat b div 16 < 256"
    using unat_u8_less [of b] by linarith
  then have "word_of_nat (unat b div 16) = drop_bit 4 b" "word_of_nat (unat b mod 16) = take_bit 4 b"
    using unat_div [of b 16] unat_mod [of b 16]
    by (simp_all add: word_unat_eq_iff unsigned_drop_bit_eq unsigned_take_bit_eq drop_bit_eq_div take_bit_eq_mod unat_of_nat)
  then show ?thesis
    by (auto simp: bit_eq_iff bit_simps)
qed

lemma colon_no_digit: "hex_digit (CHR '':'') = None"
  by (simp add: hex_digit_def)

lemma mac_six: "length mac = UC_MAC_LEN_BYTES \<Longrightarrow> \<exists>a b c d e f. mac = [a, b, c, d, e, f]"
  by (auto simp: UC_MAC_LEN_BYTES_def length_Suc_conv numeral_eq_Suc)

text \<open>The digits of a byte as an item of the reader.\<close>

definition byte_item :: "string \<Rightarrow> u8 \<Rightarrow> string \<times> char \<times> char" where
  "byte_item sep b = (sep, hex_char (unat b div 16), hex_char (unat b mod 16))"

lemma byte_item_facts:
  assumes "\<forall>c\<in>set sep. hex_digit c = None"
  shows "mac_item_ok (byte_item sep b)" "mac_item_byte (byte_item sep b) = b" "mac_item_text (byte_item sep b) = sep @ print_02x b"
proof -
  have "unat b div 16 < 16" "unat b mod 16 < 16"
    using unat_u8_less [of b] by linarith+
  note digits = hex_digit_hex_char [OF this(1)] hex_digit_hex_char [OF this(2)]
  show "mac_item_ok (byte_item sep b)" "mac_item_text (byte_item sep b) = sep @ print_02x b"
    using assms by (simp_all add: byte_item_def mac_item_ok_def mac_item_text_def print_02x_def digits)
  show "mac_item_byte (byte_item sep b) = b"
    by (simp add: byte_item_def mac_item_byte_def digits digits_byte)
qed

lemma read_printed:
  assumes "length m = UC_MAC_LEN_BYTES" "length mac = UC_MAC_LEN_BYTES"
  shows "uc_utils_mac_hexstr_to_digit (snd (uc_utils_mac_digit_to_hexstr m)) mac = (0, m)"
    and "fst (uc_utils_mac_digit_to_hexstr m) = 0" "length (snd (uc_utils_mac_digit_to_hexstr m)) = 17"
proof -
  obtain a b c d e f where m: "m = [a, b, c, d, e, f]"
    using mac_six [OF assms(1)] by blast
  let ?items = "[byte_item [] a, byte_item '':'' b, byte_item '':'' c, byte_item '':'' d, byte_item '':'' e, byte_item '':'' f]"
  have colon: "\<forall>c\<in>set '':''. hex_digit c = None" "\<forall>c\<in>set []. hex_digit c = None"
    using colon_no_digit by simp_all
  note facts = byte_item_facts [OF colon(1)] byte_item_facts [OF colon(2)]
  have "mac_loop 0 (concat (map mac_item_text ?items) @ []) mac = (0, take 0 mac @ map mac_item_byte ?items)"
    using facts assms(2) by (intro mac_loop_complete) (simp_all add: UC_MAC_LEN_BYTES_def)
  then show "uc_utils_mac_hexstr_to_digit (snd (uc_utils_mac_digit_to_hexstr m)) mac = (0, m)"
    using facts by (simp add: uc_utils_mac_hexstr_to_digit_def uc_utils_mac_digit_to_hexstr_def m Let_def)
  show "fst (uc_utils_mac_digit_to_hexstr m) = 0" "length (snd (uc_utils_mac_digit_to_hexstr m)) = 17"
    by (simp_all add: uc_utils_mac_digit_to_hexstr_def m Let_def print_02x_def UC_MAC_LEN_STR_00_def)
qed

lemma mac_loop_result:
  "fst (mac_loop i s mac) = 0 \<or> fst (mac_loop i s mac) = -1" "length (snd (mac_loop i s mac)) = length mac"
  by (induction i s mac rule: mac_loop.induct) (auto split: list.splits option.splits)

text \<open>Printed addresses are in lower case already.\<close>

lemma lower_hex_char: "n < 16 \<Longrightarrow> lower_char (hex_char n) = hex_char n"
proof -
  assume "n < 16"
  then have "n \<in> set [0..<16]"
    by simp
  moreover have "\<forall>n\<in>set [0..<16]. lower_char (hex_char n) = hex_char n"
    by (simp add: upt_rec lower_char_def hex_char_def)
  ultimately show ?thesis
    by blast
qed

lemma lower_02x: "map lower_char (print_02x b) = print_02x b"
proof -
  have "unat b div 16 < 16" "unat b mod 16 < 16"
    using unat_u8_less [of b] by linarith+
  then show ?thesis
    by (simp add: print_02x_def lower_hex_char)
qed

lemma lower_printed:
  assumes "length m = UC_MAC_LEN_BYTES"
  shows "uc_utils_mac_to_lower (snd (uc_utils_mac_digit_to_hexstr m) @ [c]) = snd (uc_utils_mac_digit_to_hexstr m) @ [CHR 0x00]"
proof -
  let ?t = "snd (uc_utils_mac_digit_to_hexstr m)"
  have len: "length ?t = 17"
    using read_printed(3) [OF assms assms] .
  have "lower_char (CHR '':'') = CHR '':''"
    by (simp add: lower_char_def)
  then have "map lower_char ?t = ?t"
    by (simp add: uc_utils_mac_digit_to_hexstr_def Let_def lower_02x)
  moreover have "(?t @ [c])[UC_MAC_LEN_STR_00 - 1 := CHR 0x00] = ?t @ [CHR 0x00]"
    using len by (simp add: UC_MAC_LEN_STR_00_def list_update_append)
  ultimately show ?thesis
    using len by (simp add: uc_utils_mac_to_lower_def Let_def)
qed

section \<open>Hosts of a network\<close>

lemma all_ones: "(0xffffffff :: u32) = -1"
  by simp

lemma net_part: "and ip (push_bit k (-1)) = (push_bit k (drop_bit k ip) :: u32)"
  by (rule bit_word_eqI) (auto simp: bit_simps)

lemma host_part: "m \<le> 32 \<Longrightarrow> drop_bit m (-1) = (mask (32 - m) :: u32)"
  by (rule bit_word_eqI) (auto simp: bit_simps)

lemma word_of_unat: "unat (w :: u32) = n \<Longrightarrow> w = word_of_nat n"
  by (auto simp: word_unat_eq_iff)

lemma unat_small: "n < 2 ^ 32 \<Longrightarrow> unat (word_of_nat n :: u32) = n"
  by (simp add: unat_of_nat)

text \<open>The two ends of the range as numbers; \<open>q\<close> is the number of the network.\<close>

lemma host_range_ends:
  fixes ip msk :: u32
  assumes "1 \<le> unat msk" "unat msk \<le> 31"
  defines "P \<equiv> 2 ^ (32 - unat msk)" and "q \<equiv> unat ip div 2 ^ (32 - unat msk)"
  obtains lo hi where "uc_utils_host_range ip msk = Some (lo, hi)" "unat lo = q * P + 1" "unat hi = q * P + P - 2"
    "2 \<le> P" "q * P + P \<le> 2 ^ 32"
proof -
  let ?k = "32 - unat msk"
  have k: "unat (32 - msk) = ?k"
  proof -
    have "msk \<le> 32"
      using assms(2) by (simp add: word_le_nat_alt)
    then show ?thesis
      by (simp add: unat_sub)
  qed
  have P: "2 \<le> P" "P * 2 ^ unat msk = 2 ^ 32"
    using assms(2) self_le_power [of "2 :: nat" ?k] by (simp_all add: P_def flip: power_add)
  have "q < 2 ^ unat msk"
  proof -
    have "unat ip < 2 ^ unat msk * P"
      using unsigned_less [of ip] P(2) by (simp add: mult.commute)
    then show ?thesis
      unfolding q_def P_def by (rule less_mult_imp_div_less)
  qed
  then have "(q + 1) * P \<le> 2 ^ unat msk * P"
    by (intro mult_le_mono1) simp
  then have top: "q * P + P \<le> 2 ^ 32"
    using P(2) by (simp add: mult.commute algebra_simps)
  let ?net = "push_bit ?k (drop_bit ?k ip)"
  have "unat ip < 2 ^ 32"
    by (rule order_less_le_trans [OF unsigned_less]) simp
  then have "unat (drop_bit ?k ip) = q"
    by (simp add: q_def unsigned_drop_bit_eq take_bit_nat_eq_self flip: drop_bit_eq_div)
  then have "drop_bit ?k ip = word_of_nat q"
    by (rule word_of_unat)
  then have net: "?net = word_of_nat (q * P)"
    by (simp add: push_bit_eq_mult P_def)
  have "(mask ?k :: u32) = word_of_nat (mask ?k)"
    by (rule of_nat_mask_eq [symmetric])
  also have "\<dots> = word_of_nat (P - 1)"
    by (simp only: mask_eq_exp_minus_1 P_def)
  finally have "(mask ?k :: u32) = word_of_nat (P - 1)" .
  moreover have "P - 1 = Suc (P - 2)"
    using P(1) by simp
  ultimately have mask: "(mask ?k :: u32) = word_of_nat (P - 2) + 1"
    by simp
  have "uc_utils_host_range ip msk = Some (?net + 1, ?net + mask ?k - 1)"
    using assms(1,2) by (simp only: uc_utils_host_range_def k all_ones net_part host_part Let_def) simp
  then have run: "uc_utils_host_range ip msk = Some (word_of_nat (q * P + 1), word_of_nat (q * P + P - 2))"
    using P(1) by (simp add: net mask)
  have "unat (word_of_nat (q * P + 1) :: u32) = q * P + 1" "unat (word_of_nat (q * P + P - 2) :: u32) = q * P + P - 2"
    using top P(1) by (intro unat_small; simp)+
  then show thesis
    using that run P(1) top by blast
qed

text \<open>The number of hosts: the wrap-around of the \<open>int\<close> arithmetic does not change it.\<close>

lemma of_int_wrap: "(of_int (wrap_s32 x) :: u32) = of_int x"
proof -
  have "take_bit 32 (wrap_s32 x) = take_bit 32 x"
    by (simp add: wrap_s32_def take_bit_eq_mod mod_diff_left_eq)
  then show ?thesis
    by (subst word_of_int_eq_iff) simp
qed

lemma host_count_value:
  assumes "1 \<le> unat msk" "unat msk \<le> 31"
  shows "uc_utils_host_count msk = Some (word_of_nat (2 ^ (32 - unat msk) - 2))"
proof -
  let ?k = "32 - unat msk"
  have "msk \<le> 32"
    using assms(2) by (simp add: word_le_nat_alt)
  then have "unat (32 - msk) = ?k"
    by (simp add: unat_sub)
  then have "uint (32 - msk) = int ?k"
    by (metis uint_nat)
  moreover have "wrap_s32 (int ?k) = int ?k"
    by (intro wrap_s32_id) simp_all
  ultimately have bits: "wrap_s32 (uint (32 - msk)) = int ?k"
    by simp
  have "2 \<le> (2 :: nat) ^ ?k"
    using assms(2) self_le_power [of "2 :: nat" ?k] by simp
  then have "int (2 ^ ?k - 2) = 2 ^ ?k - 2"
    by (simp add: of_nat_diff)
  then have "(of_int (2 ^ ?k - 2) :: u32) = word_of_nat (2 ^ ?k - 2)"
    by (metis of_int_of_nat_eq)
  moreover have "(of_int (wrap_s32 (wrap_s32 (2 ^ ?k) - 2)) :: u32) = of_int (2 ^ ?k - 2)"
    by (simp only: of_int_wrap of_int_diff)
  ultimately have num: "(of_int (wrap_s32 (wrap_s32 (2 ^ ?k) - 2)) :: u32) = word_of_nat (2 ^ ?k - 2)"
    by simp
  show ?thesis
  proof -
    have "\<not> (int ?k < 0 \<or> 32 \<le> int ?k)"
      using assms by linarith
    then show ?thesis
      using num by (simp only: uc_utils_host_count_def bits Let_def nat_int if_False)
  qed
qed

lemma inside_network:
  fixes P :: nat
  assumes "2 \<le> P"
  shows "q * P + 1 \<le> x \<and> x \<le> q * P + P - 2 \<longleftrightarrow> x div P = q \<and> 0 < x mod P \<and> x mod P < P - 1"
proof
  assume x: "q * P + 1 \<le> x \<and> x \<le> q * P + P - 2"
  then obtain r where r: "x = q * P + r" "1 \<le> r"
    by (metis add.assoc le_Suc_ex le_add1)
  then have "r \<le> P - 2"
    using x assms by linarith
  then have "r < P" "r < P - 1"
    using assms by linarith+
  then show "x div P = q \<and> 0 < x mod P \<and> x mod P < P - 1"
    using r assms by simp
next
  assume x: "x div P = q \<and> 0 < x mod P \<and> x mod P < P - 1"
  then have "x = q * P + x mod P"
    by (metis div_mult_mod_eq)
  then show "q * P + 1 \<le> x \<and> x \<le> q * P + P - 2"
    using x by linarith
qed

lemma card_word_interval: "card {a :: u32. lo \<le> a \<and> a \<le> hi} = unat hi + 1 - unat lo"
proof -
  have "unat ` {a :: u32. lo \<le> a \<and> a \<le> hi} = {unat lo..unat hi}"
  proof
    show "{unat lo..unat hi} \<subseteq> unat ` {a. lo \<le> a \<and> a \<le> hi}"
    proof
      fix n
      assume n: "n \<in> {unat lo..unat hi}"
      moreover have "unat hi < 2 ^ 32"
        by (rule order_less_le_trans [OF unsigned_less]) simp
      ultimately have "unat (word_of_nat n :: u32) = n"
        by (intro unat_small) simp
      then show "n \<in> unat ` {a. lo \<le> a \<and> a \<le> hi}"
        using n by (intro image_eqI [of _ _ "word_of_nat n"]) (simp_all add: word_le_nat_alt)
    qed
  qed (auto simp: word_le_nat_alt)
  moreover have "inj_on unat {a :: u32. lo \<le> a \<and> a \<le> hi}"
    by (simp add: inj_on_def word_unat_eq_iff)
  then have "card (unat ` {a :: u32. lo \<le> a \<and> a \<le> hi}) = card {a :: u32. lo \<le> a \<and> a \<le> hi}"
    by (rule card_image)
  ultimately show ?thesis
    by simp
qed

text \<open>A mask of 32 bits is out of the range of both functions.\<close>

lemma uc_utils_host_mask_32: "uc_utils_host_count 32 = Some 0xffffffff" "uc_utils_host_range ip 32 = None"
  by (simp_all add: uc_utils_host_count_def uc_utils_host_range_def wrap_s32_def)

section \<open>Addresses in dotted form\<close>

lemma byte_masks: "(0xff0000 :: u32) = push_bit 16 (mask 8)" "(0xff00 :: u32) = push_bit 8 (mask 8)"
  by (simp_all add: mask_eq_exp_minus_1 push_bit_eq_mult)

lemma byte_cases:
  fixes n :: nat
  assumes "n < 32"
  obtains m where "m < 8" "n = m \<or> n = m + 8 \<or> n = m + 16 \<or> n = m + 24"
proof -
  have "n div 8 = 0 \<or> n div 8 = 1 \<or> n div 8 = 2 \<or> n div 8 = 3"
    using assms by linarith
  then have "n = n mod 8 \<or> n = n mod 8 + 8 \<or> n = n mod 8 + 16 \<or> n = n mod 8 + 24"
    by (elim disjE) (use mult_div_mod_eq [of 8 n] in linarith)+
  then show thesis
    using that [of "n mod 8"] by simp
qed

lemma bit_above: "32 \<le> n \<Longrightarrow> \<not> bit (w :: u32) n"
  using bit_imp_le_length [of w n] by auto

lemma bit_htonl:
  assumes "m < 8"
  shows "bit (htonl w) m = bit w (m + 24)" "bit (htonl w) (m + 8) = bit w (m + 16)"
    "bit (htonl w) (m + 16) = bit w (m + 8)" "bit (htonl w) (m + 24) = bit w m"
  using assms unfolding htonl_def byte_masks by (auto simp: bit_simps add.commute bit_above)

lemma htonl_twice: "htonl (htonl w) = w"
proof (rule bit_word_eqI)
  fix n
  assume "n < LENGTH(32)"
  then obtain m where "m < 8" "n = m \<or> n = m + 8 \<or> n = m + 16 \<or> n = m + 24"
    using byte_cases [of n] by auto
  then show "bit (htonl (htonl w)) n = bit w n"
    by (elim disjE) (simp_all add: bit_htonl)
qed

lemma addr_bytes_back: "addr_of_bytes (addr_bytes w) = w"
proof (rule bit_word_eqI)
  fix n
  assume "n < LENGTH(32)"
  then obtain m where "m < 8" "n = m \<or> n = m + 8 \<or> n = m + 16 \<or> n = m + 24"
    using byte_cases [of n] by auto
  then show "bit (addr_of_bytes (addr_bytes w)) n = bit w n"
    by (elim disjE) (auto simp: addr_of_bytes_def addr_bytes_def bit_simps add.commute)
qed

lemma length_addr_bytes: "length (addr_bytes w) = 4"
  by (simp add: addr_bytes_def)

definition digit_char :: "nat \<Rightarrow> char" where
  "digit_char d = ''0123456789'' ! d"

lemma digit_char_facts: "d < 10 \<Longrightarrow> digit_val (digit_char d) = Some d \<and> digit_char d \<noteq> CHR ''.''"
proof -
  assume "d < 10"
  then have "d \<in> set [0..<10]"
    by simp
  moreover have "\<forall>d\<in>set [0..<10]. digit_val (digit_char d) = Some d \<and> digit_char d \<noteq> CHR ''.''"
    by (simp add: upt_rec digit_val_def digit_char_def Let_def)
  ultimately show ?thesis
    by blast
qed

lemma pton_digits:
  "\<forall>d\<in>set ds. d < 10 \<Longrightarrow> pton_loop bs cur (map digit_char ds @ s) = pton_loop bs (cur @ ds) s"
  by (induction ds arbitrary: cur) (simp_all add: digit_char_facts)

text \<open>The digits of a byte.\<close>

definition digits :: "nat \<Rightarrow> nat list" where
  "digits n = (if n < 10 then [n] else if n < 100 then [n div 10, n mod 10] else [n div 100, n div 10 mod 10, n mod 10])"

lemma decimal_digits: "n < 256 \<Longrightarrow> decimal n = map digit_char (digits n)"
proof -
  assume "n < 256"
  then have "n div 10 < 10 \<or> n div 10 < 100 \<and> n div 10 div 10 = n div 100 \<and> n div 100 < 10"
    by (auto simp: div_mult2_eq)
  then show ?thesis
    by (auto simp: digits_def digit_char_def decimal.simps [of n] decimal.simps [of "n div 10"] decimal.simps [of "n div 100"] simp del: decimal.simps)
qed

lemma digits_ok: "n < 256 \<Longrightarrow> \<forall>d\<in>set (digits n). d < 10" "length (digits n) \<le> 3"
  by (auto simp: digits_def)

lemma octet_digits: "n < 256 \<Longrightarrow> octet (digits n) = Some n"
  using div_mult_mod_eq [of n 10] div_mult_mod_eq [of "n div 10" 10] div_mult2_eq [of n 10 10]
  by (simp add: digits_def Let_def)

lemma length_decimal: "n < 256 \<Longrightarrow> length (decimal n) \<le> 3"
  using digits_ok(2) [of n] by (simp add: decimal_digits)

lemma pton_byte:
  assumes "n < 256"
  shows "pton_loop bs [] (decimal n @ CHR ''.'' # s) = pton_loop (bs @ [word_of_nat n]) [] s"
    and "pton_loop bs [] (decimal n) = (if length bs = 3 then Some (bs @ [word_of_nat n]) else None)"
  using pton_digits [OF digits_ok(1) [OF assms], of bs "[]"] pton_digits [OF digits_ok(1) [OF assms], of bs "[]" "[]"]
  by (simp_all add: decimal_digits [OF assms] octet_digits [OF assms] del: decimal.simps octet.simps)

lemma pton_ntop: "inet_pton (inet_ntop [a, b, c, d]) = Some [a, b, c, d]"
  by (simp add: inet_ntop_def inet_pton_def pton_byte del: decimal.simps octet.simps pton_loop.simps)

lemma length_ntop: "length (inet_ntop bs) \<le> 15"
proof -
  have len: "length (decimal (unat (bs ! i))) \<le> 3" for i
    by (rule length_decimal) simp
  show ?thesis
    using len [of 0] len [of 1] len [of 2] len [of 3] unfolding inet_ntop_def length_append by simp
qed

section \<open>Properties\<close>

text \<open>C13: the reader of MAC addresses returns 0 exactly for the strings with six pairs of hexadecimal
  digits, each after any text without such digits, and then has written the six bytes; otherwise it
  returns -1.\<close>

theorem uc_utils_mac_accepts:
  assumes "length mac = UC_MAC_LEN_BYTES"
  shows "(uc_utils_mac_hexstr_to_digit s mac = (0, m) \<longleftrightarrow>
      (\<exists>items rest. length items = UC_MAC_LEN_BYTES \<and> (\<forall>it\<in>set items. mac_item_ok it) \<and>
        s = concat (map mac_item_text items) @ rest \<and> m = map mac_item_byte items)) \<and>
    fst (uc_utils_mac_hexstr_to_digit s mac) \<in> {0, -1}"
proof
  show "fst (uc_utils_mac_hexstr_to_digit s mac) \<in> {0, -1}"
    using mac_loop_result(1) [of 0 s mac] by (simp add: uc_utils_mac_hexstr_to_digit_def)
  show "uc_utils_mac_hexstr_to_digit s mac = (0, m) \<longleftrightarrow>
      (\<exists>items rest. length items = UC_MAC_LEN_BYTES \<and> (\<forall>it\<in>set items. mac_item_ok it) \<and>
        s = concat (map mac_item_text items) @ rest \<and> m = map mac_item_byte items)"
  proof
    assume "uc_utils_mac_hexstr_to_digit s mac = (0, m)"
    then show "\<exists>items rest. length items = UC_MAC_LEN_BYTES \<and> (\<forall>it\<in>set items. mac_item_ok it) \<and>
        s = concat (map mac_item_text items) @ rest \<and> m = map mac_item_byte items"
      using mac_loop_sound [of 0 s mac m] assms by (simp add: uc_utils_mac_hexstr_to_digit_def)
  next
    assume "\<exists>items rest. length items = UC_MAC_LEN_BYTES \<and> (\<forall>it\<in>set items. mac_item_ok it) \<and>
        s = concat (map mac_item_text items) @ rest \<and> m = map mac_item_byte items"
    then show "uc_utils_mac_hexstr_to_digit s mac = (0, m)"
      using mac_loop_complete [of 0 _ mac] assms by (auto simp: uc_utils_mac_hexstr_to_digit_def)
  qed
qed

lemma uc_utils_mac_accepts_witness:
  "\<exists>items rest. length items = 6 \<and> (\<forall>it\<in>set items. mac_item_ok it) \<and>
     ''00:1A-2b3c4D.5ez'' = concat (map mac_item_text items) @ rest \<and>
     [0, 0x1a, 0x2b, 0x3c, 0x4d, 0x5e] = map mac_item_byte items"
proof -
  have "uc_utils_mac_hexstr_to_digit ''00:1A-2b3c4D.5ez'' (replicate UC_MAC_LEN_BYTES 0) = (0, [0, 0x1a, 0x2b, 0x3c, 0x4d, 0x5e])"
    by (simp add: uc_utils_mac_hexstr_to_digit_def hex_digit_def UC_MAC_LEN_BYTES_def numeral_eq_Suc)
  from iffD1 [OF conjunct1 [OF uc_utils_mac_accepts] this] show ?thesis
    by (simp only: length_replicate UC_MAC_LEN_BYTES_def)
qed

text \<open>C14: printing six bytes and reading them gives them back, and what \<open>uc_utils_mac_hexstr_to_lower\<close>
  makes of an address it makes of its result again, which \<open>uc_utils_mac_to_lower\<close> leaves unchanged.\<close>

theorem uc_utils_mac_roundtrip:
  assumes "length m = UC_MAC_LEN_BYTES" "length mac = UC_MAC_LEN_BYTES"
  shows "\<exists>t. uc_utils_mac_digit_to_hexstr m = (0, t) \<and> length t = 17 \<and>
    uc_utils_mac_hexstr_to_digit t mac = (0, m) \<and> uc_utils_mac_hexstr_to_lower t = (0, t) \<and>
    uc_utils_mac_to_lower (t @ [c]) = t @ [CHR 0x00]"
proof -
  obtain t where t: "uc_utils_mac_digit_to_hexstr m = (0, t)"
    using read_printed(2) [OF assms] by (metis prod.collapse)
  have "uc_utils_mac_hexstr_to_digit t (replicate UC_MAC_LEN_BYTES 0) = (0, m)"
    using read_printed(1) [OF assms(1), of "replicate UC_MAC_LEN_BYTES 0"] t by simp
  then show ?thesis
    using t read_printed(1,3) [OF assms] lower_printed [OF assms(1), of c]
    by (simp add: uc_utils_mac_hexstr_to_lower_def)
qed

lemma uc_utils_mac_roundtrip_witness:
  "\<exists>t. uc_utils_mac_digit_to_hexstr [0, 26, 43, 60, 77, 94] = (0, t) \<and>
    uc_utils_mac_hexstr_to_digit t [9, 9, 9, 9, 9, 9] = (0, [0, 26, 43, 60, 77, 94])"
  using uc_utils_mac_roundtrip [of "[0, 26, 43, 60, 77, 94]" "[9, 9, 9, 9, 9, 9]" "CHR ''x''"]
  by (auto simp: UC_MAC_LEN_BYTES_def)

text \<open>C12: for a mask of 1 to 31 bits the range of hosts is the network without its first and its last
  address, and \<open>uc_utils_host_count\<close> is its size.\<close>

theorem uc_utils_host_range_exact:
  assumes "1 \<le> unat msk" "unat msk \<le> 31"
  shows "\<exists>lo hi n. uc_utils_host_range ip msk = Some (lo, hi) \<and> uc_utils_host_count msk = Some n \<and>
    {a. lo \<le> a \<and> a \<le> hi} = {a. unat a div 2 ^ (32 - unat msk) = unat ip div 2 ^ (32 - unat msk) \<and>
      0 < unat a mod 2 ^ (32 - unat msk) \<and> unat a mod 2 ^ (32 - unat msk) < 2 ^ (32 - unat msk) - 1} \<and>
    card {a. lo \<le> a \<and> a \<le> hi} = unat n"
proof -
  let ?P = "2 ^ (32 - unat msk) :: nat" and ?q = "unat ip div 2 ^ (32 - unat msk)"
  obtain lo hi where ends: "uc_utils_host_range ip msk = Some (lo, hi)" "unat lo = ?q * ?P + 1" "unat hi = ?q * ?P + ?P - 2"
    "2 \<le> ?P" "?q * ?P + ?P \<le> 2 ^ 32"
    by (rule host_range_ends [OF assms])
  have "lo \<le> a \<and> a \<le> hi \<longleftrightarrow> unat a div ?P = ?q \<and> 0 < unat a mod ?P \<and> unat a mod ?P < ?P - 1" for a
    unfolding word_le_nat_alt ends(2,3) by (rule inside_network [OF ends(4)])
  moreover have "card {a. lo \<le> a \<and> a \<le> hi} = ?P - 2"
    unfolding card_word_interval ends(2,3) using ends(4) by linarith
  moreover have "unat (word_of_nat (?P - 2) :: u32) = ?P - 2"
    using ends(4,5) by (intro unat_small) linarith
  ultimately show ?thesis
    using ends(1) host_count_value [OF assms] by (intro exI [of _ lo] exI [of _ hi] exI [of _ "word_of_nat (?P - 2)"]) simp
qed

lemma uc_utils_host_range_exact_witness:
  "\<exists>lo hi n. uc_utils_host_range 0xC0A80F77 24 = Some (lo, hi) \<and> uc_utils_host_count 24 = Some n \<and>
    card {a. lo \<le> a \<and> a \<le> hi} = unat n"
  using uc_utils_host_range_exact [of 24 "0xC0A80F77"] by auto

text \<open>An address printed in dotted form into a buffer of 16 bytes or more is read back.\<close>

theorem uc_utils_ipv4_roundtrip:
  assumes "16 \<le> buf_len"
  shows "\<exists>s. uc_utils_ipv4_host_to_str ip buf_len = Some s \<and> uc_utils_ipv4_str_to_host junk (Some s) = ip"
proof -
  let ?s = "inet_ntop (addr_bytes (htonl ip))"
  have "length ?s < buf_len"
    using length_ntop [of "addr_bytes (htonl ip)"] assms by simp
  moreover have "inet_pton ?s = Some (addr_bytes (htonl ip))"
    unfolding addr_bytes_def by (rule pton_ntop)
  ultimately show ?thesis
    by (simp add: uc_utils_ipv4_host_to_str_def uc_utils_ipv4_str_to_host_def Let_def addr_bytes_back htonl_twice)
qed

lemma uc_utils_ipv4_roundtrip_witness:
  "\<exists>s. uc_utils_ipv4_host_to_str 0xC0A80F77 16 = Some s \<and> uc_utils_ipv4_str_to_host 7 (Some s) = 0xC0A80F77"
  using uc_utils_ipv4_roundtrip [of 16] by simp

end
