(* ===== verification/Key_Text.thy ===== *)
theory Key_Text
  imports Hash_Key Uc_Util
begin

text \<open>
  \<^verbatim>\<open>hash/uc_hash.c\<close>, the text of a key for the log (\<open>uc_print_key\<close>), and that it tells the keys of a
  table of numbers or MAC addresses apart.
\<close>

section \<open>Conversions\<close>

definition byte_char :: "u8 \<Rightarrow> char" where
  "byte_char b = char_of (unat b)"

definition print_d :: "int \<Rightarrow> string" where
  "print_d v = (if v < 0 then ''-'' @ decimal (nat (- v)) else decimal (nat v))"

definition hex_char_upper :: "nat \<Rightarrow> char" where
  "hex_char_upper n = ''0123456789ABCDEF'' ! n"

definition print_02X :: "u8 \<Rightarrow> string" where
  "print_02X b = [hex_char_upper (unat b div 16), hex_char_upper (unat b mod 16)]"

text \<open>\<^verbatim>\<open>%s\<close> of an array: undefined when no terminator is in it.\<close>

definition print_s :: "u8 list \<Rightarrow> crash + string" where
  "print_s bs = (if 0 \<in> set bs then Inr (map byte_char (takeWhile (\<lambda>b. b \<noteq> 0) bs)) else Inl Undefined_behaviour)"

text \<open>The text before \<^verbatim>\<open>snprintf\<close> cuts it. What \<^verbatim>\<open>%p\<close> prints is up to the C library.\<close>

fun key_text :: "(u64 \<Rightarrow> string) \<Rightarrow> uc_hash_key_type \<Rightarrow> uc_hash_key \<Rightarrow> crash + string" where
  "key_text p uc_hash_key_char k = Inr [byte_char (key_word 1 k)]"
| "key_text p uc_hash_key_uchar k = Inr [byte_char (key_word 1 k)]"
| "key_text p uc_hash_key_int16 k = Inr (print_d (sint (key_word 2 k :: u16)))"
| "key_text p uc_hash_key_uint16 k = Inr (decimal (unat (key_word 2 k :: u16)))"
| "key_text p uc_hash_key_int32 k = Inr (print_d (sint (key_word 4 k :: u32)))"
| "key_text p uc_hash_key_uint32 k = Inr (decimal (unat (key_word 4 k :: u32)))"
| "key_text p uc_hash_key_int64 k = Inr (print_d (sint (key_word 8 k :: u64)))"
| "key_text p uc_hash_key_uint64 k = Inr (decimal (unat (key_word 8 k :: u64)))"
| "key_text p uc_hash_key_pointer k = Inr (p (key_word 8 k))"
| "key_text p uc_hash_key_mac k = Inr (''mac: '' @ print_02X (kraw k ! 0) @ '':'' @ print_02X (kraw k ! 1) @ '':'' @
     print_02X (kraw k ! 2) @ '':'' @ print_02X (kraw k ! 3) @ '':'' @ print_02X (kraw k ! 4) @ '':'' @ print_02X (kraw k ! 5))"
| "key_text p uc_hash_key_mac_str k = print_s (take UC_MAC_LEN_STR_00 (kraw k))"
| "key_text p uc_hash_key_ip_str k = print_s (take UC_IPV4_LEN_STR_00 (kraw k))"
| "key_text p uc_hash_key_id_char32_str k = print_s (take UC_ID_CHAR_32_STR_00 (kraw k))"
| "key_text p uc_hash_key_id_char64_str k = print_s (take UC_ID_CHAR_64_STR_00 (kraw k))"
| "key_text p uc_hash_key_mem k = Inr (p (key_word 8 k))"
| "key_text p (uc_hash_key_other t) k = Inl (Exit (- 0x24b51f69))"

definition uc_print_key :: "(u64 \<Rightarrow> string) \<Rightarrow> uc_hash_key_type \<Rightarrow> uc_hash_key \<Rightarrow> nat \<Rightarrow> crash + string" where
  "uc_print_key p kt k buf_len = run_bind (key_text p kt k) (\<lambda>s. Inr (take (buf_len - 1) s))"

section \<open>Numbers\<close>

lemma decimal_rec: "10 \<le> n \<Longrightarrow> decimal n = decimal (n div 10) @ [''0123456789'' ! (n mod 10)]"
  by (subst decimal.simps) simp

lemma decimal_digit: "n < 10 \<Longrightarrow> decimal n = [''0123456789'' ! n]"
  by (subst decimal.simps) simp

lemma digit_chars: "n < 10 \<Longrightarrow> m < 10 \<Longrightarrow> ''0123456789'' ! n = ''0123456789'' ! m \<longleftrightarrow> n = m"
  by (rule nth_eq_iff_index_eq) simp_all

lemma minus_no_digit: "n < 10 \<Longrightarrow> ''0123456789'' ! n \<noteq> CHR ''-''"
proof -
  assume "n < 10"
  then have "''0123456789'' ! n \<in> set ''0123456789''"
    by (intro nth_mem) simp
  then show ?thesis
    by auto
qed

lemma decimal_nonempty [simp]: "decimal n \<noteq> []" "[] \<noteq> decimal n"
  by (subst decimal.simps; simp)+

lemma decimal_inject: "decimal n = decimal m \<longleftrightarrow> n = m"
proof (induction n arbitrary: m rule: less_induct)
  case (less n)
  show ?case
  proof (cases "n < 10 \<or> m < 10")
    case True
    then show ?thesis
      using digit_chars [of n m] by (cases "n < 10"; cases "m < 10") (auto simp: decimal_digit decimal_rec)
  next
    case False
    then have "decimal (n div 10) = decimal (m div 10) \<longleftrightarrow> n div 10 = m div 10"
      by (intro less.IH) simp
    moreover have "n div 10 = m div 10 \<and> n mod 10 = m mod 10 \<longleftrightarrow> n = m"
      by (metis div_mult_mod_eq)
    ultimately show ?thesis
      using False digit_chars [of "n mod 10" "m mod 10"] by (simp add: decimal_rec)
  qed
qed

lemma decimal_hd: "hd (decimal n) \<noteq> CHR ''-''"
proof (induction n rule: less_induct)
  case (less n)
  show ?case
    by (cases "n < 10") (simp_all add: decimal_digit decimal_rec minus_no_digit less.IH)
qed

lemma print_d_inject: "print_d v = print_d w \<longleftrightarrow> v = w"
  using decimal_hd [of "nat v"] decimal_hd [of "nat w"]
  by (auto simp: print_d_def decimal_inject dest: arg_cong [where f = hd])

lemma length_decimal_less: "n < 10 ^ Suc d \<Longrightarrow> length (decimal n) \<le> Suc d"
proof (induction d arbitrary: n)
  case (Suc d)
  then show ?case
    by (cases "n < 10") (auto simp: decimal_digit decimal_rec)
qed (simp add: decimal_digit)

section \<open>Keys\<close>

lemma byte_char_inject: "byte_char a = byte_char b \<longleftrightarrow> a = b"
proof -
  have "of_char (byte_char x) = unat x" for x
    using unat_u8_less [of x] by (simp add: byte_char_def del: unat_u8_less)
  then show ?thesis
    by (metis word_unat_eq_iff)
qed

lemma sint_inject: "sint (a :: 'w::len word) = sint b \<longleftrightarrow> a = b"
  by (auto intro: signed_word_eqI)

lemma unat_inject: "unat (a :: 'w::len word) = unat b \<longleftrightarrow> a = b"
  using word_unat_eq_iff [of a b] by simp

lemma hex_upper_inject: "n < 16 \<Longrightarrow> m < 16 \<Longrightarrow> hex_char_upper n = hex_char_upper m \<longleftrightarrow> n = m"
  unfolding hex_char_upper_def by (rule nth_eq_iff_index_eq) simp_all

lemma print_02X_inject: "print_02X a = print_02X b \<longleftrightarrow> a = b"
proof -
  have "unat x div 16 < 16" "unat x mod 16 < 16" for x :: u8
    using unat_u8_less [of x] by linarith+
  then have "print_02X a = print_02X b \<longleftrightarrow> unat a div 16 = unat b div 16 \<and> unat a mod 16 = unat b mod 16"
    by (simp add: print_02X_def hex_upper_inject)
  also have "\<dots> \<longleftrightarrow> a = b"
    by (metis div_mult_mod_eq word_unat_eq_iff)
  finally show ?thesis .
qed

lemma length_print_02X [simp]: "length (print_02X b) = 2"
  by (simp add: print_02X_def)

definition plain_key :: "uc_hash_key_type \<Rightarrow> bool" where
  "plain_key kt \<longleftrightarrow> kt \<in> {uc_hash_key_char, uc_hash_key_uchar, uc_hash_key_int16, uc_hash_key_uint16, uc_hash_key_int32,
     uc_hash_key_uint32, uc_hash_key_int64, uc_hash_key_uint64, uc_hash_key_mac}"

lemma mac_text_inject:
  assumes "length (kraw a) = UC_HASH_KEY_SIZE" "length (kraw b) = UC_HASH_KEY_SIZE"
  shows "key_text p uc_hash_key_mac a = key_text p uc_hash_key_mac b \<longleftrightarrow> take 6 (kraw a) = take 6 (kraw b)"
proof -
  have six: "take 6 xs = [xs ! 0, xs ! 1, xs ! 2, xs ! 3, xs ! 4, xs ! 5]" if "length xs = UC_HASH_KEY_SIZE" for xs :: "u8 list"
    using that by (intro nth_equalityI) (auto simp: key_sizes less_Suc_eq numeral_eq_Suc)
  show ?thesis
    using assms by (simp add: six print_02X_inject)
qed

lemma key_words:
  assumes "wf_key kt kl a" "wf_key kt kl b" "LENGTH('w::len) = 8 * n" "n \<le> 72"
  shows "(key_word n a :: 'w word) = key_word n b \<longleftrightarrow> take n (kraw a) = take n (kraw b)"
  by (rule key_word_eq_iff) (use assms in \<open>simp_all add: wf_key_def key_sizes\<close>)

text \<open>Two keys of a type of numbers or of MAC addresses have the same text exactly when they are the same key.\<close>

theorem key_text_inject:
  assumes kt: "plain_key kt" "uc_cal_key_len kt mkl = Inr kl" and wf: "wf_key kt kl a" "wf_key kt kl b"
  shows "key_text p kt a = key_text p kt b \<longleftrightarrow> key_bytes kt kl a = key_bytes kt kl b"
proof -
  have len: "length (kraw a) = UC_HASH_KEY_SIZE" "length (kraw b) = UC_HASH_KEY_SIZE"
    using wf by (simp_all add: wf_key_def)
  show ?thesis
    using kt mac_text_inject [OF len, of p]
    by (cases kt) (auto simp: plain_key_def key_bytes_def print_d_inject decimal_inject byte_char_inject
        sint_inject unat_inject key_words [OF wf] UC_MAC_LEN_BYTES_def)
qed

text \<open>The buffers of 257 and 1024 bytes the callers pass are long enough for them.\<close>

lemma length_decimal_20: "n < 10 ^ 20 \<Longrightarrow> length (decimal n) \<le> 20"
  using length_decimal_less [of n 19] by simp

lemma unat_less_20: "LENGTH('w::len) \<le> 64 \<Longrightarrow> unat (w :: 'w word) < 10 ^ 20"
proof -
  assume "LENGTH('w) \<le> 64"
  then have "(2::nat) ^ LENGTH('w) \<le> 2 ^ 64"
    by (rule power_increasing) simp
  then have "unat w < 2 ^ 64"
    using unsigned_less [of w, where 'a = nat] by linarith
  then show ?thesis
    by simp
qed

lemma length_print_d: "LENGTH('w::len) \<le> 64 \<Longrightarrow> length (print_d (sint (w :: 'w word))) \<le> 21"
proof -
  assume "LENGTH('w) \<le> 64"
  then have "(2::int) ^ (LENGTH('w) - 1) \<le> 2 ^ 63"
    by (intro power_increasing) simp_all
  then have "nat (sint w) < 10 ^ 20" "nat (- sint w) < 10 ^ 20"
    using sint_greater_eq [of w] sint_less [of w] by (simp_all add: nat_less_iff)
  then show ?thesis
    using length_decimal_20 [of "nat (sint w)"] length_decimal_20 [of "nat (- sint w)"] by (simp add: print_d_def)
qed

lemma key_text_short: "plain_key kt \<Longrightarrow> \<exists>s. key_text p kt k = Inr s \<and> length s \<le> 22"
  using length_print_d [of "key_word 2 k :: u16"] length_print_d [of "key_word 4 k :: u32"] length_print_d [of "key_word 8 k :: u64"]
    length_decimal_20 [OF unat_less_20, of "key_word 2 k :: u16"] length_decimal_20 [OF unat_less_20, of "key_word 4 k :: u32"]
    length_decimal_20 [OF unat_less_20, of "key_word 8 k :: u64"]
  by (auto simp: plain_key_def)

theorem uc_print_key_tells_apart:
  assumes kt: "plain_key kt" "uc_cal_key_len kt mkl = Inr kl" and wf: "wf_key kt kl a" "wf_key kt kl b" and "22 < buf_len"
  shows "uc_print_key p kt a buf_len = uc_print_key p kt b buf_len \<longleftrightarrow> key_bytes kt kl a = key_bytes kt kl b"
  using key_text_short [OF kt(1), of p a] key_text_short [OF kt(1), of p b] key_text_inject [OF kt wf, of p] assms(5)
  by (auto simp: uc_print_key_def)

end
