(* ===== verification/Ipc_Init.thy ===== *)
theory Ipc_Init
  imports Ipc_Safety Ipc_Client Thread_Pool Uc_Util "HOL-Library.Multiset" "HOL-Library.Monad_Syntax"
begin

text \<open>
  Starting the IPC server and client (\<open>uc_ipc_init_server\<close>, \<open>uc_ipc_init_client\<close>): the chain of system
  calls, and the way back when one of them fails. What the calls deliver is an argument; the multiset of
  what the process holds is handed on. A result \<open>None\<close> is a call that crashes (something is given back
  that is not held, or the half-made thread pool is closed) or that never returns.
\<close>

section \<open>Resources\<close>

text \<open>
  Blocks of memory, locks and tables are numbered in the order of their creation. \<open>Threads\<close> is the pool with
  its threads and the list entries of these; \<open>Thread_entry\<close> is a list entry, by its address, that was
  allocated for a thread which could not be started, and that nothing points to any more.
\<close>

datatype resource = Memory nat | Lock nat | Condition | Descriptor int | Table nat | Threads | Thread_entry nat

definition give :: "bool \<Rightarrow> resource \<Rightarrow> resource multiset \<Rightarrow> resource multiset option" where
  "give c r held = (if \<not> c then Some held else if r \<in># held then Some (held - {#r#}) else None)"

definition owning :: "bool \<Rightarrow> resource \<Rightarrow> resource multiset \<Rightarrow> resource multiset" where
  "owning c r held = (if c then add_mset r held else held)"

lemma give_owning [simp]: "give c r (owning c r held) = Some held"
  by (simp add: give_def owning_def)

lemma give_add [simp]: "give True r (add_mset r held) = Some held"
  by (simp add: give_def)

text \<open>The sequence number to start with, from random bytes.\<close>

definition first_seq_id :: "u8 list \<Rightarrow> u64" where
  "first_seq_id bs = (let s = word_of_nat (le_nat bs) in if s < UC_IPC_SEQ_ID_MIN then UC_IPC_SEQ_ID_MIN else s)"

lemma first_seq_id_min: "UC_IPC_SEQ_ID_MIN \<le> first_seq_id bs"
  by (simp add: first_seq_id_def Let_def not_less)

definition UC_IPC_SERVER_CLIENT_MAP_SIZE :: int where "UC_IPC_SERVER_CLIENT_MAP_SIZE = 4096"

definition UC_IPC_CLIENT_SEQ_HASH_SIZE :: int where "UC_IPC_CLIENT_SEQ_HASH_SIZE = 16 * 1024"

definition UC_IPC_CLIENT_THREAD_POOL_MSG_WAIT_MAX :: u64 where "UC_IPC_CLIENT_THREAD_POOL_MSG_WAIT_MAX = 4096"

text \<open>
  What the pool's creation meets; whether there is memory for the entries of the tasks; the pool as each
  task's attempt to start a further thread finds it, and what that meets; and the pool at each look of the
  wait for its queue.
\<close>

record pool_env =
  pool_calloc :: bool
  pool_mutex :: bool
  pool_cond :: bool
  pool_spawns :: "spawn list"
  pool_entries :: bool
  pool_tries :: "(threadpool \<times> spawn) list"
  pool_looks :: "threadpool list"

text \<open>The entry that the loop starting the first threads leaves behind when a thread cannot be started.\<close>

fun spawn_left :: "nat \<Rightarrow> spawn list \<Rightarrow> nat list" where
  "spawn_left (Suc n) ((Some k, ret, pid) # ss) = (if ret \<noteq> 0 then [k] else spawn_left n ss)"
| "spawn_left _ _ = []"

definition make_pool :: "pool_env \<Rightarrow> nat \<Rightarrow> (threadpool \<times> nat list) option option" where
  "make_pool pe n =
     map_option (map_option (\<lambda>tp. (tp, spawn_left n (pool_spawns pe))))
       (uc_threadpool_create (pool_calloc pe) (pool_mutex pe) (pool_cond pe) n n (pool_spawns pe))"

text \<open>The same of a later attempt.\<close>

fun try_left :: "threadpool \<times> spawn \<Rightarrow> nat list" where
  "try_left (p, Some k, ret, pid) =
     (if fst (uc_threadpool_activty_try_do (Some k, ret, pid) p) = - 0x3c5a31ed then [k] else [])"
| "try_left (p, None, ret, pid) = []"

definition lost_entries :: "nat list \<Rightarrow> resource multiset" where
  "lost_entries ks = image_mset Thread_entry (mset ks)"

text \<open>The functions handed to the pool, in order.\<close>

datatype ipc_task = Server_loop_rcv | Server_loop_callback | Client_loop_rcv | Client_heartbeat

text \<open>
  The tasks are handed to the pool and its queue is waited for. Without memory for the entry of a task the
  pool's lock stays taken, and the next call waits for it for ever.
\<close>

definition start_tasks :: "pool_env \<Rightarrow> ipc_task list \<Rightarrow> (ipc_task list \<times> nat list) option" where
  "start_tasks pe ts =
     (if \<not> pool_entries pe then None
      else map_option (\<lambda>n. (ts, concat (map try_left (take (length ts) (pool_tries pe)))))
        (uc_threadpool_wait_task_done (pool_looks pe)))"

section \<open>The server\<close>

text \<open>Locks: 0 is \<open>cli_fd_mutex\<close>, 1 \<open>seq_mutex\<close>. Memory: 0 is the handler, 1 \<open>sock_cli\<close>. Tables: 0 is
  \<open>cli_info_hash\<close>, 1 \<open>cli_fd_hash\<close>.\<close>

record server_env =
  srv_calloc :: bool
  srv_mutex :: "nat \<Rightarrow> bool"
  srv_random :: "bool \<times> arrival list"
  srv_pipe :: "(int \<times> int) option"
  srv_epoll :: int
  srv_table :: "nat \<Rightarrow> bool"
  srv_socket :: int
  srv_ip :: "string option"
  srv_port :: u16
  srv_junk :: u32
  srv_bind :: "u32 \<Rightarrow> u16 \<Rightarrow> int"
  srv_listen :: int
  srv_conn :: bool
  srv_ctl :: int
  srv_pool :: pool_env

record server_boot =
  bt_pipe0 :: int
  bt_pipe1 :: int
  bt_epoll :: int
  bt_info :: "nat uc_hash_table option"
  bt_fds :: "int uc_hash_table option"
  bt_sock :: int
  bt_conn :: bool
  bt_thread :: "threadpool option"
  bt_seq :: u64

definition server_err_uninit :: "server_boot \<Rightarrow> resource multiset \<Rightarrow> resource multiset option" where
  "server_err_uninit b held =
     do { held \<leftarrow> give (bt_thread b \<noteq> None) Threads held;
          held \<leftarrow> give (bt_conn b) (Memory 1) held;
          held \<leftarrow> give (bt_sock b \<noteq> - 1) (Descriptor (bt_sock b)) held;
          held \<leftarrow> give (bt_fds b \<noteq> None) (Table 1) held;
          held \<leftarrow> give (bt_info b \<noteq> None) (Table 0) held;
          held \<leftarrow> give (bt_epoll b \<noteq> - 1) (Descriptor (bt_epoll b)) held;
          held \<leftarrow> give (bt_pipe0 b \<noteq> - 1) (Descriptor (bt_pipe0 b)) held;
          held \<leftarrow> give (bt_pipe1 b \<noteq> - 1) (Descriptor (bt_pipe1 b)) held;
          held \<leftarrow> give True (Lock 0) held;
          held \<leftarrow> give True (Lock 1) held;
          give True (Memory 0) held }"

definition server_fails :: "server_boot \<Rightarrow> resource multiset \<Rightarrow>
    ((uc_ipc_server_handler \<times> server_boot \<times> ipc_task list) option \<times> resource multiset) option" where
  "server_fails b held = do { held \<leftarrow> server_err_uninit b held; Some (None, held) }"

text \<open>\<^verbatim>\<open>bind\<close> with the address to listen at, in network order.\<close>

definition htons :: "u16 \<Rightarrow> u16" where
  "htons p = or (push_bit 8 p) (drop_bit 8 p)"

definition bind_result :: "server_env \<Rightarrow> int" where
  "bind_result e = srv_bind e (htonl (uc_utils_ipv4_str_to_host (srv_junk e) (srv_ip e))) (htons (srv_port e))"

text \<open>From the listening socket on.\<close>

definition server_listens :: "server_env \<Rightarrow> nat uc_hash_table \<Rightarrow> int uc_hash_table \<Rightarrow> server_boot \<Rightarrow> resource multiset \<Rightarrow>
    ((uc_ipc_server_handler \<times> server_boot \<times> ipc_task list) option \<times> resource multiset) option" where
  "server_listens e info fds b held =
     (if srv_socket e = - 1 then server_fails b held
      else
        let b = b\<lparr>bt_sock := srv_socket e\<rparr>; held = add_mset (Descriptor (srv_socket e)) held in
        if bind_result e \<noteq> 0 then server_fails b held
        else if srv_listen e \<noteq> 0 then server_fails b held
        else if \<not> srv_conn e then server_fails b held
        else
          let b = b\<lparr>bt_conn := True\<rparr>; held = add_mset (Memory 1) held in
          if srv_ctl e = - 1 then server_fails b held
          else
            (case make_pool (srv_pool e) 2 of
               None \<Rightarrow> None
             | Some None \<Rightarrow> server_fails b held
             | Some (Some (tp, lost)) \<Rightarrow>
                 do { (ts, lost2) \<leftarrow> start_tasks (srv_pool e) [Server_loop_rcv, Server_loop_callback];
                      Some (Some (\<lparr>clients = Map.empty, epoll_set = Map.empty, cli_info_hash = info,
                          cli_fd_hash = fds, srv_seq_id = bt_seq b, pipe_msgs = [], incoming = (\<lambda>_. []),
                          sent_to = (\<lambda>_. [])\<rparr>,
                        b\<lparr>bt_thread := Some tp\<rparr>, ts),
                        add_mset Threads held + lost_entries (lost @ lost2)) }))"

text \<open>The two tables.\<close>

definition server_tables :: "server_env \<Rightarrow> server_boot \<Rightarrow> resource multiset \<Rightarrow>
    ((uc_ipc_server_handler \<times> server_boot \<times> ipc_task list) option \<times> resource multiset) option" where
  "server_tables e b held =
     (case uc_hash_create (srv_table e 0) UC_IPC_SERVER_CLIENT_MAP_SIZE uc_hash_key_uint64 0 of
        Inl c \<Rightarrow> None
      | Inr None \<Rightarrow> server_fails b held
      | Inr (Some info) \<Rightarrow>
          let b = b\<lparr>bt_info := Some info\<rparr>; held = add_mset (Table 0) held in
          (case uc_hash_create (srv_table e 1) UC_IPC_SERVER_CLIENT_MAP_SIZE uc_hash_key_uint64 0 of
             Inl c \<Rightarrow> None
           | Inr None \<Rightarrow> server_fails b held
           | Inr (Some fds) \<Rightarrow>
               let b = b\<lparr>bt_fds := Some fds\<rparr>; held = add_mset (Table 1) held in
               server_listens e info fds b held))"

text \<open>The pipe and the \<^verbatim>\<open>epoll\<close> descriptor.\<close>

definition server_pipes :: "server_env \<Rightarrow> server_boot \<Rightarrow> resource multiset \<Rightarrow>
    ((uc_ipc_server_handler \<times> server_boot \<times> ipc_task list) option \<times> resource multiset) option" where
  "server_pipes e b held =
     (case srv_pipe e of
        None \<Rightarrow> server_fails b held
      | Some (p0, p1) \<Rightarrow>
          let b = b\<lparr>bt_pipe0 := p0, bt_pipe1 := p1\<rparr>;
              held = add_mset (Descriptor p0) (add_mset (Descriptor p1) held) in
          if srv_epoll e = - 1 then server_fails b held
          else
            let b = b\<lparr>bt_epoll := srv_epoll e\<rparr>; held = add_mset (Descriptor (srv_epoll e)) held in
            server_tables e b held)"

definition uc_ipc_init_server :: "server_env \<Rightarrow>
    ((uc_ipc_server_handler \<times> server_boot \<times> ipc_task list) option \<times> resource multiset) option" where
  "uc_ipc_init_server e =
     (if \<not> srv_calloc e then Some (None, {#})
      else if \<not> srv_mutex e 0 then
        do { held \<leftarrow> give True (Memory 0) {#Memory 0#}; Some (None, held) }
      else if \<not> srv_mutex e 1 then
        do { held \<leftarrow> give True (Memory 0) {#Lock 0, Memory 0#}; Some (None, held) }
      else
        let b = \<lparr>bt_pipe0 = - 1, bt_pipe1 = - 1, bt_epoll = - 1, bt_info = None, bt_fds = None, bt_sock = - 1,
                 bt_conn = False, bt_thread = None, bt_seq = UC_IPC_SEQ_ID_MIN\<rparr>;
            held = {#Lock 1, Lock 0, Memory 0#}
        in do { (ret, bs) \<leftarrow> uc_random (fst (srv_random e)) 8 (snd (srv_random e));
                if ret \<noteq> 0 then server_fails b held
                else server_pipes e (b\<lparr>bt_seq := first_seq_id bs\<rparr>) held })"

section \<open>The client\<close>

text \<open>Locks: 0 is \<open>io_mtx\<close>, 1 \<open>seq_mtx\<close>, 2 \<open>ack_mtx\<close>.\<close>

record client_env =
  clt_calloc :: bool
  clt_mutex :: "nat \<Rightarrow> bool"
  clt_cond :: bool
  clt_random :: "bool \<times> arrival list"
  clt_ip :: string
  clt_port :: u16
  clt_inet_addr :: "string \<Rightarrow> u32"
  clt_socket :: int
  clt_connect :: "u32 \<Rightarrow> u16 \<Rightarrow> int"
  clt_table :: bool
  clt_pool :: pool_env

record client_boot =
  cb_ip :: string
  cb_port :: u16
  cb_thread :: "threadpool option"
  cb_table :: "packet uc_hash_table option"
  cb_sock :: int
  cb_seq :: u64

definition client_err_uninit :: "client_boot \<Rightarrow> resource multiset \<Rightarrow> resource multiset option" where
  "client_err_uninit b held =
     do { held \<leftarrow> give (cb_thread b \<noteq> None) Threads held;
          held \<leftarrow> give (cb_table b \<noteq> None) (Table 0) held;
          held \<leftarrow> give (cb_sock b \<noteq> - 1) (Descriptor (cb_sock b)) held;
          held \<leftarrow> give True Condition held;
          held \<leftarrow> give True (Lock 2) held;
          held \<leftarrow> give True (Lock 1) held;
          held \<leftarrow> give True (Lock 0) held;
          give True (Memory 0) held }"

definition client_fails :: "client_boot \<Rightarrow> resource multiset \<Rightarrow>
    ((uc_ipc_client_handler \<times> client_boot \<times> ipc_task list) option \<times> resource multiset) option" where
  "client_fails b held = do { held \<leftarrow> client_err_uninit b held; Some (None, held) }"

text \<open>
  \<^verbatim>\<open>connect\<close> with the server's address. \<^verbatim>\<open>strncpy\<close> keeps the first 16 characters of the address for
  the reconnections, without an end mark when there are 16 or more.
\<close>

definition connect_result :: "client_env \<Rightarrow> int" where
  "connect_result e = clt_connect e (clt_inet_addr e (clt_ip e)) (htons (clt_port e))"

text \<open>From the connected socket on.\<close>

definition client_connected :: "client_env \<Rightarrow> client_boot \<Rightarrow> resource multiset \<Rightarrow>
    ((uc_ipc_client_handler \<times> client_boot \<times> ipc_task list) option \<times> resource multiset) option" where
  "client_connected e b held =
     (case uc_hash_create (clt_table e) UC_IPC_CLIENT_SEQ_HASH_SIZE uc_hash_key_uint64 0 of
        Inl c \<Rightarrow> None
      | Inr None \<Rightarrow> client_fails b held
      | Inr (Some t) \<Rightarrow>
          let b = b\<lparr>cb_table := Some t\<rparr>; held = add_mset (Table 0) held in
          (case make_pool (clt_pool e) 3 of
             None \<Rightarrow> None
           | Some None \<Rightarrow> client_fails b held
           | Some (Some (tp, lost)) \<Rightarrow>
               let tp = snd (uc_threadpool_set_task_max UC_IPC_CLIENT_THREAD_POOL_MSG_WAIT_MAX tp) in
               do { (ts, lost2) \<leftarrow> start_tasks (clt_pool e) [Client_loop_rcv, Client_heartbeat];
                    Some (Some (\<lparr>io_done = True, io_sockfd = cb_sock b, cl_seq_id = cb_seq b, ack_hash = t,
                        cl_out = [], cl_in = []\<rparr>,
                      b\<lparr>cb_thread := Some tp\<rparr>, ts),
                      add_mset Threads held + lost_entries (lost @ lost2)) }))"

definition uc_ipc_init_client :: "client_env \<Rightarrow>
    ((uc_ipc_client_handler \<times> client_boot \<times> ipc_task list) option \<times> resource multiset) option" where
  "uc_ipc_init_client e =
     (if \<not> clt_calloc e then Some (None, {#})
      else if \<not> clt_mutex e 0 then do { held \<leftarrow> give True (Memory 0) {#Memory 0#}; Some (None, held) }
      else if \<not> clt_mutex e 1 then do { held \<leftarrow> give True (Memory 0) {#Lock 0, Memory 0#}; Some (None, held) }
      else if \<not> clt_mutex e 2 then do { held \<leftarrow> give True (Memory 0) {#Lock 1, Lock 0, Memory 0#}; Some (None, held) }
      else if \<not> clt_cond e then
        do { held \<leftarrow> give True (Lock 2) {#Lock 2, Lock 1, Lock 0, Memory 0#};
             held \<leftarrow> give True (Memory 0) held;
             Some (None, held) }
      else
        let b = \<lparr>cb_ip = take UC_IPV4_LEN_STR_00 (clt_ip e), cb_port = clt_port e, cb_thread = None, cb_table = None, cb_sock = - 1, cb_seq = UC_IPC_SEQ_ID_MIN\<rparr>;
            held = {#Condition, Lock 2, Lock 1, Lock 0, Memory 0#}
        in do { (ret, bs) \<leftarrow> uc_urandom (fst (clt_random e)) 8 (snd (clt_random e));
          if ret \<noteq> 0 then client_fails b held
          else
            let b = b\<lparr>cb_seq := first_seq_id bs\<rparr> in
            if clt_socket e = - 1 then client_fails b held
            else
              let b = b\<lparr>cb_sock := clt_socket e\<rparr>; held = add_mset (Descriptor (clt_socket e)) held in
              if connect_result e \<noteq> 0 then client_fails b held
              else client_connected e b held })"

section \<open>Nothing is lost\<close>

definition server_held :: "server_boot \<Rightarrow> resource multiset" where
  "server_held b =
     owning (bt_thread b \<noteq> None) Threads (owning (bt_conn b) (Memory 1)
       (owning (bt_sock b \<noteq> - 1) (Descriptor (bt_sock b)) (owning (bt_fds b \<noteq> None) (Table 1)
         (owning (bt_info b \<noteq> None) (Table 0) (owning (bt_epoll b \<noteq> - 1) (Descriptor (bt_epoll b))
           (owning (bt_pipe0 b \<noteq> - 1) (Descriptor (bt_pipe0 b)) (owning (bt_pipe1 b \<noteq> - 1) (Descriptor (bt_pipe1 b))
             (add_mset (Lock 0) (add_mset (Lock 1) {#Memory 0#})))))))))"

lemma server_fails_clean: "held = server_held b \<Longrightarrow> server_fails b held = Some (None, {#})"
  by (simp add: server_fails_def server_err_uninit_def server_held_def)

lemma owning_simps [simp]: "owning True r held = add_mset r held" "owning False r held = held"
  by (simp_all add: owning_def)

lemma table_made:
  assumes "0 < hgt" "hgt < 2 ^ 31"
  obtains (no) "\<not> ok" "(uc_hash_create ok hgt uc_hash_key_uint64 0 :: crash + 'v uc_hash_table option) = Inr None"
    | (yes) t where ok "(uc_hash_create ok hgt uc_hash_key_uint64 0 :: crash + 'v uc_hash_table option) = Inr (Some t)"
        "u64_inv t" "\<And>u. u64_look t u = None"
proof (cases ok)
  case True
  obtain t where "(uc_hash_create True hgt uc_hash_key_uint64 0 :: crash + 'v uc_hash_table option) = Inr (Some t)" "hash_inv t"
    "hash_map t = Map.empty" "key_type t = uc_hash_key_uint64"
    using uc_hash_create_spec [OF assms, of uc_hash_key_uint64 0] by (auto simp: valid_key_type_def)
  then show thesis
    using yes [of t] True by (simp add: u64_inv_def u64_look_def)
next
  case False
  then show thesis
    by (intro no) (simp_all add: uc_hash_create_def uc_hash_create_do_def)
qed

lemma table_sizes: "0 < UC_IPC_SERVER_CLIENT_MAP_SIZE" "UC_IPC_SERVER_CLIENT_MAP_SIZE < 2 ^ 31"
  "0 < UC_IPC_CLIENT_SEQ_HASH_SIZE" "UC_IPC_CLIENT_SEQ_HASH_SIZE < 2 ^ 31"
  by (simp_all add: UC_IPC_SERVER_CLIENT_MAP_SIZE_def UC_IPC_CLIENT_SEQ_HASH_SIZE_def)

lemma new_server_ok: "u64_inv info \<Longrightarrow> u64_inv fds \<Longrightarrow> (\<And>u. u64_look info u = None) \<Longrightarrow> (\<And>u. u64_look fds u = None) \<Longrightarrow>
  srv_ok \<lparr>clients = Map.empty, epoll_set = Map.empty, cli_info_hash = info, cli_fd_hash = fds, srv_seq_id = s,
    pipe_msgs = [], incoming = inp, sent_to = out\<rparr>"
  by (simp add: srv_ok_def conns_ok_def tables_ok_def registered_def)

text \<open>What a call adds to the process and to the handler goes together.\<close>

lemma add_owning: "add_mset r (owning c r' held) = owning c r' (add_mset r held)"
  by (simp add: owning_def add_mset_commute)

definition early :: "server_boot \<Rightarrow> bool" where
  "early b \<longleftrightarrow> bt_thread b = None \<and> \<not> bt_conn b \<and> bt_sock b = - 1"

lemma server_gets:
  "early b \<Longrightarrow> x \<noteq> - 1 \<Longrightarrow> server_held (b\<lparr>bt_sock := x\<rparr>) = add_mset (Descriptor x) (server_held b)"
  "bt_thread b = None \<Longrightarrow> \<not> bt_conn b \<Longrightarrow> server_held (b\<lparr>bt_conn := True\<rparr>) = add_mset (Memory 1) (server_held b)"
  "bt_thread b = None \<Longrightarrow> server_held (b\<lparr>bt_thread := Some tp\<rparr>) = add_mset Threads (server_held b)"
  by (simp_all add: server_held_def early_def add_owning)

lemma server_gets_early:
  "early b \<Longrightarrow> bt_fds b = None \<Longrightarrow> server_held (b\<lparr>bt_fds := Some f\<rparr>) = add_mset (Table 1) (server_held b)"
  "early b \<Longrightarrow> bt_fds b = None \<Longrightarrow> bt_info b = None \<Longrightarrow> server_held (b\<lparr>bt_info := Some i\<rparr>) = add_mset (Table 0) (server_held b)"
  "early b \<Longrightarrow> bt_fds b = None \<Longrightarrow> bt_info b = None \<Longrightarrow> bt_epoll b = - 1 \<Longrightarrow> x \<noteq> - 1 \<Longrightarrow>
    server_held (b\<lparr>bt_epoll := x\<rparr>) = add_mset (Descriptor x) (server_held b)"
  "early b \<Longrightarrow> bt_fds b = None \<Longrightarrow> bt_info b = None \<Longrightarrow> bt_epoll b = - 1 \<Longrightarrow> bt_pipe0 b = - 1 \<Longrightarrow> bt_pipe1 b = - 1 \<Longrightarrow>
    x \<noteq> - 1 \<Longrightarrow> y \<noteq> - 1 \<Longrightarrow>
    server_held (b\<lparr>bt_pipe0 := x, bt_pipe1 := y\<rparr>) = add_mset (Descriptor x) (add_mset (Descriptor y) (server_held b))"
  by (simp_all add: server_held_def early_def add_owning)

text \<open>A server that has come up.\<close>

definition server_up :: "uc_ipc_server_handler \<Rightarrow> server_boot \<Rightarrow> ipc_task list \<Rightarrow> bool" where
  "server_up hdl b jobs \<longleftrightarrow> srv_ok hdl \<and> clients hdl = Map.empty \<and> pipe_msgs hdl = [] \<and> UC_IPC_SEQ_ID_MIN \<le> srv_seq_id hdl \<and>
     bt_thread b \<noteq> None \<and> jobs = [Server_loop_rcv, Server_loop_callback]"

definition server_outcome ::
  "nat list \<Rightarrow> (uc_ipc_server_handler \<times> server_boot \<times> ipc_task list) option \<Rightarrow> resource multiset \<Rightarrow> bool" where
  "server_outcome lost res held \<longleftrightarrow> (case res of None \<Rightarrow> held = {#}
     | Some (hdl, b, jobs) \<Rightarrow> server_up hdl b jobs \<and> held = {#Memory 0, Memory 1, Lock 0, Lock 1, Table 0, Table 1, Threads,
         Descriptor (bt_sock b), Descriptor (bt_epoll b), Descriptor (bt_pipe0 b), Descriptor (bt_pipe1 b)#} + lost_entries lost)"

text \<open>
  The pool can be given its memory, and then cannot be used: a lock or a condition that cannot be made
  leads to the closing of a pool without lists; without memory for a task's entry the pool's lock stays
  taken; and the wait may never find the queue empty.
\<close>

definition pool_stuck :: "pool_env \<Rightarrow> bool" where
  "pool_stuck pe \<longleftrightarrow> pool_calloc pe \<and> (\<not> pool_mutex pe \<or> \<not> pool_cond pe \<or> \<not> pool_entries pe \<or>
     uc_threadpool_wait_task_done (pool_looks pe) = None)"

text \<open>The entries lost on the way.\<close>

definition pool_left :: "pool_env \<Rightarrow> nat \<Rightarrow> nat list" where
  "pool_left pe n = spawn_left n (pool_spawns pe) @ concat (map try_left (take 2 (pool_tries pe)))"

lemma pool_cases:
  assumes "0 < n"
  obtains (none) "\<not> pool_calloc pe" "make_pool pe n = Some None" "\<not> pool_stuck pe"
    | (crash) "make_pool pe n = None" "pool_stuck pe"
    | (hangs) tp lost where "make_pool pe n = Some (Some (tp, lost))" "pool_stuck pe" "\<And>a b. start_tasks pe [a, b] = None"
    | (works) tp lost lost2 where "pool_calloc pe" "\<not> pool_stuck pe" "make_pool pe n = Some (Some (tp, lost))"
        "\<And>a b. start_tasks pe [a, b] = Some ([a, b], lost2)" "pool_left pe n = lost @ lost2"
proof -
  note unfold = make_pool_def uc_threadpool_create_def pool_stuck_def start_tasks_def
  consider "\<not> pool_calloc pe" | "pool_calloc pe" "\<not> pool_mutex pe \<or> \<not> pool_cond pe"
    | "pool_calloc pe" "pool_mutex pe" "pool_cond pe" "pool_stuck pe"
    | "pool_calloc pe" "pool_mutex pe" "pool_cond pe" "\<not> pool_stuck pe"
    by blast
  then show thesis
  proof cases
    case 1
    then show thesis
      by (intro none) (simp_all add: unfold)
  next
    case 2
    then show thesis
      by (intro crash) (auto simp: unfold)
  next
    case 3
    then show thesis
      using assms by (intro hangs) (auto simp: unfold)
  next
    case 4
    then show thesis
      using assms by (intro works) (auto simp: unfold pool_left_def numeral_2_eq_2)
  qed
qed

text \<open>
  How the start of the server ends, from a point on; \<open>up\<close> says that all calls up to the pool succeed.
\<close>

definition server_ends :: "server_env \<Rightarrow> bool \<Rightarrow>
    ((uc_ipc_server_handler \<times> server_boot \<times> ipc_task list) option \<times> resource multiset) option \<Rightarrow> bool" where
  "server_ends e up r \<longleftrightarrow>
     (if up \<and> pool_stuck (srv_pool e) then r = None
      else \<exists>res held. r = Some (res, held) \<and> server_outcome (pool_left (srv_pool e) 2) res held \<and>
        (res \<noteq> None \<longleftrightarrow> up \<and> pool_calloc (srv_pool e)))"

lemma server_fails_outcome: "\<not> up \<or> \<not> pool_calloc (srv_pool e) \<Longrightarrow> server_ends e up (server_fails b (server_held b))"
  by (auto simp: server_ends_def server_fails_clean server_outcome_def pool_stuck_def)

definition listens_ok :: "server_env \<Rightarrow> bool" where
  "listens_ok e \<longleftrightarrow> srv_socket e \<noteq> - 1 \<and> bind_result e = 0 \<and> srv_listen e = 0 \<and> srv_conn e \<and> srv_ctl e \<noteq> - 1"

lemma server_listens_outcome:
  assumes b: "early b" "bt_fds b = Some fds" "bt_info b = Some info" "bt_epoll b \<noteq> - 1" "bt_pipe0 b \<noteq> - 1" "bt_pipe1 b \<noteq> - 1"
      "UC_IPC_SEQ_ID_MIN \<le> bt_seq b"
    and tables: "u64_inv info" "u64_inv fds" "\<And>u. u64_look info u = None" "\<And>u. u64_look fds u = None"
  shows "server_ends e (listens_ok e) (server_listens e info fds b (server_held b))"
proof (cases "srv_socket e = - 1")
  case True
  then show ?thesis
    by (simp add: server_listens_def listens_ok_def server_fails_outcome)
next
  case sock: False
  let ?b1 = "b\<lparr>bt_sock := srv_socket e\<rparr>"
  let ?b2 = "?b1\<lparr>bt_conn := True\<rparr>"
  have h1: "add_mset (Descriptor (srv_socket e)) (server_held b) = server_held ?b1"
    by (rule server_gets(1) [OF b(1) sock, symmetric])
  have h2: "add_mset (Memory 1) (server_held ?b1) = server_held ?b2"
    using b(1) by (intro server_gets(2) [symmetric]) (simp_all add: early_def)
  note unfold = server_listens_def Let_def if_not_P [OF sock] h1 h2
  consider "bind_result e \<noteq> 0 \<or> srv_listen e \<noteq> 0 \<or> \<not> srv_conn e"
    | "bind_result e = 0" "srv_listen e = 0" "srv_conn e" "srv_ctl e = - 1" | (all) "listens_ok e"
    using sock unfolding listens_ok_def by blast
  then show ?thesis
  proof cases
    case 1
    then have "server_listens e info fds b (server_held b) = server_fails ?b1 (server_held ?b1)" "\<not> listens_ok e"
      unfolding unfold by (auto simp: listens_ok_def)
    then show ?thesis
      using server_fails_outcome by metis
  next
    case 2
    then have "server_listens e info fds b (server_held b) = server_fails ?b2 (server_held ?b2)" "\<not> listens_ok e"
      unfolding unfold by (auto simp: listens_ok_def)
    then show ?thesis
      using server_fails_outcome by metis
  next
    case all
    note conds = all [unfolded listens_ok_def]
    have "0 < (2::nat)"
      by simp
    then show ?thesis
    proof (cases rule: pool_cases [where pe = "srv_pool e"])
      case none
      then have "server_listens e info fds b (server_held b) = server_fails ?b2 (server_held ?b2)"
        unfolding unfold using conds by simp
      then show ?thesis
        using server_fails_outcome none(1) by metis
    next
      case crash
      then have "server_listens e info fds b (server_held b) = None"
        unfolding unfold using conds by simp
      then show ?thesis
        using crash(2) all by (simp add: server_ends_def)
    next
      case (hangs tp lost)
      then have "server_listens e info fds b (server_held b) = None"
        unfolding unfold using conds by simp
      then show ?thesis
        using hangs(2) all by (simp add: server_ends_def)
    next
      case (works tp lost lost2)
      let ?hdl = "\<lparr>clients = Map.empty, epoll_set = Map.empty, cli_info_hash = info, cli_fd_hash = fds, srv_seq_id = bt_seq b,
        pipe_msgs = [], incoming = (\<lambda>_. []), sent_to = (\<lambda>_. [])\<rparr>"
      have "server_listens e info fds b (server_held b) =
          Some (Some (?hdl, ?b2\<lparr>bt_thread := Some tp\<rparr>, [Server_loop_rcv, Server_loop_callback]),
            add_mset Threads (server_held ?b2) + lost_entries (lost @ lost2))"
        unfolding unfold using conds works by simp
      moreover have "add_mset Threads (server_held ?b2) = {#Memory 0, Memory 1, Lock 0, Lock 1, Table 0, Table 1, Threads,
          Descriptor (srv_socket e), Descriptor (bt_epoll b), Descriptor (bt_pipe0 b), Descriptor (bt_pipe1 b)#}"
        using b sock by (simp add: server_held_def early_def add_mset_commute)
      ultimately show ?thesis
        using b(7) new_server_ok [OF tables] all works(1,2,5) by (simp add: server_ends_def server_outcome_def server_up_def)
    qed
  qed
qed

definition tables_up :: "server_env \<Rightarrow> bool" where
  "tables_up e \<longleftrightarrow> srv_table e 0 \<and> srv_table e 1 \<and> listens_ok e"

lemma server_tables_outcome:
  assumes b: "early b" "bt_fds b = None" "bt_info b = None" "bt_epoll b \<noteq> - 1" "bt_pipe0 b \<noteq> - 1" "bt_pipe1 b \<noteq> - 1"
      "UC_IPC_SEQ_ID_MIN \<le> bt_seq b"
  shows "server_ends e (tables_up e) (server_tables e b (server_held b))"
  using table_sizes(1,2)
proof (cases rule: table_made [where ok = "srv_table e 0" and 'v = nat])
  case no
  then show ?thesis
    by (simp add: server_tables_def tables_up_def server_fails_outcome)
next
  case info: (yes info)
  let ?b1 = "b\<lparr>bt_info := Some info\<rparr>"
  have h1: "server_held ?b1 = add_mset (Table 0) (server_held b)"
    by (rule server_gets_early(2) [OF b(1-3)])
  show ?thesis
    using table_sizes(1,2)
  proof (cases rule: table_made [where ok = "srv_table e 1" and 'v = int])
    case no
    then show ?thesis
      using info(2) by (simp add: server_tables_def tables_up_def server_fails_outcome flip: h1)
  next
    case fds: (yes fds)
    let ?b2 = "?b1\<lparr>bt_fds := Some fds\<rparr>"
    have "server_held ?b2 = add_mset (Table 1) (server_held ?b1)"
      using b(1,2) by (intro server_gets_early(1)) (simp_all add: early_def)
    then have "server_tables e b (server_held b) = server_listens e info fds ?b2 (server_held ?b2)"
      using info(2) fds(2) h1 by (simp add: server_tables_def)
    moreover have "server_ends e (listens_ok e) (server_listens e info fds ?b2 (server_held ?b2))"
      by (rule server_listens_outcome) (use b info(3,4) fds(3,4) in \<open>simp_all add: early_def\<close>)
    ultimately show ?thesis
      using info(1) fds(1) by (simp add: tables_up_def)
  qed
qed

definition pipes_up :: "server_env \<Rightarrow> bool" where
  "pipes_up e \<longleftrightarrow> srv_pipe e \<noteq> None \<and> srv_epoll e \<noteq> - 1 \<and> tables_up e"

lemma server_pipes_outcome:
  assumes b: "early b" "bt_fds b = None" "bt_info b = None" "bt_epoll b = - 1" "bt_pipe0 b = - 1" "bt_pipe1 b = - 1"
      "UC_IPC_SEQ_ID_MIN \<le> bt_seq b"
    and pipe: "\<And>p0 p1. srv_pipe e = Some (p0, p1) \<Longrightarrow> p0 \<noteq> - 1 \<and> p1 \<noteq> - 1"
  shows "server_ends e (pipes_up e) (server_pipes e b (server_held b))"
proof (cases "srv_pipe e")
  case None
  then show ?thesis
    by (simp add: server_pipes_def pipes_up_def server_fails_outcome)
next
  case (Some ps)
  then obtain p0 p1 where ps: "srv_pipe e = Some (p0, p1)" "p0 \<noteq> - 1" "p1 \<noteq> - 1"
    using pipe by (cases ps) blast
  let ?b1 = "b\<lparr>bt_pipe0 := p0, bt_pipe1 := p1\<rparr>"
  have h1: "server_held ?b1 = add_mset (Descriptor p0) (add_mset (Descriptor p1) (server_held b))"
    using b ps by (intro server_gets_early(4))
  show ?thesis
  proof (cases "srv_epoll e = - 1")
    case True
    then show ?thesis
      using ps(1) by (simp add: server_pipes_def pipes_up_def server_fails_outcome flip: h1)
  next
    case False
    let ?b2 = "?b1\<lparr>bt_epoll := srv_epoll e\<rparr>"
    have "server_held ?b2 = add_mset (Descriptor (srv_epoll e)) (server_held ?b1)"
      using b False by (intro server_gets_early(3)) (simp_all add: early_def)
    then have "server_pipes e b (server_held b) = server_tables e ?b2 (server_held ?b2)"
      using ps(1) False h1 by (simp add: server_pipes_def)
    moreover have "server_ends e (tables_up e) (server_tables e ?b2 (server_held ?b2))"
      by (rule server_tables_outcome) (use b ps False in \<open>simp_all add: early_def\<close>)
    ultimately show ?thesis
      using ps(1) False by (simp add: pipes_up_def)
  qed
qed

section \<open>The client's resources\<close>

definition client_held :: "client_boot \<Rightarrow> resource multiset" where
  "client_held b =
     owning (cb_thread b \<noteq> None) Threads (owning (cb_table b \<noteq> None) (Table 0)
       (owning (cb_sock b \<noteq> - 1) (Descriptor (cb_sock b))
         (add_mset Condition (add_mset (Lock 2) (add_mset (Lock 1) (add_mset (Lock 0) {#Memory 0#}))))))"

definition client_up :: "uc_ipc_client_handler \<Rightarrow> client_boot \<Rightarrow> ipc_task list \<Rightarrow> bool" where
  "client_up hdl b jobs \<longleftrightarrow> io_done hdl \<and> io_sockfd hdl = cb_sock b \<and> UC_IPC_SEQ_ID_MIN \<le> cl_seq_id hdl \<and>
     u64_inv (ack_hash hdl) \<and> (\<forall>u. u64_look (ack_hash hdl) u = None) \<and> cb_thread b \<noteq> None \<and>
     jobs = [Client_loop_rcv, Client_heartbeat]"

definition client_outcome ::
  "nat list \<Rightarrow> (uc_ipc_client_handler \<times> client_boot \<times> ipc_task list) option \<Rightarrow> resource multiset \<Rightarrow> bool" where
  "client_outcome lost res held \<longleftrightarrow> (case res of None \<Rightarrow> held = {#}
     | Some (hdl, b, jobs) \<Rightarrow> client_up hdl b jobs \<and>
         held = {#Memory 0, Lock 0, Lock 1, Lock 2, Condition, Table 0, Threads, Descriptor (cb_sock b)#} + lost_entries lost)"

definition client_ends :: "client_env \<Rightarrow> bool \<Rightarrow>
    ((uc_ipc_client_handler \<times> client_boot \<times> ipc_task list) option \<times> resource multiset) option \<Rightarrow> bool" where
  "client_ends e up r \<longleftrightarrow>
     (if up \<and> pool_stuck (clt_pool e) then r = None
      else \<exists>res held. r = Some (res, held) \<and> client_outcome (pool_left (clt_pool e) 3) res held \<and>
        (res \<noteq> None \<longleftrightarrow> up \<and> pool_calloc (clt_pool e)))"

lemma client_fails_outcome: "\<not> up \<or> \<not> pool_calloc (clt_pool e) \<Longrightarrow> client_ends e up (client_fails b (client_held b))"
  by (auto simp: client_ends_def client_fails_def client_err_uninit_def client_held_def client_outcome_def pool_stuck_def)

lemma client_connected_outcome:
  assumes b: "cb_thread b = None" "cb_table b = None" "cb_sock b \<noteq> - 1" "UC_IPC_SEQ_ID_MIN \<le> cb_seq b"
  shows "client_ends e (clt_table e) (client_connected e b (client_held b))"
  using table_sizes(3,4)
proof (cases rule: table_made [where ok = "clt_table e" and 'v = packet])
  case no
  then show ?thesis
    by (simp add: client_connected_def client_fails_outcome)
next
  case t: (yes t)
  let ?b1 = "b\<lparr>cb_table := Some t\<rparr>"
  have h1: "client_held ?b1 = add_mset (Table 0) (client_held b)"
    using b by (simp add: client_held_def)
  note run = client_connected_def t(2) h1 [symmetric]
  have "0 < (3::nat)"
    by simp
  then show ?thesis
  proof (cases rule: pool_cases [where pe = "clt_pool e"])
    case none
    then have "client_connected e b (client_held b) = client_fails ?b1 (client_held ?b1)"
      by (simp add: run)
    then show ?thesis
      using client_fails_outcome none(1) by metis
  next
    case crash
    then have "client_connected e b (client_held b) = None"
      by (simp add: run)
    then show ?thesis
      using crash(2) by (simp add: client_ends_def t(1))
  next
    case (hangs tp lost)
    then have "client_connected e b (client_held b) = None"
      by (simp add: run)
    then show ?thesis
      using hangs(2) by (simp add: client_ends_def t(1))
  next
    case (works tp lost lost2)
    let ?hdl = "\<lparr>io_done = True, io_sockfd = cb_sock b, cl_seq_id = cb_seq b, ack_hash = t, cl_out = [], cl_in = []\<rparr>"
    let ?tp = "snd (uc_threadpool_set_task_max UC_IPC_CLIENT_THREAD_POOL_MSG_WAIT_MAX tp)"
    have "client_connected e b (client_held b) =
        Some (Some (?hdl, ?b1\<lparr>cb_thread := Some ?tp\<rparr>, [Client_loop_rcv, Client_heartbeat]),
          add_mset Threads (client_held ?b1) + lost_entries (lost @ lost2))"
      using works by (simp add: run Let_def)
    moreover have "add_mset Threads (client_held ?b1) =
        {#Memory 0, Lock 0, Lock 1, Lock 2, Condition, Table 0, Threads, Descriptor (cb_sock b)#}"
      using b by (simp add: client_held_def add_mset_commute)
    ultimately show ?thesis
      using works(1,2,5) t(1,3,4) b(4) by (simp add: client_ends_def client_outcome_def client_up_def)
  qed
qed

section \<open>From the locks on\<close>

definition server_calls_ok :: "server_env \<Rightarrow> bool" where
  "server_calls_ok e \<longleftrightarrow> srv_calloc e \<and> srv_mutex e 0 \<and> srv_mutex e 1 \<and>
     map_option fst (uc_random (fst (srv_random e)) 8 (snd (srv_random e))) = Some 0 \<and>
     srv_pipe e \<noteq> None \<and> srv_epoll e \<noteq> - 1 \<and> srv_table e 0 \<and> srv_table e 1 \<and>
     srv_socket e \<noteq> - 1 \<and> bind_result e = 0 \<and> srv_listen e = 0 \<and> srv_conn e \<and> srv_ctl e \<noteq> - 1"

lemma server_begun:
  assumes pipe: "\<And>p0 p1. srv_pipe e = Some (p0, p1) \<Longrightarrow> p0 \<noteq> - 1 \<and> p1 \<noteq> - 1"
    and rnd_ok: "uc_random (fst (srv_random e)) 8 (snd (srv_random e)) \<noteq> None"
    and begun: "srv_calloc e \<and> srv_mutex e 0 \<and> srv_mutex e 1"
  shows "server_ends e (server_calls_ok e) (uc_ipc_init_server e)"
proof -
  let ?b0 = "\<lparr>bt_pipe0 = - 1, bt_pipe1 = - 1, bt_epoll = - 1, bt_info = None, bt_fds = None, bt_sock = - 1,
                 bt_conn = False, bt_thread = None, bt_seq = UC_IPC_SEQ_ID_MIN\<rparr>"
  obtain ret bs where rnd: "uc_random (fst (srv_random e)) 8 (snd (srv_random e)) = Some (ret, bs)"
    using rnd_ok by auto
  let ?b1 = "?b0\<lparr>bt_seq := first_seq_id bs\<rparr>"
  have held: "{#Lock 1, Lock 0, Memory 0#} = server_held ?b0" "{#Lock 1, Lock 0, Memory 0#} = server_held ?b1"
    by (simp_all add: server_held_def add_mset_commute)
  have "uc_ipc_init_server e =
      (if ret \<noteq> 0 then server_fails ?b0 {#Lock 1, Lock 0, Memory 0#} else server_pipes e ?b1 {#Lock 1, Lock 0, Memory 0#})"
    using begun rnd by (simp add: uc_ipc_init_server_def)
  also have "\<dots> = (if ret \<noteq> 0 then server_fails ?b0 (server_held ?b0) else server_pipes e ?b1 (server_held ?b1))"
    by (simp only: held [symmetric])
  finally have run: "uc_ipc_init_server e = \<dots>" .
  have up: "server_calls_ok e \<longleftrightarrow> ret = 0 \<and> pipes_up e"
    using begun rnd by (auto simp: server_calls_ok_def pipes_up_def tables_up_def listens_ok_def)
  have "server_ends e (pipes_up e) (server_pipes e ?b1 (server_held ?b1))"
    by (rule server_pipes_outcome) (use pipe in \<open>simp_all add: early_def first_seq_id_min\<close>)
  then show "server_ends e (server_calls_ok e) (uc_ipc_init_server e)"
    unfolding run up using server_fails_outcome [of False e ?b0] by simp
qed

definition client_calls_ok :: "client_env \<Rightarrow> bool" where
  "client_calls_ok e \<longleftrightarrow> clt_calloc e \<and> clt_mutex e 0 \<and> clt_mutex e 1 \<and> clt_mutex e 2 \<and> clt_cond e \<and>
     map_option fst (uc_urandom (fst (clt_random e)) 8 (snd (clt_random e))) = Some 0 \<and>
     clt_socket e \<noteq> - 1 \<and> connect_result e = 0 \<and> clt_table e"

lemma client_begun:
  assumes rnd_ok: "uc_urandom (fst (clt_random e)) 8 (snd (clt_random e)) \<noteq> None"
    and begun: "clt_calloc e \<and> clt_mutex e 0 \<and> clt_mutex e 1 \<and> clt_mutex e 2 \<and> clt_cond e"
  shows "client_ends e (client_calls_ok e) (uc_ipc_init_client e)"
proof -
  let ?b0 = "\<lparr>cb_ip = take UC_IPV4_LEN_STR_00 (clt_ip e), cb_port = clt_port e, cb_thread = None, cb_table = None, cb_sock = - 1, cb_seq = UC_IPC_SEQ_ID_MIN\<rparr>"
  obtain ret bs where rnd: "uc_urandom (fst (clt_random e)) 8 (snd (clt_random e)) = Some (ret, bs)"
    using rnd_ok by auto
  let ?b1 = "?b0\<lparr>cb_seq := first_seq_id bs\<rparr>"
  let ?b2 = "?b1\<lparr>cb_sock := clt_socket e\<rparr>"
  let ?held = "{#Condition, Lock 2, Lock 1, Lock 0, Memory 0#}"
  have held: "?held = client_held ?b0" "?held = client_held ?b1"
    by (simp_all add: client_held_def)
  have held2: "clt_socket e \<noteq> - 1 \<Longrightarrow> add_mset (Descriptor (clt_socket e)) ?held = client_held ?b2"
    by (simp add: client_held_def)
  have run: "uc_ipc_init_client e =
      (if ret \<noteq> 0 then client_fails ?b0 ?held
       else if clt_socket e = - 1 then client_fails ?b1 ?held
       else if connect_result e \<noteq> 0 then client_fails ?b2 (add_mset (Descriptor (clt_socket e)) ?held)
       else client_connected e ?b2 (add_mset (Descriptor (clt_socket e)) ?held))"
    using begun rnd by (simp add: uc_ipc_init_client_def)
  have up: "client_calls_ok e \<longleftrightarrow> ret = 0 \<and> clt_socket e \<noteq> - 1 \<and> connect_result e = 0 \<and> clt_table e"
    using begun rnd by (auto simp: client_calls_ok_def)
  note fails = client_fails_outcome [of False e]
  consider "ret \<noteq> 0" | "ret = 0" "clt_socket e = - 1" | "ret = 0" "clt_socket e \<noteq> - 1" "connect_result e \<noteq> 0"
    | "ret = 0" "clt_socket e \<noteq> - 1" "connect_result e = 0"
    by blast
  then show "client_ends e (client_calls_ok e) (uc_ipc_init_client e)"
  proof cases
    case 1
    then show ?thesis
      unfolding run up using fails [of ?b0] held(1) by simp
  next
    case 2
    then show ?thesis
      unfolding run up using fails [of ?b1] held(2) by simp
  next
    case 3
    then show ?thesis
      unfolding run up using fails [of ?b2] held2 by simp
  next
    case 4
    have "client_ends e (clt_table e) (client_connected e ?b2 (client_held ?b2))"
      by (rule client_connected_outcome) (use 4 in \<open>simp_all add: first_seq_id_min\<close>)
    with 4 show ?thesis
      unfolding run up using held2 by simp
  qed
qed

section \<open>Properties\<close>

text \<open>C38: provided that reading the random number ends, the start of the server has four ends. When only the
  second lock cannot be made, the first one is lost. When all calls up to the thread pool succeed, but the
  pool gets its memory and then has no lock or condition, no memory for the entry of a task, or a queue
  that is never seen empty, the function does not return (it crashes in the first case, and waits for ever
  in the others). Otherwise it returns: a server in good order, without clients, that holds each of its
  resources once, together with the list entries of threads that could not be started, exactly when all
  calls succeed; and else nothing, with all that it got given back, and nothing twice.\<close>

theorem uc_ipc_init_server_clean:
  assumes "\<And>p0 p1. srv_pipe e = Some (p0, p1) \<Longrightarrow> p0 \<noteq> - 1 \<and> p1 \<noteq> - 1"
    and "uc_random (fst (srv_random e)) 8 (snd (srv_random e)) \<noteq> None"
  shows "if srv_calloc e \<and> srv_mutex e 0 \<and> \<not> srv_mutex e 1 then uc_ipc_init_server e = Some (None, {#Lock 0#})
    else if server_calls_ok e \<and> pool_stuck (srv_pool e) then uc_ipc_init_server e = None
    else \<exists>res held. uc_ipc_init_server e = Some (res, held) \<and> server_outcome (pool_left (srv_pool e) 2) res held \<and>
      (res \<noteq> None \<longleftrightarrow> server_calls_ok e \<and> pool_calloc (srv_pool e))"
proof (cases "srv_calloc e \<and> srv_mutex e 0 \<and> srv_mutex e 1")
  case True
  have "server_ends e (server_calls_ok e) (uc_ipc_init_server e)"
    by (rule server_begun [OF _ assms(2) True]) (rule assms(1))
  with True show ?thesis
    by (simp only: server_ends_def simp_thms if_False)
next
  case False
  then have "\<not> server_calls_ok e"
    by (auto simp: server_calls_ok_def)
  with False show ?thesis
    by (auto simp: uc_ipc_init_server_def server_outcome_def give_def)
qed

text \<open>Everything succeeds, but for the second thread of the server's pool.\<close>

definition demo_pool_env :: pool_env where
  "demo_pool_env = \<lparr>pool_calloc = True, pool_mutex = True, pool_cond = True, pool_spawns = [(Some 0, 0, 10), (Some 1, 11, 0)],
     pool_entries = True, pool_tries = [], pool_looks = [\<lparr>plinks = empty_lists, tasks = Map.empty, pids = Map.empty, list_task_ttl = 0,
       list_task_max = 0, thread_min = 2, thread_max = 2, thread_alive = 2, shutdown = 0, locked_forever = False\<rparr>]\<rparr>"

definition demo_server_env :: "bool \<Rightarrow> server_env" where
  "demo_server_env mem = \<lparr>srv_calloc = True, srv_mutex = (\<lambda>_. True), srv_random = (True, [Data (replicate 8 9)]),
     srv_pipe = Some (3, 4), srv_epoll = 5, srv_table = (\<lambda>_. True), srv_socket = 6, srv_ip = Some ''127.0.0.1'', srv_port = 80,
     srv_junk = 0, srv_bind = (\<lambda>a p. if a = htonl 0x7f000001 \<and> p = htons 80 then 0 else - 1), srv_listen = 0,
     srv_conn = True, srv_ctl = 0, srv_pool = demo_pool_env\<lparr>pool_entries := mem\<rparr>\<rparr>"

definition demo_client_env :: "bool \<Rightarrow> client_env" where
  "demo_client_env mem = \<lparr>clt_calloc = True, clt_mutex = (\<lambda>_. True), clt_cond = True, clt_random = (True, [Data (replicate 8 9)]),
     clt_ip = ''127.0.0.1'', clt_port = 80, clt_inet_addr = (\<lambda>a. if a = ''127.0.0.1'' then 0x0100007f else 0xffffffff),
     clt_socket = 3, clt_connect = (\<lambda>a p. if a = 0x0100007f \<and> p = htons 80 then 0 else - 1), clt_table = True,
     clt_pool = demo_pool_env\<lparr>pool_entries := mem\<rparr>\<rparr>"

lemma demo_random:
  "\<exists>bs. uc_random True 8 [Data (replicate 8 9)] = Some (0, bs)" "\<exists>bs. uc_urandom True 8 [Data (replicate 8 9)] = Some (0, bs)"
  by (simp_all add: uc_random_def uc_urandom_def random_loop.simps)

lemma demo_env_facts:
  "pool_stuck (demo_pool_env\<lparr>pool_entries := mem\<rparr>) \<longleftrightarrow> \<not> mem" "pool_left (demo_pool_env\<lparr>pool_entries := mem\<rparr>) 2 = [1]"
  "pool_left (demo_pool_env\<lparr>pool_entries := mem\<rparr>) 3 = [1]" "pool_calloc (demo_pool_env\<lparr>pool_entries := mem\<rparr>)"
proof -
  have "list_empty Task_head empty_lists"
    by (simp add: list_empty_def empty_lists_def list_init_def)
  then show "pool_stuck (demo_pool_env\<lparr>pool_entries := mem\<rparr>) \<longleftrightarrow> \<not> mem"
    by (simp add: pool_stuck_def demo_pool_env_def)
qed (simp_all add: pool_left_def demo_pool_env_def numeral_2_eq_2 numeral_3_eq_3)

lemma uc_ipc_init_server_clean_witness:
  "(\<exists>res held. uc_ipc_init_server (demo_server_env True) = Some (Some res, held) \<and> server_outcome [1] (Some res) held) \<and>
   uc_ipc_init_server (demo_server_env False) = None"
proof -
  have "\<exists>bs. uc_random True 8 [Data (replicate 8 9)] = Some (0, bs)"
    by (rule demo_random)
  moreover have "uc_utils_ipv4_str_to_host 0 (Some ''127.0.0.1'') = 0x7f000001"
    by code_simp
  ultimately have up: "server_calls_ok (demo_server_env mem)" for mem
    by (auto simp: server_calls_ok_def demo_server_env_def bind_result_def)
  show ?thesis
    using uc_ipc_init_server_clean [of "demo_server_env True"] uc_ipc_init_server_clean [of "demo_server_env False"]
      up demo_env_facts demo_random(1) by (auto simp: demo_server_env_def)
qed

text \<open>C39: provided that reading the random number ends, the start of the client has these ends. When a lock or
  the condition cannot be made, the locks made before are lost, but for the last one when it is the
  condition that fails. When all calls up to the thread pool succeed, but the pool gets its memory and then
  has no lock or condition, no memory for the entry of a task, or a queue that is never seen empty, the
  function does not return (it crashes in the first case, and waits for ever in the others). Otherwise it
  returns: a connected client that awaits nothing and holds each resource once, together with the list
  entries of threads that could not be started, exactly when all calls succeed; and else nothing, with all
  that it got given back, and nothing twice.\<close>

theorem uc_ipc_init_client_clean:
  assumes "uc_urandom (fst (clt_random e)) 8 (snd (clt_random e)) \<noteq> None"
  shows "if clt_calloc e \<and> clt_mutex e 0 \<and> (\<not> clt_mutex e 1 \<or> \<not> clt_mutex e 2 \<or> \<not> clt_cond e)
    then uc_ipc_init_client e = Some (None, if \<not> clt_mutex e 1 then {#Lock 0#} else {#Lock 0, Lock 1#})
    else if client_calls_ok e \<and> pool_stuck (clt_pool e) then uc_ipc_init_client e = None
    else \<exists>res held. uc_ipc_init_client e = Some (res, held) \<and> client_outcome (pool_left (clt_pool e) 3) res held \<and>
      (res \<noteq> None \<longleftrightarrow> client_calls_ok e \<and> pool_calloc (clt_pool e))"
proof (cases "clt_calloc e \<and> clt_mutex e 0 \<and> clt_mutex e 1 \<and> clt_mutex e 2 \<and> clt_cond e")
  case True
  from client_begun [OF assms this] True show ?thesis
    by (simp only: client_ends_def simp_thms if_False)
next
  case False
  then have "\<not> client_calls_ok e"
    by (auto simp: client_calls_ok_def)
  with False show ?thesis
    by (auto simp: uc_ipc_init_client_def client_outcome_def give_def)
qed

lemma uc_ipc_init_client_clean_witness:
  "(\<exists>res held. uc_ipc_init_client (demo_client_env True) = Some (Some res, held) \<and> client_outcome [1] (Some res) held) \<and>
   uc_ipc_init_client (demo_client_env False) = None"
proof -
  have "\<exists>bs. uc_urandom True 8 [Data (replicate 8 9)] = Some (0, bs)"
    by (rule demo_random)
  then have up: "client_calls_ok (demo_client_env mem)" for mem
    by (auto simp: client_calls_ok_def demo_client_env_def connect_result_def)
  show ?thesis
    using uc_ipc_init_client_clean [of "demo_client_env True"] uc_ipc_init_client_clean [of "demo_client_env False"]
      up demo_env_facts demo_random(2) by (auto simp: demo_client_env_def)
qed

end
