(* ===== verification/List_Entry.thy ===== *)
theory List_Entry
  imports List_Ops H_List
begin

text \<open>
  \<^verbatim>\<open>include/list.h\<close>, the iteration macros over the structures the links are embedded in. Addresses are
  64-bit words, and \<open>off\<close> is the offset of the member, so an entry is the address of its links less the
  offset. A macro is run with the body of its loop, a function of the entry and the store; the result is
  the list of the entries the body saw and the store at the end, \<open>None\<close> when the loop does not end.
  \<^verbatim>\<open>prefetch\<close> has no effect.
\<close>

section \<open>Doubly linked lists\<close>

definition list_entry :: "u64 \<Rightarrow> u64 \<Rightarrow> u64" where
  "list_entry off ptr = ptr - off"

lemma list_entry_member [simp]: "list_entry off p + off = p"
  by (simp add: list_entry_def)

definition list_first_entry :: "u64 \<Rightarrow> u64 \<Rightarrow> u64 links \<Rightarrow> u64" where
  "list_first_entry off ptr h = list_entry off (lnext h ptr)"

text \<open>The rounds of the macros that step along \<open>nx\<close>, \<^verbatim>\<open>next\<close> or \<^verbatim>\<open>prev\<close>, from the entry \<open>pos\<close> on.\<close>

partial_function (option) entry_loop :: "(u64 links \<Rightarrow> u64 \<Rightarrow> u64) \<Rightarrow> u64 \<Rightarrow> u64 \<Rightarrow>
    (u64 \<Rightarrow> u64 links \<Rightarrow> u64 links) \<Rightarrow> u64 \<Rightarrow> u64 links \<Rightarrow> (u64 list \<times> u64 links) option" where
  "entry_loop nx off head body pos h =
     (if pos + off = head then Some ([], h)
      else do { (es, h') \<leftarrow> entry_loop nx off head body (list_entry off (nx (body pos h) (pos + off))) (body pos h);
                Some (pos # es, h') })"

definition list_for_each_entry :: "u64 \<Rightarrow> u64 \<Rightarrow> (u64 \<Rightarrow> u64 links \<Rightarrow> u64 links) \<Rightarrow> u64 links \<Rightarrow>
    (u64 list \<times> u64 links) option" where
  "list_for_each_entry off head body h = entry_loop lnext off head body (list_entry off (lnext h head)) h"

definition list_for_each_entry_reverse :: "u64 \<Rightarrow> u64 \<Rightarrow> (u64 \<Rightarrow> u64 links \<Rightarrow> u64 links) \<Rightarrow> u64 links \<Rightarrow>
    (u64 list \<times> u64 links) option" where
  "list_for_each_entry_reverse off head body h = entry_loop lprev off head body (list_entry off (lprev h head)) h"

definition list_prepare_entry :: "u64 \<Rightarrow> u64 \<Rightarrow> u64 \<Rightarrow> u64" where
  "list_prepare_entry off pos head = (if pos \<noteq> 0 then pos else list_entry off head)"

definition list_for_each_entry_continue :: "u64 \<Rightarrow> u64 \<Rightarrow> (u64 \<Rightarrow> u64 links \<Rightarrow> u64 links) \<Rightarrow> u64 \<Rightarrow> u64 links \<Rightarrow>
    (u64 list \<times> u64 links) option" where
  "list_for_each_entry_continue off head body pos h =
     entry_loop lnext off head body (list_entry off (lnext h (pos + off))) h"

definition list_for_each_entry_continue_reverse :: "u64 \<Rightarrow> u64 \<Rightarrow> (u64 \<Rightarrow> u64 links \<Rightarrow> u64 links) \<Rightarrow> u64 \<Rightarrow> u64 links \<Rightarrow>
    (u64 list \<times> u64 links) option" where
  "list_for_each_entry_continue_reverse off head body pos h =
     entry_loop lprev off head body (list_entry off (lprev h (pos + off))) h"

definition list_for_each_entry_from :: "u64 \<Rightarrow> u64 \<Rightarrow> (u64 \<Rightarrow> u64 links \<Rightarrow> u64 links) \<Rightarrow> u64 \<Rightarrow> u64 links \<Rightarrow>
    (u64 list \<times> u64 links) option" where
  "list_for_each_entry_from off head body pos h = entry_loop lnext off head body pos h"

text \<open>The rounds of the macros that are safe against removal: \<open>n\<close> is read before the body runs.\<close>

partial_function (option) entry_safe_loop :: "(u64 links \<Rightarrow> u64 \<Rightarrow> u64) \<Rightarrow> u64 \<Rightarrow> u64 \<Rightarrow>
    (u64 \<Rightarrow> u64 links \<Rightarrow> u64 links) \<Rightarrow> u64 \<Rightarrow> u64 \<Rightarrow> u64 links \<Rightarrow> (u64 list \<times> u64 links) option" where
  "entry_safe_loop nx off head body pos n h =
     (if pos + off = head then Some ([], h)
      else do { (es, h') \<leftarrow> entry_safe_loop nx off head body n (list_entry off (nx (body pos h) (n + off))) (body pos h);
                Some (pos # es, h') })"

definition list_for_each_entry_safe :: "u64 \<Rightarrow> u64 \<Rightarrow> (u64 \<Rightarrow> u64 links \<Rightarrow> u64 links) \<Rightarrow> u64 links \<Rightarrow>
    (u64 list \<times> u64 links) option" where
  "list_for_each_entry_safe off head body h =
     (let pos = list_entry off (lnext h head); n = list_entry off (lnext h (pos + off))
      in entry_safe_loop lnext off head body pos n h)"

definition list_for_each_entry_safe_continue :: "u64 \<Rightarrow> u64 \<Rightarrow> (u64 \<Rightarrow> u64 links \<Rightarrow> u64 links) \<Rightarrow> u64 \<Rightarrow> u64 links \<Rightarrow>
    (u64 list \<times> u64 links) option" where
  "list_for_each_entry_safe_continue off head body pos h =
     (let pos = list_entry off (lnext h (pos + off)); n = list_entry off (lnext h (pos + off))
      in entry_safe_loop lnext off head body pos n h)"

definition list_for_each_entry_safe_from :: "u64 \<Rightarrow> u64 \<Rightarrow> (u64 \<Rightarrow> u64 links \<Rightarrow> u64 links) \<Rightarrow> u64 \<Rightarrow> u64 links \<Rightarrow>
    (u64 list \<times> u64 links) option" where
  "list_for_each_entry_safe_from off head body pos h =
     (let n = list_entry off (lnext h (pos + off)) in entry_safe_loop lnext off head body pos n h)"

definition list_for_each_entry_safe_reverse :: "u64 \<Rightarrow> u64 \<Rightarrow> (u64 \<Rightarrow> u64 links \<Rightarrow> u64 links) \<Rightarrow> u64 links \<Rightarrow>
    (u64 list \<times> u64 links) option" where
  "list_for_each_entry_safe_reverse off head body h =
     (let pos = list_entry off (lprev h head); n = list_entry off (lprev h (pos + off))
      in entry_safe_loop lprev off head body pos n h)"

definition list_safe_reset_next :: "u64 \<Rightarrow> u64 \<Rightarrow> u64 links \<Rightarrow> u64" where
  "list_safe_reset_next off pos h = list_entry off (lnext h (pos + off))"

text \<open>The cursor of \<^verbatim>\<open>list_for_each_prev_safe\<close> is the address of the links itself.\<close>

definition list_for_each_prev_safe :: "u64 \<Rightarrow> (u64 \<Rightarrow> u64 links \<Rightarrow> u64 links) \<Rightarrow> u64 links \<Rightarrow>
    (u64 list \<times> u64 links) option" where
  "list_for_each_prev_safe head body h =
     (let pos = lprev h head; n = lprev h pos in entry_safe_loop lprev 0 head body pos n h)"

section \<open>Lists with a single-pointer head\<close>

definition hlist_entry :: "u64 \<Rightarrow> u64 \<Rightarrow> u64" where
  "hlist_entry off ptr = ptr - off"

partial_function (option) hentry_loop :: "u64 \<Rightarrow> (u64 \<Rightarrow> u64 hlinks \<Rightarrow> u64 hlinks option) \<Rightarrow> u64 option \<Rightarrow> u64 hlinks \<Rightarrow>
    (u64 list \<times> u64 hlinks) option" where
  "hentry_loop off body pos s =
     (case pos of
        None \<Rightarrow> Some ([], s)
      | Some p \<Rightarrow> do { s' \<leftarrow> body (hlist_entry off p) s;
                       (es, s'') \<leftarrow> hentry_loop off body (cell s' (HNext p)) s';
                       Some (hlist_entry off p # es, s'') })"

definition hlist_for_each_entry :: "u64 \<Rightarrow> u64 \<Rightarrow> (u64 \<Rightarrow> u64 hlinks \<Rightarrow> u64 hlinks option) \<Rightarrow> u64 hlinks \<Rightarrow>
    (u64 list \<times> u64 hlinks) option" where
  "hlist_for_each_entry off head body s = hentry_loop off body (cell s (HFirst head)) s"

definition hlist_for_each_entry_continue :: "u64 \<Rightarrow> (u64 \<Rightarrow> u64 hlinks \<Rightarrow> u64 hlinks option) \<Rightarrow> u64 \<Rightarrow> u64 hlinks \<Rightarrow>
    (u64 list \<times> u64 hlinks) option" where
  "hlist_for_each_entry_continue off body pos s = hentry_loop off body (cell s (HNext pos)) s"

definition hlist_for_each_entry_from :: "u64 \<Rightarrow> (u64 \<Rightarrow> u64 hlinks \<Rightarrow> u64 hlinks option) \<Rightarrow> u64 option \<Rightarrow> u64 hlinks \<Rightarrow>
    (u64 list \<times> u64 hlinks) option" where
  "hlist_for_each_entry_from off body pos s = hentry_loop off body pos s"

partial_function (option) hentry_safe_loop :: "u64 \<Rightarrow> (u64 \<Rightarrow> u64 hlinks \<Rightarrow> u64 hlinks option) \<Rightarrow> u64 option \<Rightarrow> u64 hlinks \<Rightarrow>
    (u64 list \<times> u64 hlinks) option" where
  "hentry_safe_loop off body pos s =
     (case pos of
        None \<Rightarrow> Some ([], s)
      | Some p \<Rightarrow> (let n = cell s (HNext p) in
          do { s' \<leftarrow> body (hlist_entry off p) s;
               (es, s'') \<leftarrow> hentry_safe_loop off body n s';
               Some (hlist_entry off p # es, s'') }))"

definition hlist_for_each_entry_safe :: "u64 \<Rightarrow> u64 \<Rightarrow> (u64 \<Rightarrow> u64 hlinks \<Rightarrow> u64 hlinks option) \<Rightarrow> u64 hlinks \<Rightarrow>
    (u64 list \<times> u64 hlinks) option" where
  "hlist_for_each_entry_safe off head body s = hentry_safe_loop off body (cell s (HFirst head)) s"

section \<open>What the loops visit\<close>

text \<open>A body that unlinks the entry it is given unless it is to be kept, and leaves the list alone otherwise.\<close>

definition filters :: "u64 \<Rightarrow> u64 \<Rightarrow> (u64 \<Rightarrow> u64 links \<Rightarrow> u64 links) \<Rightarrow> (u64 \<Rightarrow> bool) \<Rightarrow> bool" where
  "filters off head body keep \<longleftrightarrow> (\<forall>h as x bs. dlist h head (as @ x # bs) \<longrightarrow>
     dlist (body (list_entry off x) h) head (as @ filter keep [x] @ bs))"

lemma filtersD:
  "filters off head body keep \<Longrightarrow> dlist h head (as @ x # bs) \<Longrightarrow>
    dlist (body (list_entry off x) h) head (as @ filter keep [x] @ bs)"
  unfolding filters_def by blast

lemma dlist_not_head: "dlist h head (as @ x # bs) \<Longrightarrow> x \<noteq> head"
  by (auto simp: dlist_def)

lemma next_hd: "dlist h head (as @ x # bs) \<Longrightarrow> lnext h x = hd (bs @ [head])"
  by (cases bs) (auto dest: dlist_nextD)

lemma prev_hd: "dlist h head (rev bs @ x # cs) \<Longrightarrow> lprev h x = hd (bs @ [head])"
  using dlist_prevD [of h head "rev bs" x cs] by (cases bs) simp_all

lemma first_hd: "dlist h head bs \<Longrightarrow> lnext h head = hd (bs @ [head])"
  by (cases bs) (auto dest: dlist_first)

lemma last_hd: "dlist h head (rev bs) \<Longrightarrow> lprev h head = hd (bs @ [head])"
  by (cases bs) (auto dest: dlist_last)

abbreviation keep_all :: "u64 \<Rightarrow> bool" where "keep_all \<equiv> \<lambda>_. True"

lemma entry_loop_next:
  assumes "filters off head body keep_all" "dlist h head (as @ bs)"
  shows "entry_loop lnext off head body (list_entry off (hd (bs @ [head]))) h =
    Some (map (list_entry off) bs, fold body (map (list_entry off) bs) h)"
  using assms(2)
proof (induction bs arbitrary: as h)
  case Nil
  then show ?case
    by (simp add: entry_loop.simps)
next
  case (Cons x bs)
  let ?h = "body (list_entry off x) h"
  have h: "dlist ?h head (as @ x # bs)"
    using filtersD [OF assms(1) Cons.prems] by simp
  then have "dlist ?h head ((as @ [x]) @ bs)"
    by simp
  from Cons.IH [OF this] show ?case
    using dlist_not_head [OF h] next_hd [OF h] by (subst entry_loop.simps) simp
qed

lemma entry_loop_prev:
  assumes "filters off head body keep_all" "dlist h head (rev bs @ cs)"
  shows "entry_loop lprev off head body (list_entry off (hd (bs @ [head]))) h =
    Some (map (list_entry off) bs, fold body (map (list_entry off) bs) h)"
  using assms(2)
proof (induction bs arbitrary: cs h)
  case Nil
  then show ?case
    by (simp add: entry_loop.simps)
next
  case (Cons x bs)
  let ?h = "body (list_entry off x) h"
  have h: "dlist ?h head (rev bs @ x # cs)"
    using filtersD [OF assms(1), of h "rev bs" x cs] Cons.prems by simp
  from Cons.IH [OF this] show ?case
    using dlist_not_head [OF h] prev_hd [OF h] by (subst entry_loop.simps) simp
qed

lemma entry_safe_next:
  assumes "filters off head body keep" "dlist h head (as @ bs)"
    and "bs \<noteq> [] \<Longrightarrow> n = list_entry off (hd (tl bs @ [head]))"
  shows "entry_safe_loop lnext off head body (list_entry off (hd (bs @ [head]))) n h =
      Some (map (list_entry off) bs, fold body (map (list_entry off) bs) h) \<and>
    dlist (fold body (map (list_entry off) bs) h) head (as @ filter keep bs)"
  using assms(2,3)
proof (induction bs arbitrary: as h n)
  case Nil
  then show ?case
    by (simp add: entry_safe_loop.simps)
next
  case (Cons x bs)
  let ?h = "body (list_entry off x) h"
  have h: "dlist ?h head ((as @ filter keep [x]) @ bs)"
    using filtersD [OF assms(1) Cons.prems(1)] by simp
  have n: "n = list_entry off (hd (bs @ [head]))"
    using Cons.prems(2) by simp
  have nxt: "list_entry off (lnext ?h (n + off)) = list_entry off (hd (tl bs @ [head]))" if "bs \<noteq> []"
  proof -
    obtain y ys where bs: "bs = y # ys"
      using \<open>bs \<noteq> []\<close> by (cases bs) blast
    then show ?thesis
      using next_hd [of ?h head "as @ filter keep [x]" y ys] h n by simp
  qed
  from Cons.IH [OF h nxt] show ?case
    using dlist_not_head [OF Cons.prems(1)] n by (subst entry_safe_loop.simps) (simp split: if_split_asm)
qed

lemma entry_safe_prev:
  assumes "filters off head body keep" "dlist h head (rev bs @ cs)"
    and "bs \<noteq> [] \<Longrightarrow> n = list_entry off (hd (tl bs @ [head]))"
  shows "entry_safe_loop lprev off head body (list_entry off (hd (bs @ [head]))) n h =
      Some (map (list_entry off) bs, fold body (map (list_entry off) bs) h) \<and>
    dlist (fold body (map (list_entry off) bs) h) head (rev (filter keep bs) @ cs)"
  using assms(2,3)
proof (induction bs arbitrary: cs h n)
  case Nil
  then show ?case
    by (simp add: entry_safe_loop.simps)
next
  case (Cons x bs)
  let ?h = "body (list_entry off x) h"
  have at: "dlist h head (rev bs @ x # cs)"
    using Cons.prems(1) by simp
  have h: "dlist ?h head (rev bs @ filter keep [x] @ cs)"
    using filtersD [OF assms(1) at] by simp
  have n: "n = list_entry off (hd (bs @ [head]))"
    using Cons.prems(2) by simp
  have nxt: "list_entry off (lprev ?h (n + off)) = list_entry off (hd (tl bs @ [head]))" if "bs \<noteq> []"
  proof -
    obtain y ys where bs: "bs = y # ys"
      using \<open>bs \<noteq> []\<close> by (cases bs) blast
    then show ?thesis
      using prev_hd [of ?h head ys y "filter keep [x] @ cs"] h n by simp
  qed
  from Cons.IH [OF h nxt] show ?case
    using dlist_not_head [OF at] n by (subst entry_safe_loop.simps) (simp split: if_split_asm)
qed

lemma safe_reverse_whole:
  assumes "filters off head body keep" "dlist h head ws"
  shows "list_for_each_entry_safe_reverse off head body h = Some (map (list_entry off) (rev ws), fold body (map (list_entry off) (rev ws)) h) \<and>
    dlist (fold body (map (list_entry off) (rev ws)) h) head (filter keep ws)"
proof -
  have n: "list_entry off (lprev h (hd (rev ws @ [head]))) = list_entry off (hd (tl (rev ws) @ [head]))" if "rev ws \<noteq> []"
    using that assms(2) prev_hd [of h head "tl (rev ws)" "hd (rev ws)" "[]"] by (cases ws rule: rev_cases) auto
  have "rev (filter keep (rev ws)) = filter keep ws"
    by (simp add: rev_filter)
  then show ?thesis
    using entry_safe_prev [OF assms(1), of h "rev ws" "[]", OF _ n] assms(2) last_hd [of h head "rev ws"]
    by (simp add: list_for_each_entry_safe_reverse_def Let_def)
qed

lemma safe_from_rest:
  assumes "filters off head body keep" "dlist h head (as @ bs)"
  shows "entry_safe_loop lnext off head body (list_entry off (hd (bs @ [head]))) (list_entry off (lnext h (hd (bs @ [head])))) h =
      Some (map (list_entry off) bs, fold body (map (list_entry off) bs) h) \<and>
    dlist (fold body (map (list_entry off) bs) h) head (as @ filter keep bs)"
  by (rule entry_safe_next [OF assms]) (use assms(2) in \<open>cases bs; auto dest: next_hd\<close>)

text \<open>The same for the lists with a single-pointer head.\<close>

definition hfilters :: "u64 \<Rightarrow> u64 \<Rightarrow> (u64 \<Rightarrow> u64 hlinks \<Rightarrow> u64 hlinks option) \<Rightarrow> (u64 \<Rightarrow> bool) \<Rightarrow> bool" where
  "hfilters off head body keep \<longleftrightarrow> (\<forall>s as x bs. hlist s head (as @ x # bs) \<longrightarrow>
     (\<exists>s'. body (hlist_entry off x) s = Some s' \<and> hlist s' head (as @ filter keep [x] @ bs)))"

lemma hfiltersD:
  assumes "hfilters off head body keep" "hlist s head (as @ x # bs)"
  obtains s' where "body (hlist_entry off x) s = Some s'" "hlist s' head (as @ filter keep [x] @ bs)"
  using assms unfolding hfilters_def by blast

definition first_of :: "'a list \<Rightarrow> 'a option" where
  "first_of xs = (case xs of [] \<Rightarrow> None | x # _ \<Rightarrow> Some x)"

lemma first_of_simps [simp]: "first_of [] = None" "first_of (x # xs) = Some x"
  by (simp_all add: first_of_def)

lemma hnext_first: "hlist s head (as @ x # bs) \<Longrightarrow> cell s (HNext x) = first_of bs"
  using hlist_next [of s head as x bs] by (simp add: first_of_def)

lemma hhead_first: "hlist s head bs \<Longrightarrow> cell s (HFirst head) = first_of bs"
  using hlist_cell [of s head "[]" bs] by (simp add: first_of_def)

lemma hentry_loop_visits:
  assumes "hfilters off head body keep_all" "hlist s head (as @ bs)"
  shows "\<exists>s'. hentry_loop off body (first_of bs) s = Some (map (hlist_entry off) bs, s') \<and> hlist s' head (as @ bs)"
  using assms(2)
proof (induction bs arbitrary: as s)
  case Nil
  then show ?case
    by (simp add: hentry_loop.simps)
next
  case (Cons x bs)
  obtain s1 where s1: "body (hlist_entry off x) s = Some s1" "hlist s1 head (as @ x # bs)"
    using hfiltersD [OF assms(1) Cons.prems] by auto
  then have "hlist s1 head ((as @ [x]) @ bs)"
    by simp
  from Cons.IH [OF this] obtain s' where "hentry_loop off body (first_of bs) s1 = Some (map (hlist_entry off) bs, s')"
    "hlist s' head (as @ x # bs)"
    by auto
  then show ?case
    using s1 hnext_first [OF s1(2)] by (subst hentry_loop.simps) simp
qed

lemma hentry_safe_visits:
  assumes "hfilters off head body keep" "hlist s head (as @ bs)"
  shows "\<exists>s'. hentry_safe_loop off body (first_of bs) s = Some (map (hlist_entry off) bs, s') \<and>
    hlist s' head (as @ filter keep bs)"
  using assms(2)
proof (induction bs arbitrary: as s)
  case Nil
  then show ?case
    by (simp add: hentry_safe_loop.simps)
next
  case (Cons x bs)
  obtain s1 where s1: "body (hlist_entry off x) s = Some s1" "hlist s1 head ((as @ filter keep [x]) @ bs)"
    using hfiltersD [OF assms(1) Cons.prems] by auto
  from Cons.IH [OF s1(2)] obtain s' where "hentry_safe_loop off body (first_of bs) s1 = Some (map (hlist_entry off) bs, s')"
    "hlist s' head ((as @ filter keep [x]) @ filter keep bs)"
    by auto
  then show ?case
    using s1 hnext_first [OF Cons.prems] by (subst hentry_safe_loop.simps) (simp split: if_split_asm)
qed

section \<open>A removal the unsafe loops do not survive\<close>

text \<open>\<^verbatim>\<open>list_del_init\<close> makes the entry its own successor.\<close>

lemma entry_loop_del_init:
  "entry_loop lnext off head (\<lambda>e. list_del_init (e + off)) pos h = Some r \<Longrightarrow> pos + off = head"
proof -
  let ?P = "\<lambda>nx off head body pos h (r :: u64 list \<times> u64 links).
    body = (\<lambda>e. list_del_init (e + off)) \<and> nx = lnext \<longrightarrow> pos + off = head"
  have "?P nx off head body pos h r" if "entry_loop nx off head body pos h = Some r" for nx off head body pos h r
  proof (rule entry_loop.raw_induct [of ?P, OF _ that])
    fix loop nx off head body pos h r
    assume IH: "\<And>nx off head body pos h r. loop nx off head body pos h = Some r \<Longrightarrow> ?P nx off head body pos h r"
      and run: "(if pos + off = head then Some ([], h)
        else do { (es, h') \<leftarrow> loop nx off head body (list_entry off (nx (body pos h) (pos + off))) (body pos h);
                  Some (pos # es, h') }) = Some r"
    show "?P nx off head body pos h r"
    proof (intro impI, rule ccontr)
      assume body: "body = (\<lambda>e. list_del_init (e + off)) \<and> nx = lnext" and pos: "pos + off \<noteq> head"
      then have "list_entry off (nx (body pos h) (pos + off)) = pos"
        by (simp add: list_del_init_def list_init_def list_entry_def)
      then obtain r' where "loop nx off head body pos (body pos h) = Some r'"
        using run pos by (auto simp: bind_eq_Some_conv)
      from IH [OF this] body pos show False
        by blast
    qed
  qed
  then show "entry_loop lnext off head (\<lambda>e. list_del_init (e + off)) pos h = Some r \<Longrightarrow> pos + off = head"
    by blast
qed

section \<open>The macros of the single-pointer lists\<close>

theorem hlist_entry_loops_visit:
  assumes "hlist s head (as @ x # bs)" "hfilters off head body keep_all"
  shows "\<exists>s'. hlist_for_each_entry off head body s = Some (map (hlist_entry off) (as @ x # bs), s') \<and> hlist s' head (as @ x # bs)"
    and "\<exists>s'. hlist_for_each_entry_continue off body x s = Some (map (hlist_entry off) bs, s') \<and> hlist s' head (as @ x # bs)"
    and "\<exists>s'. hlist_for_each_entry_from off body (Some x) s = Some (map (hlist_entry off) (x # bs), s') \<and> hlist s' head (as @ x # bs)"
  using hentry_loop_visits [OF assms(2), of s "[]" "as @ x # bs"] hentry_loop_visits [OF assms(2), of s "as @ [x]" bs]
    hentry_loop_visits [OF assms(2,1)] assms(1) hhead_first [OF assms(1)] hnext_first [OF assms(1)]
  by (simp_all add: hlist_for_each_entry_def hlist_for_each_entry_continue_def hlist_for_each_entry_from_def)

theorem hlist_entry_safe_filters:
  assumes "hlist s head bs" "hfilters off head body keep"
  shows "\<exists>s'. hlist_for_each_entry_safe off head body s = Some (map (hlist_entry off) bs, s') \<and> hlist s' head (filter keep bs)"
  using hentry_safe_visits [OF assms(2), of s "[]" bs] assms(1) hhead_first [OF assms(1)]
  by (simp add: hlist_for_each_entry_safe_def)

lemma hfilters_del: "hfilters off head (\<lambda>e. hlist_del (e + off)) (\<lambda>_. False)"
  by (auto simp: hfilters_def hlist_entry_def hlist_del_def hlist_pprev del_raw_cut_out cut_out_hlist)

section \<open>Properties\<close>

lemma filters_del_init: "filters off head (\<lambda>e. list_del_init (e + off)) (\<lambda>_. False)"
  by (simp add: filters_def dlist_list_del_init)

text \<open>C34: over a list, a body that leaves it alone is run by \<open>list_for_each_entry\<close> on each entry in order, by
  the reverse form in reverse order, by the continuing forms on those after or before the entry given,
  by the form from an entry on it and those after it; from a null entry made ready, on all.\<close>

theorem list_entry_loops_visit:
  assumes "dlist h head (as @ x # bs)" "filters off head body keep_all"
  shows "(let E = map (list_entry off); whole = as @ x # bs; run = (\<lambda>es. Some (E es, fold body (E es) h)) in
    list_for_each_entry off head body h = run whole \<and>
    list_for_each_entry_reverse off head body h = run (rev whole) \<and>
    list_for_each_entry_continue off head body (list_entry off x) h = run bs \<and>
    list_for_each_entry_continue_reverse off head body (list_entry off x) h = run (rev as) \<and>
    list_for_each_entry_from off head body (list_entry off x) h = run (x # bs) \<and>
    list_for_each_entry_continue off head body (list_prepare_entry off 0 head) h = run whole)"
proof -
  note nxt = entry_loop_next [OF assms(2)] and prv = entry_loop_prev [OF assms(2)]
  have "dlist h head (rev (rev (as @ x # bs)) @ [])" "dlist h head ((as @ [x]) @ bs)" "dlist h head (rev (rev as) @ x # bs)"
    using assms(1) by simp_all
  note whole = nxt [of h "[]", simplified, OF assms(1)] prv [OF this(1)]
    and rest = nxt [OF this(2)] prv [OF this(3)]
  note first = first_hd [OF assms(1)] last_hd [of h head "rev (as @ x # bs)"]
  show ?thesis
    using whole rest first nxt [OF assms(1)] assms(1) next_hd [OF assms(1)] prev_hd [of h head "rev as" x bs]
    by (simp add: Let_def list_for_each_entry_def list_for_each_entry_reverse_def list_for_each_entry_continue_def
        list_for_each_entry_continue_reverse_def list_for_each_entry_from_def list_prepare_entry_def)
qed

text \<open>A list of the entries at 92 and 192, whose links are 8 bytes into them.\<close>

definition demo_links :: "u64 links" where
  "demo_links = list_add_tail 200 50 (list_add_tail 100 50 (list_init 50 \<lparr>lnext = \<lambda>a. a, lprev = \<lambda>a. a\<rparr>))"

lemma demo_links_dlist: "dlist demo_links 50 [100, 200]"
  by (simp add: demo_links_def dlist_def list_add_tail_def list_add_raw_def list_init_def)

lemma list_entry_loops_visit_witness:
  "list_for_each_entry_continue_reverse 8 50 (\<lambda>e h. h) (list_entry 8 200) demo_links = Some ([92], demo_links)"
proof -
  have "dlist demo_links 50 ([100] @ 200 # [])" "filters 8 50 (\<lambda>e h. h) keep_all"
    using demo_links_dlist by (simp_all add: filters_def)
  from list_entry_loops_visit [OF this] show ?thesis
    by (simp add: Let_def list_entry_def)
qed

text \<open>C35: the safe forms run a body that may unlink the entry it is given on each entry once, in their order,
  and exactly the entries kept are left in the list; with a body that unlinks by \<open>list_del_init\<close>,
  \<open>list_for_each_entry\<close> does not end on a list with entries.\<close>

theorem list_entry_safe_loops_filter:
  assumes "dlist h head (as @ x # bs)" "filters off head body keep"
  shows "(let E = map (list_entry off); whole = as @ x # bs;
      run = (\<lambda>es res. res = Some (E es, fold body (E es) h)); left = (\<lambda>es ls. dlist (fold body (E es) h) head ls) in
    run whole (list_for_each_entry_safe off head body h) \<and> left whole (filter keep whole) \<and>
    run (rev whole) (list_for_each_entry_safe_reverse off head body h) \<and> left (rev whole) (filter keep whole) \<and>
    run bs (list_for_each_entry_safe_continue off head body (list_entry off x) h) \<and> left bs (as @ x # filter keep bs) \<and>
    run (x # bs) (list_for_each_entry_safe_from off head body (list_entry off x) h) \<and> left (x # bs) (as @ filter keep (x # bs)) \<and>
    list_for_each_entry off head (\<lambda>e. list_del_init (e + off)) h = None)"
proof -
  have lists: "dlist h head ([] @ as @ x # bs)" "dlist h head ((as @ [x]) @ bs)"
    using assms(1) by simp_all
  note rest = safe_from_rest [OF assms(2)]
  have "lnext h head \<noteq> head"
    using first_hd [OF assms(1)] dlist_not_head [of h head as x bs] assms(1) by (cases as) (auto simp: dlist_def)
  then have "list_for_each_entry off head (\<lambda>e. list_del_init (e + off)) h = None"
    using entry_loop_del_init [of off head "list_entry off (lnext h head)" h] by (cases "list_for_each_entry off head (\<lambda>e. list_del_init (e + off)) h")
      (auto simp: list_for_each_entry_def)
  then show ?thesis
    using rest [OF lists(1)] rest [OF lists(2)] rest [OF assms(1)] safe_reverse_whole [OF assms(2,1)]
      first_hd [OF assms(1)] next_hd [OF assms(1)]
    by (simp add: Let_def list_for_each_entry_safe_def list_for_each_entry_safe_continue_def list_for_each_entry_safe_from_def
        split del: if_split)
qed

lemma list_entry_safe_loops_filter_witness:
  "\<exists>h. list_for_each_entry_safe 8 50 (\<lambda>e. list_del_init (e + 8)) demo_links = Some ([92, 192], h) \<and> dlist h 50 []"
proof -
  have "dlist demo_links 50 ([] @ 100 # [200])"
    using demo_links_dlist by simp
  from list_entry_safe_loops_filter [OF this filters_del_init, of 8] show ?thesis
    by (simp add: Let_def list_entry_def)
qed

end
