(* ===== verification/Hash_Mem.thy ===== *)
theory Hash_Mem
  imports UC_Prelude Simulation
begin

text \<open>
  \<^verbatim>\<open>hash/uc_hash.c\<close>, the allocation functions of the hash table: plain \<^verbatim>\<open>malloc\<close>, \<^verbatim>\<open>calloc\<close>,
  \<^verbatim>\<open>realloc\<close> and \<^verbatim>\<open>free\<close>, or, when compiled for memory tests (\<open>counted\<close>), blocks with their size
  in front and a count of the bytes in use. The heap maps the address of each block to its bytes; where the
  C library puts a block and what it finds there is an argument. \<open>None\<close> is an access outside any block.
\<close>

section \<open>The C library\<close>

record hash_mem =
  blocks :: "u64 \<rightharpoonup> u8 list"
  uc_used_memory :: u64

type_synonym found = "(u64 \<times> (nat \<Rightarrow> u8)) option"

definition c_malloc :: "u64 \<Rightarrow> found \<Rightarrow> hash_mem \<Rightarrow> u64 \<times> hash_mem" where
  "c_malloc sz got m = (case got of None \<Rightarrow> (0, m)
     | Some (p, junk) \<Rightarrow> (p, m\<lparr>blocks := (blocks m)(p \<mapsto> map junk [0..<unat sz])\<rparr>))"

definition c_calloc :: "u64 \<Rightarrow> found \<Rightarrow> hash_mem \<Rightarrow> u64 \<times> hash_mem" where
  "c_calloc sz got m = (case got of None \<Rightarrow> (0, m)
     | Some (p, _) \<Rightarrow> (p, m\<lparr>blocks := (blocks m)(p \<mapsto> replicate (unat sz) 0)\<rparr>))"

definition c_free :: "u64 \<Rightarrow> hash_mem \<Rightarrow> hash_mem option" where
  "c_free p m = (if p = 0 then Some m else if blocks m p = None then None else Some (m\<lparr>blocks := (blocks m)(p := None)\<rparr>))"

definition c_realloc :: "u64 \<Rightarrow> u64 \<Rightarrow> found \<Rightarrow> hash_mem \<Rightarrow> (u64 \<times> hash_mem) option" where
  "c_realloc p sz got m =
     (if p = 0 then Some (c_malloc sz got m)
      else case blocks m p of None \<Rightarrow> None
      | Some old \<Rightarrow> Some (case got of None \<Rightarrow> (0, m)
          | Some (q, junk) \<Rightarrow> (q, m\<lparr>blocks := (blocks m)(p := None, q \<mapsto>
              take (unat sz) old @ map junk [length old..<unat sz])\<rparr>)))"

text \<open>\<^verbatim>\<open>*((size_t*)p)\<close>, read and written.\<close>

definition load_size :: "u64 \<Rightarrow> hash_mem \<Rightarrow> u64 option" where
  "load_size p m = (case blocks m p of None \<Rightarrow> None
     | Some b \<Rightarrow> if length b < 8 then None else Some (word_of_nat (le_nat (take 8 b))))"

definition store_size :: "u64 \<Rightarrow> u64 \<Rightarrow> hash_mem \<Rightarrow> hash_mem option" where
  "store_size p v m = (case blocks m p of None \<Rightarrow> None
     | Some b \<Rightarrow> if length b < 8 then None else Some (m\<lparr>blocks := (blocks m)(p \<mapsto> le_bytes 8 (unat v) @ drop 8 b)\<rparr>))"

section \<open>The functions\<close>

definition uc_hash_mem_malloc :: "bool \<Rightarrow> u64 \<Rightarrow> found \<Rightarrow> hash_mem \<Rightarrow> (u64 \<times> hash_mem) option" where
  "uc_hash_mem_malloc counted sz got m =
     (if \<not> counted then Some (c_malloc sz got m)
      else
        let (ptr, m) = c_malloc (8 + sz) got m in
        if ptr = 0 then Some (0, m)
        else do { m \<leftarrow> store_size ptr sz m;
                  Some (ptr + 8, m\<lparr>uc_used_memory := uc_used_memory m + (8 + sz)\<rparr>) })"

definition uc_hash_mem_calloc :: "bool \<Rightarrow> u64 \<Rightarrow> found \<Rightarrow> hash_mem \<Rightarrow> (u64 \<times> hash_mem) option" where
  "uc_hash_mem_calloc counted sz got m =
     (if \<not> counted then Some (c_calloc sz got m)
      else
        let (ptr, m) = c_calloc (sz + 8) got m in
        if ptr = 0 then Some (0, m)
        else do { m \<leftarrow> store_size ptr sz m;
                  Some (ptr + 8, m\<lparr>uc_used_memory := uc_used_memory m + (8 + sz)\<rparr>) })"

definition uc_hash_mem_realloc :: "bool \<Rightarrow> u64 \<Rightarrow> u64 \<Rightarrow> found \<Rightarrow> hash_mem \<Rightarrow> (u64 \<times> hash_mem) option" where
  "uc_hash_mem_realloc counted ptr sz got m =
     (if \<not> counted then c_realloc ptr sz got m
      else if ptr = 0 then uc_hash_mem_malloc counted sz got m
      else do {
        let realptr = ptr - 8;
        oldsize \<leftarrow> load_size realptr m;
        (newptr, m) \<leftarrow> c_realloc realptr (sz + 8) got m;
        if newptr = 0 then Some (0, m)
        else do { m \<leftarrow> store_size newptr sz m;
                  let m = m\<lparr>uc_used_memory := uc_used_memory m - oldsize\<rparr>;
                  Some (newptr + 8, m\<lparr>uc_used_memory := uc_used_memory m + sz\<rparr>) } })"

definition uc_hash_mem_free :: "bool \<Rightarrow> u64 \<Rightarrow> hash_mem \<Rightarrow> hash_mem option" where
  "uc_hash_mem_free counted ptr m =
     (if \<not> counted then c_free ptr m
      else if ptr = 0 then Some m
      else do {
        let realptr = ptr - 8;
        oldsize \<leftarrow> load_size realptr m;
        c_free realptr (m\<lparr>uc_used_memory := uc_used_memory m - (oldsize + 8)\<rparr>) })"

definition uc_hash_test_mem_used :: "hash_mem \<Rightarrow> u64" where
  "uc_hash_test_mem_used m = uc_used_memory m"

definition uc_hash_test_mem_malloc :: "bool \<Rightarrow> u64 \<Rightarrow> found \<Rightarrow> hash_mem \<Rightarrow> (u64 \<times> hash_mem) option" where
  "uc_hash_test_mem_malloc counted sz got m = uc_hash_mem_malloc counted sz got m"

section \<open>The count\<close>

definition total_bytes :: "(u64 \<rightharpoonup> u8 list) \<Rightarrow> nat" where
  "total_bytes f = (\<Sum>p\<in>dom f. length (the (f p)))"

text \<open>Each block has its size in front, and the count is that of all their bytes. No block is at the null
  pointer, or so that what is behind its size is.\<close>

definition sized :: "u8 list \<Rightarrow> bool" where
  "sized b \<longleftrightarrow> 8 \<le> length b \<and> le_nat (take 8 b) + 8 = length b \<and> length b < 2 ^ 64"

definition counts_in :: "(u64 \<rightharpoonup> u8 list) \<Rightarrow> u64 \<Rightarrow> bool" where
  "counts_in f used \<longleftrightarrow> f 0 = None \<and> f (- 8) = None \<and> finite (dom f) \<and> (\<forall>b \<in> ran f. sized b) \<and> used = word_of_nat (total_bytes f)"

abbreviation counts :: "hash_mem \<Rightarrow> bool" where
  "counts m \<equiv> counts_in (blocks m) (uc_used_memory m)"

lemma total_bytes_put:
  assumes "finite (dom f)" "f p = None"
  shows "total_bytes (f(p \<mapsto> b)) = total_bytes f + length b"
proof -
  have "p \<notin> dom f" "dom (f(p \<mapsto> b)) = insert p (dom f)"
    using assms(2) by auto
  moreover have "(\<Sum>q\<in>dom f. length (the ((f(p \<mapsto> b)) q))) = total_bytes f"
    unfolding total_bytes_def using assms(2) by (intro sum.cong) auto
  ultimately show ?thesis
    using assms(1) by (simp add: total_bytes_def)
qed

lemma total_bytes_drop:
  assumes "finite (dom f)" "f p = Some b"
  shows "total_bytes f = total_bytes (f(p := None)) + length b"
proof -
  have "f = (f(p := None))(p \<mapsto> b)"
    using assms(2) by auto
  then show ?thesis
    using total_bytes_put [of "f(p := None)" p b] assms(1) by simp
qed

lemma sized_put:
  assumes "length b = unat sz + 8" "length b < 2 ^ 64"
  shows "sized (le_bytes 8 (unat (sz :: u64)) @ drop 8 b)"
proof -
  have "unat sz < 256 ^ 8"
    using unsigned_less [of sz] by simp
  then show ?thesis
    using assms by (simp add: sized_def le_nat_le_bytes)
qed

lemma load_sized: "blocks m p = Some b \<Longrightarrow> sized b \<Longrightarrow> \<exists>s. load_size p m = Some s \<and> word_of_nat (length b) = s + 8 \<and> unat s + 8 = length b"
proof -
  assume b: "blocks m p = Some b" "sized b"
  let ?n = "le_nat (take 8 b)"
  have n: "?n + 8 = length b" "?n < 2 ^ 64"
    using b(2) by (auto simp: sized_def)
  have "word_of_nat (length b) = (word_of_nat ?n + 8 :: u64)"
    by (simp flip: n(1))
  moreover have "unat (word_of_nat ?n :: u64) = ?n"
    using n(2) by (simp add: unat_of_nat)
  ultimately show ?thesis
    using b n(1) by (auto simp: load_size_def sized_def)
qed

text \<open>What the user of the functions sees: the data behind the sizes, by the pointers handed out.\<close>

definition user_of :: "(u64 \<rightharpoonup> u8 list) \<Rightarrow> u64 \<rightharpoonup> u8 list" where
  "user_of f q = map_option (drop 8) (f (q - 8))"

abbreviation user :: "hash_mem \<Rightarrow> u64 \<rightharpoonup> u8 list" where
  "user m \<equiv> user_of (blocks m)"

lemma user_of_simps [simp]:
  "user_of (f(p \<mapsto> b)) = (user_of f)(p + 8 \<mapsto> drop 8 b)" "user_of (f(p := None)) = (user_of f)(p + 8 := None)"
  "user_of f (p + 8) = map_option (drop 8) (f p)"
  by (auto simp: user_of_def fun_eq_iff diff_eq_eq)

text \<open>The bytes in use: the data of each block and its size.\<close>

definition bytes_used :: "(u64 \<rightharpoonup> u8 list) \<Rightarrow> nat" where
  "bytes_used a = (\<Sum>q\<in>dom a. length (the (a q)) + 8)"

lemma bytes_used_total:
  assumes "\<forall>b \<in> ran f. sized b"
  shows "bytes_used (user_of f) = total_bytes f"
proof -
  have "dom (user_of f) = (\<lambda>p. p + 8) ` dom f"
  proof (intro set_eqI iffI)
    fix q
    assume "q \<in> dom (user_of f)"
    then show "q \<in> (\<lambda>p. p + 8) ` dom f"
      by (intro image_eqI [of _ _ "q - 8"]) (auto simp: user_of_def)
  qed auto
  then have "bytes_used (user_of f) = (\<Sum>p\<in>dom f. length (the (user_of f (p + 8))) + 8)"
    by (simp add: bytes_used_def sum.reindex inj_on_def)
  also have "\<dots> = (\<Sum>p\<in>dom f. length (the (f p)))"
  proof (intro sum.cong refl)
    fix p
    assume "p \<in> dom f"
    then obtain b where b: "f p = Some b" "sized b"
      using assms by (auto intro: ranI)
    then show "length (the (user_of f (p + 8))) + 8 = length (the (f p))"
      by (simp add: sized_def)
  qed
  finally show ?thesis
    by (simp add: total_bytes_def)
qed

text \<open>
  What the library answers to a request: no memory, or a block that is nobody's. A size so large that the
  bytes for the size itself make the sum wrap is left out here; see \<open>uc_hash_mem_oversized\<close>.
\<close>

definition fresh :: "(u64 \<rightharpoonup> u8 list) \<Rightarrow> u64 \<Rightarrow> found \<Rightarrow> bool" where
  "fresh a sz got \<longleftrightarrow> (case got of None \<Rightarrow> True
     | Some (p, _) \<Rightarrow> p \<noteq> 0 \<and> p + 8 \<noteq> 0 \<and> a (p + 8) = None \<and> unat sz + 8 < 2 ^ 64)"

lemma finite_ran_upd: "ran (f(p \<mapsto> b)) \<subseteq> insert b (ran f)"
  by (auto simp: ran_def)

lemma ran_drop: "ran (f(p := None)) \<subseteq> ran f"
  by (auto simp: ran_def split: if_splits)

text \<open>A new block with its size in front is counted.\<close>

lemma counts_put:
  assumes "counts_in f used" "p \<noteq> 0" "p + 8 \<noteq> 0" "f p = None" "length b = unat sz + 8" "length b < 2 ^ 64"
  shows "counts_in (f(p \<mapsto> le_bytes 8 (unat sz) @ drop 8 b)) (used + (8 + sz))"
proof -
  let ?b = "le_bytes 8 (unat sz) @ drop 8 b"
  have "length ?b = unat sz + 8"
    using assms(5) by simp
  then have "total_bytes (f(p \<mapsto> ?b)) = total_bytes f + (unat sz + 8)"
    using total_bytes_put [of f p ?b] assms(1,4) by (simp add: counts_in_def)
  moreover have "sized ?b"
    using assms(5,6) by (rule sized_put)
  moreover have "p \<noteq> - 8"
    using assms(3) by auto
  ultimately show ?thesis
    using assms(1,2) finite_ran_upd [of f p ?b] by (auto simp: counts_in_def)
qed

text \<open>A block is given up.\<close>

lemma counts_drop:
  assumes "counts m" "blocks m p = Some b"
  obtains s where "load_size p m = Some s" "unat s + 8 = length b"
    "counts_in ((blocks m)(p := None)) (uc_used_memory m - (s + 8))"
proof -
  have "sized b"
    using assms by (auto simp: counts_in_def intro: ranI)
  then obtain s where s: "load_size p m = Some s" "word_of_nat (length b) = s + 8" "unat s + 8 = length b"
    using load_sized [of m p b] assms(2) by blast
  have "word_of_nat (total_bytes (blocks m)) = (word_of_nat (total_bytes ((blocks m)(p := None))) + (s + 8) :: u64)"
    using total_bytes_drop [of "blocks m" p b] assms s(2) by (simp add: counts_in_def)
  then have "counts_in ((blocks m)(p := None)) (uc_used_memory m - (s + 8))"
    using assms(1) ran_drop [of "blocks m" p] by (auto simp: counts_in_def)
  with s(1,3) show ?thesis
    by (rule that)
qed

lemma len8: "unat (sz :: u64) + 8 < 2 ^ 64 \<Longrightarrow> unat (8 + sz) = unat sz + 8 \<and> unat (sz + 8) = unat sz + 8"
  by (simp add: unat_word_ariths)

section \<open>The functions on the user's data\<close>

datatype mem_op =
    Malloc u64 found
  | Calloc u64 found
  | Realloc u64 u64 found
  | Free u64

text \<open>A call: the pointer it returns (0 for \<open>uc_hash_mem_free\<close>, which returns nothing) and the heap.\<close>

fun run_mem_op :: "bool \<Rightarrow> mem_op \<Rightarrow> hash_mem \<Rightarrow> (u64 \<times> hash_mem) option" where
  "run_mem_op counted (Malloc sz got) m = uc_hash_mem_malloc counted sz got m"
| "run_mem_op counted (Calloc sz got) m = uc_hash_mem_calloc counted sz got m"
| "run_mem_op counted (Realloc p sz got) m = uc_hash_mem_realloc counted p sz got m"
| "run_mem_op counted (Free p) m = map_option (Pair 0) (uc_hash_mem_free counted p m)"

text \<open>The same on the data alone: the pointer is 8 behind the block of the library, the contents start there.\<close>

definition spec_malloc :: "u64 \<Rightarrow> found \<Rightarrow> (u64 \<rightharpoonup> u8 list) \<Rightarrow> u64 \<times> (u64 \<rightharpoonup> u8 list)" where
  "spec_malloc sz got a = (case got of None \<Rightarrow> (0, a)
     | Some (p, junk) \<Rightarrow> (p + 8, a(p + 8 \<mapsto> map junk [8..<unat sz + 8])))"

fun spec_mem_op :: "mem_op \<Rightarrow> (u64 \<rightharpoonup> u8 list) \<Rightarrow> u64 \<times> (u64 \<rightharpoonup> u8 list)" where
  "spec_mem_op (Malloc sz got) a = spec_malloc sz got a"
| "spec_mem_op (Calloc sz got) a = (case got of None \<Rightarrow> (0, a)
     | Some (p, _) \<Rightarrow> (p + 8, a(p + 8 \<mapsto> replicate (unat sz) 0)))"
| "spec_mem_op (Realloc q sz got) a =
     (if q = 0 then spec_malloc sz got a
      else case got of None \<Rightarrow> (0, a)
      | Some (p, junk) \<Rightarrow> (let old = the (a q) in
          (p + 8, a(q := None, p + 8 \<mapsto> take (unat sz) old @ map junk [length old + 8..<unat sz + 8]))))"
| "spec_mem_op (Free q) a = (0, a(q := None))"

text \<open>
  The library keeps its contract, only pointers held are given back. \<^verbatim>\<open>realloc\<close> answers with no memory, the
  same place, or a new one.
\<close>

fun mem_op_ready :: "mem_op \<Rightarrow> (u64 \<rightharpoonup> u8 list) \<Rightarrow> bool" where
  "mem_op_ready (Malloc sz got) a \<longleftrightarrow> fresh a sz got"
| "mem_op_ready (Calloc sz got) a \<longleftrightarrow> fresh a sz got"
| "mem_op_ready (Realloc q sz got) a \<longleftrightarrow>
     (if q = 0 then fresh a sz got else a q \<noteq> None \<and> fresh (a(q := None)) sz got)"
| "mem_op_ready (Free q) a \<longleftrightarrow> q = 0 \<or> a q \<noteq> None"

definition mem_refines :: "hash_mem \<Rightarrow> (u64 \<rightharpoonup> u8 list) \<Rightarrow> bool" where
  "mem_refines m a \<longleftrightarrow> counts m \<and> a = user m"

lemma malloc_refines:
  assumes m: "counts m" and got: "fresh (user m) sz got"
  shows "\<exists>m'. uc_hash_mem_malloc True sz got m = Some (fst (spec_mem_op (Malloc sz got) (user m)), m') \<and>
    mem_refines m' (snd (spec_mem_op (Malloc sz got) (user m)))"
proof (cases got)
  case (Some g)
  then obtain p junk where g: "got = Some (p, junk)" "p \<noteq> 0" "p + 8 \<noteq> 0" "blocks m p = None" "unat sz + 8 < 2 ^ 64"
    using got by (cases g) (auto simp: fresh_def)
  let ?b = "map junk [0..<unat sz + 8]"
  have "drop 8 ?b = map junk [8..<unat sz + 8]"
    by (simp add: drop_map)
  then show ?thesis
    using counts_put [OF m g(2-4), of ?b sz] g
    by (simp add: uc_hash_mem_malloc_def c_malloc_def store_size_def len8 mem_refines_def spec_malloc_def)
qed (use m in \<open>simp add: uc_hash_mem_malloc_def c_malloc_def mem_refines_def spec_malloc_def\<close>)

lemma calloc_refines:
  assumes m: "counts m" and got: "fresh (user m) sz got"
  shows "\<exists>m'. uc_hash_mem_calloc True sz got m = Some (fst (spec_mem_op (Calloc sz got) (user m)), m') \<and>
    mem_refines m' (snd (spec_mem_op (Calloc sz got) (user m)))"
proof (cases got)
  case (Some g)
  then obtain p junk where g: "got = Some (p, junk)" "p \<noteq> 0" "p + 8 \<noteq> 0" "blocks m p = None" "unat sz + 8 < 2 ^ 64"
    using got by (cases g) (auto simp: fresh_def)
  then show ?thesis
    using counts_put [OF m g(2-4), of "replicate (unat sz + 8) 0" sz]
    by (simp add: uc_hash_mem_calloc_def c_calloc_def store_size_def len8 mem_refines_def)
qed (use m in \<open>simp add: uc_hash_mem_calloc_def c_calloc_def mem_refines_def\<close>)

text \<open>A pointer in use has its block in front, and is not null.\<close>

lemma user_block:
  assumes "counts m" "user m q \<noteq> None"
  obtains b where "blocks m (q - 8) = Some b" "user m q = Some (drop 8 b)" "q - 8 \<noteq> 0"
proof -
  obtain b where b: "blocks m (q - 8) = Some b"
    using assms(2) by (auto simp: user_of_def)
  then have "q - 8 \<noteq> 0"
    using assms(1) by (metis counts_in_def option.distinct(1))
  with b show thesis
    using that by (simp add: user_of_def)
qed

lemma free_refines:
  assumes m: "counts m" and q: "q = 0 \<or> user m q \<noteq> None"
  shows "\<exists>m'. uc_hash_mem_free True q m = Some m' \<and> mem_refines m' ((user m)(q := None))"
proof (cases "q = 0")
  case True
  have "user m 0 = None"
    using m by (simp add: user_of_def counts_in_def)
  then show ?thesis
    using True m by (auto simp: uc_hash_mem_free_def mem_refines_def)
next
  case False
  then obtain b where b: "blocks m (q - 8) = Some b" "q - 8 \<noteq> 0"
    using user_block [OF m, of q] q by blast
  obtain s where "load_size (q - 8) m = Some s" "counts_in ((blocks m)(q - 8 := None)) (uc_used_memory m - (s + 8))"
    using counts_drop [OF m b(1)] by metis
  then show ?thesis
    using False b by (simp add: uc_hash_mem_free_def c_free_def Let_def mem_refines_def)
qed

lemma realloc_refines:
  assumes m: "counts m" and ready: "mem_op_ready (Realloc q sz got) (user m)"
  shows "\<exists>m'. uc_hash_mem_realloc True q sz got m = Some (fst (spec_mem_op (Realloc q sz got) (user m)), m') \<and>
    mem_refines m' (snd (spec_mem_op (Realloc q sz got) (user m)))"
proof (cases "q = 0")
  case True
  then show ?thesis
    using malloc_refines [OF m, of sz got] ready by (simp add: uc_hash_mem_realloc_def)
next
  case False
  then have "user m q \<noteq> None" and got: "fresh ((user m)(q := None)) sz got"
    using ready by simp_all
  then obtain b where b: "blocks m (q - 8) = Some b" "user m q = Some (drop 8 b)" "q - 8 \<noteq> 0"
    using user_block [OF m] by metis
  obtain s where s: "load_size (q - 8) m = Some s" "unat s + 8 = length b"
    "counts_in ((blocks m)(q - 8 := None)) (uc_used_memory m - (s + 8))"
    using counts_drop [OF m b(1)] by metis
  show ?thesis
  proof (cases got)
    case None
    then show ?thesis
      using False b s(1) m by (simp add: uc_hash_mem_realloc_def c_realloc_def Let_def mem_refines_def)
  next
    case (Some g)
    then obtain p junk where g: "got = Some (p, junk)" "p \<noteq> 0" "p + 8 \<noteq> 0" "((blocks m)(q - 8 := None)) p = None"
      "unat sz + 8 < 2 ^ 64"
      using got by (cases g) (auto simp: fresh_def diff_eq_eq split: if_splits)
    let ?new = "take (unat sz + 8) b @ map junk [length b..<unat sz + 8]"
    have len: "length ?new = unat sz + 8"
      by simp
    have "counts_in ((blocks m)(q - 8 := None, p \<mapsto> le_bytes 8 (unat sz) @ drop 8 ?new))
        (uc_used_memory m - (s + 8) + (8 + sz))"
      using s(3) g(2-5) by (intro counts_put) auto
    moreover have "drop 8 ?new = take (unat sz) (drop 8 b) @ map junk [length b..<unat sz + 8]"
      using s(2) by (simp add: drop_take)
    moreover have "length (drop 8 b) + 8 = length b"
      using s(2) by simp
    ultimately show ?thesis
      using False b s(1) g(1,2,5) len
      by (simp add: uc_hash_mem_realloc_def c_realloc_def store_size_def Let_def len8 mem_refines_def algebra_simps)
  qed
qed

lemma run_mem_op_refines:
  assumes "mem_refines m a" "mem_op_ready c a"
  shows "\<exists>m'. run_mem_op True c m = Some (fst (spec_mem_op c a), m') \<and> mem_refines m' (snd (spec_mem_op c a))"
proof (cases c)
  case (Malloc sz got)
  then show ?thesis
    using malloc_refines [of m sz got] assms by (simp add: mem_refines_def)
next
  case (Calloc sz got)
  then show ?thesis
    using calloc_refines [of m sz got] assms by (simp add: mem_refines_def)
next
  case (Realloc q sz got)
  then show ?thesis
    using realloc_refines [of m q sz got] assms by (simp add: mem_refines_def)
next
  case (Free q)
  then show ?thesis
    using free_refines [of m q] assms by (auto simp: mem_refines_def)
qed

interpretation mem_sim: simulated "run_mem_op True" spec_mem_op mem_op_ready mem_refines
  by unfold_locales (rule run_mem_op_refines)

lemma mem_refines_count:
  assumes "mem_refines m a"
  shows "user m = a" "uc_hash_test_mem_used m = word_of_nat (bytes_used a)"
  using assms bytes_used_total [of "blocks m"] by (simp_all add: mem_refines_def uc_hash_test_mem_used_def counts_in_def)

text \<open>In the default build nothing is counted.\<close>

lemma uncounted: "run_mem_op False c m = Some (r, m') \<Longrightarrow> uc_used_memory m' = uc_used_memory m"
  by (cases c) (auto simp: uc_hash_mem_malloc_def uc_hash_mem_calloc_def uc_hash_mem_realloc_def uc_hash_mem_free_def
      c_malloc_def c_calloc_def c_realloc_def c_free_def split: option.splits if_splits)

section \<open>Properties\<close>

text \<open>C36: in the build for memory tests any sequence of allocations, changes of size and releases, of sizes
  below \<open>2^64 - 8\<close> where memory is given, stays inside its blocks: it returns the pointers and leaves the
  contents that the same calls do on the user's data alone (a new block is junk or zero, a change of size
  keeps what fits), each pointer 8 behind the block it was made from; and \<open>uc_hash_test_mem_used\<close> is the
  number of bytes in use, with 8 for the size of each block; so it is 0 once all is given back.\<close>

theorem uc_hash_memory_counted:
  assumes "mem_refines m a" "ready_steps mem_op_ready spec_mem_op cs a" "spec_steps spec_mem_op cs a = (ptrs, a')"
  shows "\<exists>m'. run_steps (run_mem_op True) cs m = Some (ptrs, m') \<and> user m' = a' \<and>
    (\<forall>b \<in> ran (blocks m'). sized b) \<and> uc_hash_test_mem_used m' = word_of_nat (bytes_used a') \<and>
    (a' = Map.empty \<longrightarrow> uc_hash_test_mem_used m' = 0)"
proof -
  obtain m' where m': "run_steps (run_mem_op True) cs m = Some (ptrs, m')" "mem_refines m' a'"
    using mem_sim.steps_simulate [OF assms(1,2)] assms(3) by auto
  moreover have "bytes_used Map.empty = 0"
    by (simp add: bytes_used_def)
  moreover have "\<forall>b \<in> ran (blocks m'). sized b"
    using m'(2) by (simp add: mem_refines_def counts_in_def)
  ultimately show ?thesis
    using mem_refines_count [OF m'(2)] by auto
qed

definition demo_ops :: "mem_op list" where
  "demo_ops = [Malloc 3 (Some (16, \<lambda>_. 9)), Calloc 5 (Some (64, \<lambda>_. 9)), Realloc 24 4 (Some (128, \<lambda>_. 7)), Free 72]"

lemma uc_hash_memory_counted_witness:
  "\<exists>m'. run_steps (run_mem_op True) demo_ops \<lparr>blocks = Map.empty, uc_used_memory = 0\<rparr> = Some ([24, 72, 136, 0], m') \<and>
    user m' 136 = Some [9, 9, 9, 7] \<and> uc_hash_test_mem_used m' = 12"
proof -
  have "mem_refines \<lparr>blocks = Map.empty, uc_used_memory = 0\<rparr> Map.empty"
    by (simp add: mem_refines_def counts_in_def total_bytes_def user_of_def fun_eq_iff)
  moreover have "ready_steps mem_op_ready spec_mem_op demo_ops Map.empty"
    by (simp add: demo_ops_def fresh_def Let_def spec_malloc_def)
  moreover have "\<exists>a'. spec_steps spec_mem_op demo_ops Map.empty = ([24, 72, 136, 0], a') \<and> a' 136 = Some [9, 9, 9, 7] \<and>
      dom a' = {136}"
    by (simp add: demo_ops_def Let_def spec_malloc_def)
  ultimately show ?thesis
    using uc_hash_memory_counted [of "\<lparr>blocks = Map.empty, uc_used_memory = 0\<rparr>" Map.empty demo_ops "[24, 72, 136, 0]"]
    by (auto simp: bytes_used_def)
qed

text \<open>
  A size of which only the last 8 values make the sum with the size itself wrap: where the library gives
  memory for the few bytes asked of it, the size is stored outside. \<open>uc_hash_create\<close> with height -38 asks
  for such a size.
\<close>

theorem uc_hash_mem_oversized:
  assumes "2 ^ 64 - 8 \<le> unat sz" "p \<noteq> 0"
  shows "uc_hash_mem_malloc True sz (Some (p, junk)) m = None" "uc_hash_mem_calloc True sz (Some (p, junk)) m = None"
proof -
  have "unat sz < 2 ^ 64"
    using unsigned_less [of sz] by simp
  then have "unat (8 + sz) < 8" "unat (sz + 8) < 8"
    using assms(1) by (simp_all add: unat_word_ariths le_mod_geq)
  then show "uc_hash_mem_malloc True sz (Some (p, junk)) m = None" "uc_hash_mem_calloc True sz (Some (p, junk)) m = None"
    using assms(2) by (simp_all add: uc_hash_mem_malloc_def uc_hash_mem_calloc_def c_malloc_def c_calloc_def store_size_def)
qed

lemma uc_hash_mem_oversized_witness:
  "uc_hash_mem_calloc True (296 + 8 * word_of_int (- 38)) (Some (16, junk)) m = None"
  by (rule uc_hash_mem_oversized) simp_all

end
