(* ===== verification/Tcp_Ip.thy ===== *)
theory Tcp_Ip
  imports UC_Prelude
begin

text \<open>
  \<^verbatim>\<open>tcp_ip/uc_tcp_ip.c\<close>: the options of sockets. A descriptor is its own flags (\<^verbatim>\<open>F_GETFD\<close>), the status
  flags of the open file (\<^verbatim>\<open>F_GETFL\<close>) and the socket options set so far; the result of each system call is
  an argument, and a call that fails changes nothing. What \<^verbatim>\<open>perror\<close> prints is not modelled.
\<close>

unbundle bit_operations_syntax

datatype sockopt = TCP_NODELAY | SO_REUSEADDR | SO_SNDBUF | SO_RCVBUF

record descriptor =
  fd_flags :: u32
  status_flags :: u32
  options :: "sockopt \<rightharpoonup> int"

definition FD_CLOEXEC :: u32 where "FD_CLOEXEC = 1"
definition O_APPEND :: u32 where "O_APPEND = 0x400"
definition O_NONBLOCK :: u32 where "O_NONBLOCK = 0x800"
definition O_ASYNC :: u32 where "O_ASYNC = 0x2000"
definition O_DIRECT :: u32 where "O_DIRECT = 0x4000"
definition O_NOATIME :: u32 where "O_NOATIME = 0x40000"

text \<open>\<^verbatim>\<open>F_SETFL\<close> sets these five; the access mode and the creation flags stay.\<close>

definition settable :: u32 where
  "settable = O_APPEND OR O_NONBLOCK OR O_ASYNC OR O_DIRECT OR O_NOATIME"

definition fcntl_setfl :: "int \<Rightarrow> u32 \<Rightarrow> descriptor \<Rightarrow> int \<times> descriptor" where
  "fcntl_setfl ret v d = (ret, if ret = - 1 then d else
     d\<lparr>status_flags := (status_flags d AND NOT settable) OR (v AND settable)\<rparr>)"

definition setsockopt :: "int \<Rightarrow> sockopt \<Rightarrow> int \<Rightarrow> descriptor \<Rightarrow> int \<times> descriptor" where
  "setsockopt ret opt v d = (ret, if ret = - 1 then d else d\<lparr>options := (options d)(opt \<mapsto> v)\<rparr>)"

text \<open>The flags read are those of the descriptor (\<^verbatim>\<open>F_GETFD\<close>), not those of the file.\<close>

definition uc_setnonblocking :: "int \<Rightarrow> descriptor \<Rightarrow> int \<times> descriptor" where
  "uc_setnonblocking ret d = fcntl_setfl ret (fd_flags d OR O_NONBLOCK) d"

definition uc_setnodelay :: "int \<Rightarrow> descriptor \<Rightarrow> int \<times> descriptor" where
  "uc_setnodelay ret d = setsockopt ret TCP_NODELAY 1 d"

definition uc_setreuse :: "int \<Rightarrow> descriptor \<Rightarrow> int \<times> descriptor" where
  "uc_setreuse ret d = setsockopt ret SO_REUSEADDR 1 d"

definition uc_setsndbuf :: "int \<Rightarrow> int \<Rightarrow> descriptor \<Rightarrow> int \<times> descriptor" where
  "uc_setsndbuf ret len d = setsockopt ret SO_SNDBUF len d"

definition uc_setrcvbuf :: "int \<Rightarrow> int \<Rightarrow> descriptor \<Rightarrow> int \<times> descriptor" where
  "uc_setrcvbuf ret len d = setsockopt ret SO_RCVBUF len d"

section \<open>The flags after \<open>uc_setnonblocking\<close>\<close>

lemmas flag_defs = FD_CLOEXEC_def O_APPEND_def O_NONBLOCK_def O_ASYNC_def O_DIRECT_def O_NOATIME_def settable_def

text \<open>
  A descriptor has no flag but \<open>FD_CLOEXEC\<close>, so the file becomes non-blocking and loses each other flag
  that can be set; with \<^verbatim>\<open>F_GETFL\<close> in place of \<^verbatim>\<open>F_GETFD\<close> they would stay.
\<close>

theorem uc_setnonblocking_flags:
  assumes "ret \<noteq> - 1" "fd_flags d = 0 \<or> fd_flags d = FD_CLOEXEC"
  shows "status_flags (snd (uc_setnonblocking ret d)) = (status_flags d AND NOT settable) OR O_NONBLOCK"
  using assms by (auto simp: uc_setnonblocking_def fcntl_setfl_def flag_defs)

text \<open>A file opened for appending no longer appends.\<close>

lemma uc_setnonblocking_drops_append:
  assumes "ret \<noteq> - 1" "fd_flags d = 0"
  shows "status_flags (snd (uc_setnonblocking ret d)) AND O_APPEND = 0"
    and "status_flags (snd (uc_setnonblocking ret d)) AND O_NONBLOCK = O_NONBLOCK"
proof -
  have "NOT settable AND O_APPEND = 0" "O_NONBLOCK AND O_APPEND = 0"
    by (simp_all add: flag_defs)
  then show "status_flags (snd (uc_setnonblocking ret d)) AND O_APPEND = 0"
    using assms by (simp add: uc_setnonblocking_flags bit.conj_disj_distrib2 and.assoc)
  show "status_flags (snd (uc_setnonblocking ret d)) AND O_NONBLOCK = O_NONBLOCK"
    using assms by (simp add: uc_setnonblocking_flags bit.conj_disj_distrib2 and.assoc)
qed

lemma sockopts_kept:
  "status_flags (snd (setsockopt ret opt v d)) = status_flags d"
  "ret \<noteq> - 1 \<Longrightarrow> options (snd (setsockopt ret opt v d)) = (options d)(opt \<mapsto> v)"
  by (simp_all add: setsockopt_def)

end
