(* ===== verification/Timer_Pool.thy ===== *)
theory Timer_Pool
  imports Timer_Service Pool_Service
begin

text \<open>
  The timer on its thread pool: the tasks the timer's ticks post are the ones its pool accepts, after what
  was accepted before, such as the loop of ticks itself. So the schedule of the timers, a property of the
  wheels, becomes one of the callbacks that workers run.
\<close>

definition pool_job :: "task \<Rightarrow> job" where
  "pool_job k = (Some (fst k), Some (snd k))"

text \<open>The callbacks due in \<open>n\<close> ticks: each timer's, as often as it expires.\<close>

definition due_jobs :: "nat \<Rightarrow> nat \<Rightarrow> (nat \<rightharpoonup> timer_spec) \<Rightarrow> task multiset" where
  "due_jobs now n A = (\<Sum>p\<in>dom A. replicate_mset (fire_count (now + n) (the (A p))) (job_of A p))"

lemma posted_due:
  assumes "timer_rel now t A" "now + n < 2 ^ 31" "2 * card (dom A) < fuel" "uc_timer_check_timeout fuel n t = Some t'" "posted t = []"
  shows "mset (posted t') = due_jobs now n A"
  using posted_count [OF assms(1-3)] assms(4,5) by (auto simp: due_jobs_def)

section \<open>Properties\<close>

text \<open>C4: when the pool has accepted what the ticks posted, each expiry of each timer has its callback either
  taken by a worker or still in the queue, once; the callbacks are taken in the order of the expiries,
  and all of them have been taken once the queue is empty.\<close>

theorem timer_callbacks_run:
  assumes timer: "timer_rel now t A" "now + n < 2 ^ 31" "2 * card (dom A) < fuel" "posted t = []"
    "uc_timer_check_timeout fuel n t = Some t'"
    and pool: "pool_reach lo hi ss c" "shutdown (pool c) = 0" "accepted c = before @ map pool_job (posted t')"
  shows "\<exists>queue. dlist (plinks (pool c)) Task_head queue \<and>
    mset (taken c) + mset (map (node_job (pool c)) queue) = mset before + image_mset pool_job (due_jobs now n A) \<and>
    (\<not> jumped c \<longrightarrow> taken c @ map (node_job (pool c)) queue = before @ map pool_job (posted t')) \<and>
    (list_empty Task_head (plinks (pool c)) \<longrightarrow> mset (taken c) = mset before + image_mset pool_job (due_jobs now n A))"
proof -
  obtain queue where queue: "dlist (plinks (pool c)) Task_head queue"
    "mset (accepted c) = mset (taken c) + mset (map (node_job (pool c)) queue)"
    "\<not> jumped c \<longrightarrow> accepted c = taken c @ map (node_job (pool c)) queue"
    using accepted_accounted [OF pool(1)] pool(2) by blast
  have "mset (accepted c) = mset before + image_mset pool_job (due_jobs now n A)"
    using posted_due [OF timer(1-3,5,4)] pool(3) by (metis mset_append mset_map)
  then show ?thesis
    using queue pool(3) list_empty_iff [OF queue(1)] by (intro exI [of _ queue]) auto
qed

text \<open>A timer for the task of the pool's run.\<close>

lemma timer_callbacks_run_witness:
  "\<exists>t t'. uc_timer_check_timeout 3 5 t = Some t' \<and> posted t' = [(7, 0)] \<and>
     mset (taken demo7) = image_mset pool_job {#(7, 0)#}"
proof -
  obtain t0 where t0: "timer_rel 0 t0 Map.empty" "items t0 = Map.empty" "posted t0 = []"
    using uc_timer_init_rel by metis
  let ?A = "[9 \<mapsto> \<lparr>at_due = 3, at_every = 3, at_left = 1, at_job = (7, 0)\<rparr>]"
  obtain t where t: "timer_rel 0 t ?A" "posted t = []"
    using uc_timer_add_rel [OF t0(1), of 3 9 1 7 0] t0(2,3) first_expiry_values(2)
    by (auto simp: TIMER_INTERVAL_MAX_def)
  have due: "due_jobs 0 5 ?A = {#(7, 0)#}"
    by (simp add: due_jobs_def fire_count_def job_of_def)
  obtain t' where t': "uc_timer_check_timeout 3 5 t = Some t'"
    using posted_count [OF t(1), of 5 3] by auto
  then have "mset (posted t') = {#(7, 0)#}"
    using posted_due [OF t(1) _ _ t' t(2)] due by simp
  then have p: "posted t' = [(7, 0)]"
    by simp
  have "accepted demo7 = [] @ map pool_job (posted t')"
    by (simp add: p pool_job_def demo7_def demo6_def demo5_def demo4_def demo_job_def)
  from timer_callbacks_run [OF t(1) _ _ t(2) t' demo_reach [OF demo_run7] _ this] show ?thesis
    using t' p due demo_pools7(1,3) by auto
qed

end
