(* ===== verification/Spec2Isabelle.thy ===== *)
theory Spec2Isabelle
  imports List_Ops H_List Hash_Ops Timer_Service Pool_Service Ipc_Faults Ipc_Safety Skip_Service Key_Text Ipc_Init List_Entry Hash_Mem Tcp_Ip Timer_Pool
begin

text \<open>
  \<^bold>\<open>Verification of utils_c.\<close>

  The repository is a library of C utilities for Linux: intrusive lists (\<^verbatim>\<open>include/list.h\<close>), a chained
  hash table (\<^verbatim>\<open>hash/uc_hash.c\<close>), hierarchical timing wheels (\<^verbatim>\<open>time/uc_time.c\<close>), a thread pool
  (\<^verbatim>\<open>threadpool/uc_threadpool.c\<close>), a client and a server for messages over a TCP connection
  (\<^verbatim>\<open>ipc/\<close>), random bytes, address and socket helpers, and a skip list that the build leaves out. The
  timer keeps its wheels in intrusive lists and posts callbacks to a thread pool; the pool keeps its
  threads and tasks in intrusive lists; the IPC client keeps the sequence numbers it waits for, and the
  server its connections, in hash tables, and both run their loops in a pool.

  \<^bold>\<open>Conventions.\<close> \<open>UC_Prelude\<close>: machine integers are words of their width (\<open>u8\<close> to \<open>u64\<close>), C's \<open>int\<close>
  arithmetic an integer with the wrap-around written out (\<open>wrap_s32\<close>), bytes little-endian. Definitions
  have the names of the C functions. State is a record handed through. An operation that can fail at a
  system call or an allocation takes that call's outcome as an argument, so a theorem covers every
  outcome it does not exclude. A \<open>None\<close>, or an \<open>Inl\<close> of a type \<open>crash\<close> or \<open>stop\<close>, is undefined
  behaviour, the end of the process, or a loop that does not end, as the definition says.
  \<open>Simulation\<close> holds the two locales that carry a simulation of single operations over to sequences.

  \<^bold>\<open>Lists.\<close> \<open>List_Head\<close> (\<^verbatim>\<open>struct list_head\<close>, \<^verbatim>\<open>list_*\<close>): a store of \<open>next\<close> and \<open>prev\<close> fields, each operation
  as its field writes; \<open>dlist h head xs\<close> says which nodes a list has. The locale \<open>intrusive_lists\<close> is the
  contract the timer and the pool use. \<open>List_Ops\<close>: sequences of operations refine plain lists.
  \<open>H_List\<close>: the lists with a single-pointer head, the same way. \<open>List_Entry\<close>: the iteration macros over
  the structures the links are embedded in, as partial functions with the loop's body as an argument:
  what they visit, and that the safe ones survive a body that unlinks.

  \<^bold>\<open>Hash table.\<close> \<open>Crc64\<close>: the table-driven CRC equals bit-serial division. \<open>Hash_Key\<close>: the key union as
  bytes; comparison, copy, length, address. \<open>Key_Text\<close>: the text of a key for the log. \<open>Hash_Table\<close>:
  the operations on buckets of nodes. \<open>Hash_Map\<close>: the invariant \<open>hash_inv\<close>, the finite map
  \<open>hash_map\<close> a table stands for, and the locale \<open>keyed_store\<close>, the contract the IPC programs use.
  \<open>Hash_Walk\<close>: iteration. \<open>Hash_Ops\<close>: any sequence of calls refines the map, and each value handed in is
  owned, freed once or handed back, as long as updates find their key: \<open>uc_hash_update\<close> of an absent key
  does not return what its header says, and is stated apart. Creation with a small negative height stores
  outside its block. \<open>Hash_Mem\<close>: the allocation functions; in the build for memory tests they refine a heap
  of the user's data, and count its bytes.

  \<^bold>\<open>Timer.\<close> \<open>Timer\<close>: the five wheels at pointer level, the tick, insertion, removal and set-up.
  \<open>Timer_Clock\<close>: the arithmetic of slots. \<open>Timer_Wheels\<close>: the wheels refine a table of timers (due time,
  period, expiries left, job). \<open>Timer_Service\<close>: this holds of any sequence of ticks and calls; the
  schedule each timer keeps; and what goes wrong: timers put into a slot just left are a turn late, a
  second deletion of expired timers writes to freed memory, the clock reading is wrong from 2^31 ms on.
  \<open>Timer_Pool\<close>: on a pool that accepts what the ticks post, each expiry's callback is run or queued once,
  in order. Loops over a slot have fuel; more than twice the number of timers is enough, and the theorems ask for
  no more and show that it does not run out.

  \<^bold>\<open>Thread pool.\<close> \<open>Thread_Pool\<close>: the critical sections as functions on the pool. \<open>Pool_Steps\<close>: callers,
  workers and closers as a step relation, with one condition variable. \<open>Pool_Inv\<close>: its invariant.
  \<open>Pool_Service\<close>: from creation on, no accepted task is lost or run twice, the counts are exact; after the
  close every worker ends by steps of its own, at most one task each, and all is freed; and two defects: a wake-up that goes to the wrong thread and a lock
  kept when memory is short.

  \<^bold>\<open>IPC.\<close> \<open>Ipc_Wire\<close>: packets, random bytes, the read and write loops (\<^verbatim>\<open>uc_ipc_io.c\<close>, \<^verbatim>\<open>uc_random.c\<close>).
  \<open>Ipc_Server\<close> and \<open>Ipc_Client\<close>: the two programs. \<open>Ipc_Reader\<close>: reassembly, however the stream is cut.
  \<open>Ipc_Service\<close> and \<open>Ipc_Calls\<close>: a synchronous call through both, and what the locale
  \<open>searched_store\<close> asks of the tables. \<open>Ipc_Faults\<close>: timeouts, deadlines the system rejects, lengths that
  overflow. \<open>Ipc_Safety\<close>: the server's invariant, and that a step is undefined in exactly two cases, both of which a
  client can provoke: a message of a type the server does not handle, and a length there is no memory for.
  A call that waits finds the handler, when it has locked \<^verbatim>\<open>ack_mtx\<close> and at each wake-up, as the receiver
  left it. \<open>Ipc_Init\<close>: start-up and the way back from a failure, with a ledger of what the process
  holds, and the cases in which start-up crashes or does not end. The rounds of a connection are bounded by the weight of what has arrived.

  \<^bold>\<open>Skip list.\<close> \<open>Skip_List\<close>: nodes with their levels at addresses, spans of 32 bits. \<open>Skip_Inv\<close>,
  \<open>Skip_Ops\<close>, \<open>Skip_Delete\<close>, \<open>Skip_Rank\<close>: the invariant, insertion, deletion, ranks. \<open>Skip_Service\<close>: any
  sequence of calls refines a sorted sequence of entries; ranks ask for fewer than 2^32 entries. The
  loop that draws a level ends when \<^verbatim>\<open>random\<close> gives a value that ends it; the values are an argument.

  \<^bold>\<open>Helpers.\<close> \<open>Uc_Util\<close>: host ranges, MAC and IPv4 addresses read and printed. \<open>Tcp_Ip\<close>: socket options
  and the flags of a descriptor.

  \<^bold>\<open>Not modelled.\<close> Logging (\<^verbatim>\<open>log/uc_log.c\<close> and the messages the other files print): output only. The test
  drivers (\<^verbatim>\<open>*_test.c\<close>, \<^verbatim>\<open>ipc/uc_test_*.c\<close>, \<^verbatim>\<open>tcp_ip/test_udp_*.c\<close>, \<^verbatim>\<open>list/list_test.c\<close>). The server's traffic
  counters, which no code uses. What the kernel does with sockets, \<^verbatim>\<open>epoll\<close>, threads and clocks is an
  argument or, for the interleaving of the pool's threads, the choice of the next step; the timer sees
  the pool, and the IPC programs see theirs, as the list of the tasks posted; the threads of an IPC
  process run one handler at a time.
\<close>

end
